(* ===== verification/C_Prelude.thy ===== *)
theory C_Prelude
  imports Main "HOL-Library.Word" "HOL-Library.Multiset"
begin

text \<open>
  What every component of the development shares: names for the machine integers of the
  target (a 32-bit ARM system, so \<open>int\<close>, \<open>unsigned\<close>, \<open>size_t\<close> and
  pointers have 32 bits), the parts of the C library the sources call on strings and
  numbers, and generic facts on lists, options and words. A C string is a \<^typ>\<open>string\<close>
  without its terminating NUL; a pointer that may be NULL is an option.
\<close>

unbundle bit_operations_syntax

named_theorems c_defs "definitions that component proofs unfold"
named_theorems inv_intro "preservation facts of component invariants"

section \<open>Machine integers\<close>

type_synonym u8 = "8 word"
type_synonym u16 = "16 word"
type_synonym u32 = "32 word"
type_synonym u64 = "64 word"
type_synonym 'a ptr = "'a option"

abbreviation NULL :: "'a ptr" where
  "NULL \<equiv> None"

text \<open>
  \<open>calloc(n, sz)\<close> returns a block only if the allocator grants it and the product of
  its arguments is representable.
\<close>

definition calloc_ok :: "bool \<Rightarrow> nat \<Rightarrow> nat \<Rightarrow> bool" where
  "calloc_ok granted n sz \<longleftrightarrow> granted \<and> n * sz < 2 ^ 32"

section \<open>Characters and strings of the C library\<close>

definition char_code :: "char \<Rightarrow> nat" where
  "char_code c = of_char c"

definition isspace :: "char \<Rightarrow> bool" where
  "isspace c \<longleftrightarrow> char_code c = 32 \<or> (9 \<le> char_code c \<and> char_code c \<le> 13)"

definition isdigit :: "char \<Rightarrow> bool" where
  "isdigit c \<longleftrightarrow> 48 \<le> char_code c \<and> char_code c \<le> 57"

definition isalpha :: "char \<Rightarrow> bool" where
  "isalpha c \<longleftrightarrow> (65 \<le> char_code c \<and> char_code c \<le> 90) \<or> (97 \<le> char_code c \<and> char_code c \<le> 122)"

definition isalnum :: "char \<Rightarrow> bool" where
  "isalnum c \<longleftrightarrow> isalpha c \<or> isdigit c"

text \<open>\<open>strncmp(a, b, n) == 0\<close>: the first \<open>n\<close> characters agree, NUL included.\<close>

definition strncmp_eq :: "string \<Rightarrow> string \<Rightarrow> nat \<Rightarrow> bool" where
  "strncmp_eq a b n \<longleftrightarrow> take n a = take n b"

text \<open>\<open>strchr\<close>: the suffix that starts at the first occurrence, NULL if there is none.\<close>

fun strchr :: "string \<Rightarrow> char \<Rightarrow> string ptr" where
  "strchr [] c = NULL"
| "strchr (x # xs) c = (if x = c then Some (x # xs) else strchr xs c)"

text \<open>\<open>strstr(s, t) != NULL\<close>.\<close>

fun strstr_found :: "string \<Rightarrow> string \<Rightarrow> bool" where
  "strstr_found [] t = (t = [])"
| "strstr_found (x # xs) t = (take (length t) (x # xs) = t \<or> strstr_found xs t)"

text \<open>\<open>strlcpy(dst, src, n)\<close>: what the buffer holds afterwards, and the length returned.\<close>

definition strlcpy :: "string \<Rightarrow> string \<Rightarrow> nat \<Rightarrow> string \<times> nat" where
  "strlcpy dst src n = (if n = 0 then dst else take (n - 1) src, length src)"

text \<open>One call of \<open>strtok_r\<close> on a one-character delimiter: the token and the rest.\<close>

definition strtok :: "char \<Rightarrow> string \<Rightarrow> (string \<times> string) ptr" where
  "strtok d s =
     (let s' = dropWhile (\<lambda>c. c = d) s
      in if s' = [] then NULL
         else Some (takeWhile (\<lambda>c. c \<noteq> d) s', tl (dropWhile (\<lambda>c. c \<noteq> d) s')))"

text \<open>\<open>%d\<close> and \<open>%u\<close>.\<close>

fun show_nat :: "nat \<Rightarrow> string" where
  "show_nat n = (if n < 10 then [char_of (48 + n)]
                 else show_nat (n div 10) @ [char_of (48 + n mod 10)])"

declare show_nat.simps [simp del]

definition show_int :: "int \<Rightarrow> string" where
  "show_int i = (if i < 0 then CHR ''-'' # show_nat (nat (- i)) else show_nat (nat i))"

definition digit_val :: "char \<Rightarrow> nat ptr" where
  "digit_val c =
     (let n = char_code c
      in if 48 \<le> n \<and> n \<le> 57 then Some (n - 48)
         else if 97 \<le> n \<and> n \<le> 122 then Some (n - 87)
         else if 65 \<le> n \<and> n \<le> 90 then Some (n - 55)
         else NULL)"

fun read_digits :: "nat \<Rightarrow> nat \<Rightarrow> string \<Rightarrow> nat \<times> string" where
  "read_digits b acc [] = (acc, [])"
| "read_digits b acc (c # cs) =
     (case digit_val c of
        None \<Rightarrow> (acc, c # cs)
      | Some d \<Rightarrow> if d < b then read_digits b (acc * b + d) cs else (acc, c # cs))"

definition starts_digit :: "nat \<Rightarrow> string \<Rightarrow> bool" where
  "starts_digit b s \<longleftrightarrow>
     (case s of [] \<Rightarrow> False
      | c # _ \<Rightarrow> (case digit_val c of None \<Rightarrow> False | Some d \<Rightarrow> d < b))"

text \<open>
  \<open>strtol(s, &end, base)\<close> with a 32-bit \<open>long\<close>: the value, clamped to the range of
  \<open>long\<close>, and the text \<open>end\<close> points to. Base 0 selects 16, 8 or 10 by prefix.
\<close>

definition hex_prefix :: "nat \<Rightarrow> string \<Rightarrow> bool" where
  "hex_prefix base s \<longleftrightarrow>
     (base = 0 \<or> base = 16) \<and> take 1 s = ''0'' \<and>
     (take 1 (drop 1 s) = ''x'' \<or> take 1 (drop 1 s) = ''X'') \<and> starts_digit 16 (drop 2 s)"

definition clamp_long :: "int \<Rightarrow> int" where
  "clamp_long i = max (- (2 ^ 31)) (min (2 ^ 31 - 1) i)"

definition strtol :: "nat \<Rightarrow> string \<Rightarrow> int \<times> string" where
  "strtol base s =
     (let s1 = dropWhile isspace s;
          neg = (take 1 s1 = ''-'');
          s2 = (if take 1 s1 = ''-'' \<or> take 1 s1 = ''+'' then tl s1 else s1);
          b = (if base \<noteq> 0 then base else if hex_prefix base s2 then 16
               else if take 1 s2 = ''0'' then 8 else 10);
          s3 = (if hex_prefix base s2 then drop 2 s2 else s2)
      in if starts_digit b s3
         then (let (n, rest) = read_digits b 0 s3
               in (clamp_long (if neg then - int n else int n), rest))
         else (0, s))"

section \<open>Generic lemmas\<close>

lemma strncmp_eq_prefix: "strncmp_eq s t (length t) \<Longrightarrow> take (length t) s = t"
  by (simp add: strncmp_eq_def)

lemma strchr_NULL_iff [simp]: "strchr s c = NULL \<longleftrightarrow> c \<notin> set s"
  by (induction s) auto

lemma strchr_SomeD: "strchr s c = Some t \<Longrightarrow> \<exists>p. s = p @ t \<and> c \<notin> set p \<and> (\<exists>r. t = c # r)"
proof (induction s)
  case Nil
  then show ?case by simp
next
  case (Cons x s)
  show ?case
  proof (cases "x = c")
    case True
    with Cons.prems show ?thesis by (intro exI [of _ "[]"]) auto
  next
    case False
    with Cons obtain p where "s = p @ t" "c \<notin> set p" "\<exists>r. t = c # r" by auto
    with False show ?thesis by (intro exI [of _ "x # p"]) simp
  qed
qed

lemma strchr_append: "c \<notin> set p \<Longrightarrow> strchr (p @ c # r) c = Some (c # r)"
  by (induction p) auto

lemma concat_list_update:
  "i < length xss \<Longrightarrow> concat (xss[i := ys]) = concat (take i xss) @ ys @ concat (drop (Suc i) xss)"
  by (simp add: upd_conv_take_nth_drop)

lemma concat_split_at:
  "i < length xss \<Longrightarrow> concat xss = concat (take i xss) @ (xss ! i) @ concat (drop (Suc i) xss)"
  by (metis concat.simps(2) concat_append id_take_nth_drop)

lemma length_concat_update:
  "i < length xss \<Longrightarrow>
     length (concat (xss[i := ys])) + length (xss ! i) = length (concat xss) + length ys"
  by (simp add: concat_list_update concat_split_at [of i xss])

lemma word_and_mask_less:
  fixes x :: u32
  assumes "n < 32"
  shows "unat (x AND (2 ^ n - 1)) < 2 ^ n"
proof -
  have "x AND (2 ^ n - 1) = take_bit n x"
    by (simp add: take_bit_eq_mask mask_eq_exp_minus_1)
  then show ?thesis
    by (simp add: unsigned_take_bit_eq)
qed

lemma unat_two_power_u32 [simp]: "n < 32 \<Longrightarrow> unat ((2::u32) ^ n) = 2 ^ n"
proof -
  assume "n < 32"
  have "(2::u32) ^ n = of_nat (2 ^ n)" by simp
  then have "unat ((2::u32) ^ n) = take_bit 32 (2 ^ n)"
    by (simp only: unsigned_of_nat) simp
  also have "\<dots> = 2 ^ n"
    using \<open>n < 32\<close> power_strict_increasing [of n 32 "2::nat"]
    by (intro take_bit_nat_eq_self) simp
  finally show ?thesis .
qed

lemma sorted_wrt_mset:
  assumes "symp R"
  shows "mset xs = mset ys \<Longrightarrow> sorted_wrt R xs \<Longrightarrow> sorted_wrt R ys"
proof (induction xs arbitrary: ys)
  case Nil
  then show ?case by simp
next
  case (Cons x xs)
  from Cons.prems(1) have "x \<in> set ys" by (metis list.set_intros(1) mset_eq_setD)
  then obtain y1 y2 where ys: "ys = y1 @ x # y2" by (meson split_list)
  with Cons.prems(1) have m: "mset xs = mset (y1 @ y2)" by simp
  with Cons have s: "sorted_wrt R (y1 @ y2)" by simp
  have "set xs = set (y1 @ y2)" using m by (metis mset_eq_setD)
  with Cons.prems(2) have "\<forall>y \<in> set (y1 @ y2). R x y" by simp
  with s assms ys show ?case by (auto simp: sorted_wrt_append dest: sympD)
qed

lemma mset_concat_update:
  assumes "i < length xss"
  shows "mset (concat (xss[i := ys])) + mset (xss ! i) = mset (concat xss) + mset ys"
  using assms by (simp add: concat_list_update concat_split_at [of i xss])

lemma find_unique:
  assumes "e \<in> set xs" "P e" "\<forall>x \<in> set xs. P x \<longrightarrow> x = e"
  shows "find P xs = Some e"
proof (cases "find P xs")
  case None
  with assms(1,2) show ?thesis by (auto simp: find_None_iff)
next
  case (Some x)
  then have "x \<in> set xs" "P x" by (auto simp: find_Some_iff)
  with assms(3) Some show ?thesis by blast
qed

lemma option_eqI:
  assumes "\<And>v. a = Some v \<longleftrightarrow> b = Some v"
  shows "a = b"
proof (cases a)
  case None
  then show ?thesis using assms [of "the b"] by (cases b) simp_all
next
  case (Some x)
  then show ?thesis using assms [of x] by simp
qed

lemma sorted_wrt_pairD:
  "sorted_wrt R xs \<Longrightarrow> symp R \<Longrightarrow> x \<in> set xs \<Longrightarrow> y \<in> set xs \<Longrightarrow> x \<noteq> y \<Longrightarrow> R x y"
  by (induction xs) (auto dest: sympD)

lemma set_nth_subset_concat: "i < length xss \<Longrightarrow> set (xss ! i) \<subseteq> set (concat xss)"
  by (metis nth_mem set_concat UN_upper)

lemma in_set_concat_nthE:
  assumes "x \<in> set (concat xss)"
  obtains i where "i < length xss" "x \<in> set (xss ! i)"
  using assms by (metis UN_iff in_set_conv_nth set_concat)

lemma distinct_map_sorted_wrt: "distinct (map f xs) = sorted_wrt (\<lambda>a b. f a \<noteq> f b) xs"
  by (induction xs) auto

lemma set_map_filter: "set (List.map_filter f xs) = {y. \<exists>x \<in> set xs. f x = Some y}"
  by (induction xs) (auto simp: map_filter_simps split: option.splits)

text \<open>\<open>strtol\<close> reads back what \<open>%d\<close> prints.\<close>

lemma char_code_digit [simp]: "k < 10 \<Longrightarrow> char_code (char_of (48 + k)) = 48 + k"
  by (simp add: char_code_def)

lemma digit_val_digit [simp]: "k < 10 \<Longrightarrow> digit_val (char_of (48 + k)) = Some k"
  by (simp add: digit_val_def Let_def)

lemma read_digits_show_nat:
  "read_digits 10 acc (show_nat n @ rest) = read_digits 10 (acc * 10 ^ length (show_nat n) + n) rest"
proof (induction n arbitrary: acc rest rule: show_nat.induct)
  case (1 n)
  show ?case
  proof (cases "n < 10")
    case True
    then show ?thesis by (simp add: show_nat.simps [of n])
  next
    case False
    with 1 [of acc "char_of (48 + n mod 10) # rest"] show ?thesis
      by (simp add: show_nat.simps [of n] algebra_simps)
  qed
qed

lemma show_nat_first: "\<exists>(k::nat) cs. show_nat n = char_of (48 + k) # cs \<and> k < 10 \<and> (k = 0 \<longrightarrow> n = 0 \<and> cs = [])"
proof (induction n rule: show_nat.induct)
  case (1 n)
  show ?case
  proof (cases "n < 10")
    case True
    then show ?thesis by (intro exI [of _ n] exI [of _ "[]"]) (simp add: show_nat.simps [of n])
  next
    case False
    then have "n div 10 \<noteq> 0" by simp
    with 1 [OF False] obtain k :: nat and cs
      where "show_nat (n div 10) = char_of (48 + k) # cs" "k < 10" "k \<noteq> 0" by blast
    with False show ?thesis by (intro exI [of _ k]) (simp add: show_nat.simps [of n])
  qed
qed

lemma show_nat_length: "n < 10 ^ k \<Longrightarrow> 0 < k \<Longrightarrow> length (show_nat n) \<le> k"
proof (induction n arbitrary: k rule: show_nat.induct)
  case (1 n)
  show ?case
  proof (cases "n < 10")
    case True
    with 1 show ?thesis by (simp add: show_nat.simps [of n])
  next
    case False
    with "1.prems" obtain j where k: "k = Suc (Suc j)" by (metis Suc_pred not0_implies_Suc power_one_right One_nat_def)
    with "1.prems" have "n div 10 < 10 ^ Suc j" by (simp add: less_mult_imp_div_less)
    with "1.IH" [OF False, of "Suc j"] False k show ?thesis by (simp add: show_nat.simps [of n])
  qed
qed

lemma strtol_show_nat:
  assumes "n \<le> 2 ^ 31"
  shows "strtol 0 (show_nat n) = (min (2 ^ 31 - 1) (int n), [])" "strtol 0 (CHR ''-'' # show_nat n) = (- int n, [])"
proof -
  let ?s = "show_nat n" and ?b = "if take 1 (show_nat n) = ''0'' then 8 else 10 :: nat"
  obtain k :: nat and cs where k: "?s = char_of (48 + k) # cs" "k < 10" "k = 0 \<longrightarrow> n = 0 \<and> cs = []"
    using show_nat_first by blast
  let ?c = "char_of (48 + k) :: char"
  have code: "char_code ?c = 48 + k" using k(2) by simp
  have cc: "char_code (CHR ''-'') = 45" "char_code (CHR ''+'') = 43" "char_code (CHR ''0'') = 48"
    by (simp_all add: char_code_def)
  have zero: "(char_of (48 + (0::nat)) :: char) = CHR ''0''" by code_simp
  have ne: "?c \<noteq> CHR ''-''" "?c \<noteq> CHR ''+''" "?c = CHR ''0'' \<longleftrightarrow> k = 0" "\<not> isspace ?c"
    using code cc zero k(2) by (fastforce, fastforce, fastforce, simp add: isspace_def)
  have hp: "\<not> hex_prefix 0 ?s" using k ne(3) by (auto simp: hex_prefix_def)
  have sd: "starts_digit ?b ?s" using k ne(3) by (auto simp: starts_digit_def)
  have rd: "read_digits ?b 0 ?s = (n, [])"
    using read_digits_show_nat [of 0 n "[]"] k ne(3) digit_val_digit [of 0] zero by (cases "k = 0") auto
  have hd: "take 1 ?s \<noteq> ''-''" "take 1 ?s \<noteq> ''+''" "dropWhile isspace ?s = ?s" using k(1) ne by auto
  have cl: "clamp_long (int n) = min (2 ^ 31 - 1) (int n)" "clamp_long (- int n) = - int n"
    using assms by (auto simp: clamp_long_def)
  show "strtol 0 ?s = (min (2 ^ 31 - 1) (int n), [])"
    unfolding strtol_def Let_def hd(3) using hd(1,2) hp sd rd cl by simp
  have sp: "dropWhile isspace (CHR ''-'' # ?s) = CHR ''-'' # ?s" by (simp add: isspace_def char_code_def)
  show "strtol 0 (CHR ''-'' # ?s) = (- int n, [])"
    unfolding strtol_def Let_def sp using hp sd rd cl by simp
qed

lemma strtol_show_int: "- (2 ^ 31) \<le> i \<Longrightarrow> i < 2 ^ 31 \<Longrightarrow> strtol 0 (show_int i) = (i, [])"
  using strtol_show_nat(1) [of "nat i"] strtol_show_nat(2) [of "nat (- i)"]
  by (cases "i < 0") (auto simp: show_int_def nat_le_iff)

lemma show_int_length: "- (2 ^ 31) \<le> i \<Longrightarrow> i < 2 ^ 31 \<Longrightarrow> length (show_int i) \<le> 11"
  using show_nat_length [of "nat i" 10] show_nat_length [of "nat (- i)" 10]
  by (cases "i < 0") (auto simp: show_int_def nat_less_iff)

section \<open>Sorting and searching functions of the C library\<close>

type_synonym 'e sort_fn = "('e \<Rightarrow> 'e \<Rightarrow> int) \<Rightarrow> 'e list \<Rightarrow> 'e list"

type_synonym 'e search_fn = "('e \<Rightarrow> 'e \<Rightarrow> int) \<Rightarrow> 'e \<Rightarrow> 'e list \<Rightarrow> nat ptr"

text \<open>What a comparison function must be, and what \<open>qsort\<close> and \<open>bsearch\<close> then promise.\<close>

definition comparator :: "('e \<Rightarrow> 'e \<Rightarrow> int) \<Rightarrow> bool" where
  "comparator cmp \<longleftrightarrow> (\<forall>a b. cmp a b < 0 \<longleftrightarrow> cmp b a > 0) \<and>
     (\<forall>a b c. cmp a b \<le> 0 \<and> cmp b c \<le> 0 \<longrightarrow> cmp a c \<le> 0)"

definition qsort_contract :: "'e sort_fn \<Rightarrow> bool" where
  "qsort_contract qsort \<longleftrightarrow> (\<forall>cmp xs. comparator cmp \<longrightarrow>
     mset (qsort cmp xs) = mset xs \<and> sorted_wrt (\<lambda>a b. cmp a b \<le> 0) (qsort cmp xs))"

definition bsearch_contract :: "'e search_fn \<Rightarrow> bool" where
  "bsearch_contract bsearch \<longleftrightarrow> (\<forall>cmp key xs. comparator cmp \<and> sorted_wrt (\<lambda>a b. cmp a b \<le> 0) xs \<longrightarrow>
     (case bsearch cmp key xs of
        None \<Rightarrow> \<forall>x \<in> set xs. cmp key x \<noteq> 0
      | Some i \<Rightarrow> i < length xs \<and> cmp key (xs ! i) = 0))"

text \<open>Functions that satisfy the contracts: insertion sort and a linear search.\<close>

fun insert_by :: "('e \<Rightarrow> 'e \<Rightarrow> int) \<Rightarrow> 'e \<Rightarrow> 'e list \<Rightarrow> 'e list" where
  "insert_by cmp x [] = [x]"
| "insert_by cmp x (y # ys) = (if cmp x y \<le> 0 then x # y # ys else y # insert_by cmp x ys)"

definition insertion_sort :: "'e sort_fn" where
  "insertion_sort cmp xs = foldr (insert_by cmp) xs []"

fun linear_search :: "('e \<Rightarrow> 'e \<Rightarrow> int) \<Rightarrow> 'e \<Rightarrow> 'e list \<Rightarrow> nat ptr" where
  "linear_search cmp key [] = NULL"
| "linear_search cmp key (x # xs) = (if cmp key x = 0 then Some 0 else map_option Suc (linear_search cmp key xs))"

lemma mset_insert_by [simp]: "mset (insert_by cmp x ys) = add_mset x (mset ys)"
  by (induction ys) auto

lemma set_insert_by [simp]: "set (insert_by cmp x ys) = insert x (set ys)"
  by (induction ys) auto

lemma sorted_insert_by:
  assumes "comparator cmp" "sorted_wrt (\<lambda>a b. cmp a b \<le> 0) ys"
  shows "sorted_wrt (\<lambda>a b. cmp a b \<le> 0) (insert_by cmp x ys)"
  using assms(2)
proof (induction ys)
  case Nil
  then show ?case by simp
next
  case (Cons y ys)
  have "cmp y x < 0 \<longleftrightarrow> cmp x y > 0" using assms(1) unfolding comparator_def by blast
  then have tot: "\<not> cmp x y \<le> 0 \<Longrightarrow> cmp y x \<le> 0" by linarith
  have trans: "cmp x y \<le> 0 \<Longrightarrow> cmp y z \<le> 0 \<Longrightarrow> cmp x z \<le> 0" for z using assms(1) unfolding comparator_def by blast
  from Cons tot trans show ?case by (cases "cmp x y \<le> 0") simp_all
qed

lemma insertion_sort_contract: "qsort_contract insertion_sort"
proof -
  have "mset (foldr (insert_by cmp) xs []) = mset xs \<and>
      (comparator cmp \<longrightarrow> sorted_wrt (\<lambda>a b. cmp a b \<le> 0) (foldr (insert_by cmp) xs []))" for cmp and xs :: "'a list"
    by (induction xs) (auto simp: sorted_insert_by)
  then show ?thesis by (simp add: qsort_contract_def insertion_sort_def)
qed

lemma linear_search_contract: "bsearch_contract linear_search"
proof -
  have "case linear_search cmp key xs of None \<Rightarrow> \<forall>x \<in> set xs. cmp key x \<noteq> 0
      | Some i \<Rightarrow> i < length xs \<and> cmp key (xs ! i) = 0" for cmp key and xs :: "'a list"
    by (induction xs) (auto split: option.splits)
  then show ?thesis by (simp add: bsearch_contract_def)
qed

lemma strtok_shorter: "strtok d s = Some (tok, rest) \<Longrightarrow> length rest < length s"
proof -
  assume a: "strtok d s = Some (tok, rest)"
  let ?s = "dropWhile (\<lambda>c. c = d) s"
  from a have ne: "?s \<noteq> []" and r: "rest = tl (dropWhile (\<lambda>c. c \<noteq> d) ?s)"
    by (auto simp: strtok_def Let_def split: if_splits)
  have "hd ?s \<noteq> d" using hd_dropWhile [OF ne] by simp
  with ne obtain c cs where c: "?s = c # cs" "c \<noteq> d" by (cases ?s) auto
  have "length rest \<le> length cs"
    unfolding r c(1) using c(2) length_dropWhile_le [of "\<lambda>c. c \<noteq> d" cs] by simp
  then have "length rest < length ?s" unfolding c(1) by simp
  with length_dropWhile_le [of "\<lambda>c. c = d" s] show ?thesis by simp
qed

end
