(* ===== verification/Map_Interface.thy ===== *)
theory Map_Interface
  imports C_Prelude
begin

text \<open>
  The contract a client of a lookup table relies on: what a lookup returns after an insertion
  and after a deletion, and that enumerating the table lists exactly what lookups see. The
  insertion takes an argument \<open>'o\<close> for choices of the environment (whether an optional
  allocation succeeds) that must not matter to the client. The lemmas below are proved once,
  for every provider.
\<close>

locale map_provider =
  fixes inv :: "'m \<Rightarrow> bool"
    and get :: "'m \<Rightarrow> 'k \<Rightarrow> 'v option"
    and put :: "'o \<Rightarrow> 'm \<Rightarrow> 'k \<Rightarrow> 'v \<Rightarrow> 'm"
    and delete :: "'m \<Rightarrow> 'k \<Rightarrow> 'm"
    and elems :: "'m \<Rightarrow> ('k \<times> 'v) list"
  assumes inv_put: "inv m \<Longrightarrow> inv (put env m k v)"
    and get_put: "inv m \<Longrightarrow> get (put env m k v) = (get m)(k \<mapsto> v)"
    and inv_delete: "inv m \<Longrightarrow> inv (delete m k)"
    and get_delete: "inv m \<Longrightarrow> get (delete m k) = (get m)(k := None)"
    and map_of_elems: "inv m \<Longrightarrow> map_of (elems m) = get m"
begin

lemma fold_put:
  assumes "inv m"
  shows "inv (fold (\<lambda>(env, k, v) m. put env m k v) xs m) \<and>
         get (fold (\<lambda>(env, k, v) m. put env m k v) xs m) = get m ++ map_of (rev (map snd xs))"
  using assms
proof (induction xs arbitrary: m)
  case Nil
  then show ?case by simp
next
  case (Cons x xs)
  obtain env k v where x: "x = (env, k, v)" by (cases x) auto
  with Cons.IH [of "put env m k v"] Cons.prems inv_put get_put show ?case
    by (simp add: map_add_def fun_eq_iff split: option.splits)
qed

lemma fold_delete:
  assumes "inv m"
  shows "inv (fold (\<lambda>k m. delete m k) ks m) \<and>
         get (fold (\<lambda>k m. delete m k) ks m) = get m |` (- set ks)"
  using assms
proof (induction ks arbitrary: m)
  case Nil
  then show ?case by simp
next
  case (Cons k ks)
  then show ?case
    using inv_delete get_delete
    by (auto simp: restrict_map_def fun_eq_iff)
qed

text \<open>Copying a table pair by pair into an empty one loses nothing.\<close>

lemma rebuild:
  assumes "inv m" "inv m0" "get m0 = Map.empty" "map snd xs = elems m" "distinct (map fst (elems m))"
  shows "get (fold (\<lambda>(env, k, v) m. put env m k v) xs m0) = get m"
proof -
  have "map_of (rev (elems m)) = map_of (elems m)"
    using assms(5) by (intro iffD2 [OF map_of_inject_set]) (simp_all flip: rev_map)
  with fold_put [OF assms(2), of xs] assms(1,3,4) map_of_elems show ?thesis by simp
qed

end

end
