(* ===== verification/Hashmap.thy ===== *)
theory Hashmap
  imports Map_Interface
begin

text \<open>
  \<^verbatim>\<open>core/libcutils/hashmap.c\<close>: a chained hash table with a power-of-two number of
  buckets that doubles when its load exceeds 0.75. A chain of \<open>Entry\<close> nodes is the list
  of its nodes in link order; keys are the pointers the table stores (compared first by
  identity, then by the caller's \<open>equals\<close>); values are pointers and may be NULL. Whether
  an allocation succeeds is an argument of the operations that allocate. The mutex is the
  flag \<open>lock_held\<close>.
\<close>

section \<open>Data and operations\<close>

record ('k, 'v) Entry =
  ekey :: 'k
  ehash :: u32
  evalue :: "'v ptr"

record ('k, 'v) Hashmap =
  buckets :: "('k, 'v) Entry list list"
  bucketCount :: u32
  hash_fn :: "'k \<Rightarrow> u32"
  equals_fn :: "'k \<Rightarrow> 'k \<Rightarrow> bool"
  lock_held :: bool
  map_size :: u32

datatype errno = ENOMEM | EINVAL | ENOENT | EOVERFLOW | EIO

text \<open>\<open>hashmapCreate\<close>: the loop that picks the bucket count, then the allocation.\<close>

partial_function (option) grow_bucketCount :: "u32 \<Rightarrow> u32 \<Rightarrow> u32 option" where
  "grow_bucketCount minimumBucketCount bc =
     (if bc \<le> minimumBucketCount
      then grow_bucketCount minimumBucketCount (push_bit 1 bc) else Some bc)"

definition minimumBucketCount :: "u32 \<Rightarrow> u32" where
  "minimumBucketCount initialCapacity = initialCapacity * 4 div 3"

definition hashmapCreate ::
  "bool \<Rightarrow> bool \<Rightarrow> u32 \<Rightarrow> ('k \<Rightarrow> u32) \<Rightarrow> ('k \<Rightarrow> 'k \<Rightarrow> bool) \<Rightarrow> ('k, 'v) Hashmap ptr" where
  "hashmapCreate malloc_map malloc_buckets initialCapacity hash equals =
     (if \<not> malloc_map then NULL
      else case grow_bucketCount (minimumBucketCount initialCapacity) 1 of
        None \<Rightarrow> NULL
      | Some bc \<Rightarrow>
          if \<not> calloc_ok malloc_buckets (unat bc) 4 then NULL
          else Some \<lparr>buckets = replicate (unat bc) [], bucketCount = bc, hash_fn = hash,
                     equals_fn = equals, lock_held = False, map_size = 0\<rparr>)"

definition hashKey :: "('k, 'v) Hashmap \<Rightarrow> 'k \<Rightarrow> u32" where
  "hashKey m key =
     (let h = hash_fn m key;
          h = h + NOT (push_bit 9 h);
          h = h XOR drop_bit 14 h;
          h = h + push_bit 4 h
      in h XOR drop_bit 10 h)"

definition hashmapSize :: "('k, 'v) Hashmap \<Rightarrow> u32" where
  "hashmapSize m = map_size m"

definition calculateIndex :: "u32 \<Rightarrow> u32 \<Rightarrow> nat" where
  "calculateIndex bc hash = unat (hash AND (bc - 1))"

fun move_chain ::
  "u32 \<Rightarrow> ('k, 'v) Entry list \<Rightarrow> ('k, 'v) Entry list list \<Rightarrow> ('k, 'v) Entry list list" where
  "move_chain newBucketCount [] newBuckets = newBuckets"
| "move_chain newBucketCount (entry # rest) newBuckets =
     (let index = calculateIndex newBucketCount (ehash entry)
      in move_chain newBucketCount rest (newBuckets[index := entry # (newBuckets ! index)]))"

definition expandIfNecessary :: "bool \<Rightarrow> ('k, 'v) Hashmap \<Rightarrow> ('k, 'v) Hashmap" where
  "expandIfNecessary malloc_buckets m =
     (if map_size m > bucketCount m * 3 div 4
      then (let newBucketCount = push_bit 1 (bucketCount m)
            in if \<not> calloc_ok malloc_buckets (unat newBucketCount) 4 then m
               else m\<lparr>buckets := fold (move_chain newBucketCount) (buckets m)
                                    (replicate (unat newBucketCount) []),
                      bucketCount := newBucketCount\<rparr>)
      else m)"

text \<open>Locking a held mutex blocks the caller: no successor state.\<close>

definition hashmapLock :: "('k, 'v) Hashmap \<Rightarrow> ('k, 'v) Hashmap option" where
  "hashmapLock m = (if lock_held m then None else Some (m\<lparr>lock_held := True\<rparr>))"

definition hashmapUnlock :: "('k, 'v) Hashmap \<Rightarrow> ('k, 'v) Hashmap" where
  "hashmapUnlock m = m\<lparr>lock_held := False\<rparr>"

text \<open>\<open>hashmapFree\<close>: the nodes it hands to \<open>free\<close>, in order.\<close>

definition hashmapFree :: "('k, 'v) Hashmap \<Rightarrow> ('k, 'v) Entry list" where
  "hashmapFree m = concat (buckets m)"

text \<open>\<open>hashmapHash\<close> over the bytes of a key; plain \<open>char\<close> is unsigned on ARM.\<close>

definition hashmapHash :: "u8 list \<Rightarrow> u32 \<Rightarrow> u32" where
  "hashmapHash data keySize = fold (\<lambda>b h. h * 31 + ucast b) (take (unat keySize) data) keySize"

definition equalKeys :: "'k \<Rightarrow> u32 \<Rightarrow> 'k \<Rightarrow> u32 \<Rightarrow> ('k \<Rightarrow> 'k \<Rightarrow> bool) \<Rightarrow> bool" where
  "equalKeys keyA hashA keyB hashB equals =
     (if keyA = keyB then True else if hashA \<noteq> hashB then False else equals keyA keyB)"

text \<open>
  The walk along a chain: the first node whose key equals the given one, split off with
  what precedes and follows it.
\<close>

fun chain_find ::
  "('k \<Rightarrow> 'k \<Rightarrow> bool) \<Rightarrow> 'k \<Rightarrow> u32 \<Rightarrow> ('k, 'v) Entry list
    \<Rightarrow> (('k, 'v) Entry list \<times> ('k, 'v) Entry \<times> ('k, 'v) Entry list) option" where
  "chain_find equals key hash [] = None"
| "chain_find equals key hash (current # rest) =
     (if equalKeys (ekey current) (ehash current) key hash equals then Some ([], current, rest)
      else case chain_find equals key hash rest of
             None \<Rightarrow> None
           | Some (before, e, after) \<Rightarrow> Some (current # before, e, after))"

definition createEntry :: "bool \<Rightarrow> 'k \<Rightarrow> u32 \<Rightarrow> 'v ptr \<Rightarrow> ('k, 'v) Entry ptr" where
  "createEntry malloc_entry key hash val =
     (if \<not> malloc_entry then NULL else Some \<lparr>ekey = key, ehash = hash, evalue = val\<rparr>)"

text \<open>Each operation returns the value the C function returns, the errno it sets and the table.\<close>

definition hashmapPut ::
  "bool \<Rightarrow> bool \<Rightarrow> ('k, 'v) Hashmap \<Rightarrow> 'k \<Rightarrow> 'v ptr \<Rightarrow> 'v ptr \<times> errno option \<times> ('k, 'v) Hashmap" where
  "hashmapPut malloc_entry malloc_buckets m key val =
     (let hash = hashKey m key;
          index = calculateIndex (bucketCount m) hash
      in case chain_find (equals_fn m) key hash (buckets m ! index) of
           None \<Rightarrow>
             (case createEntry malloc_entry key hash val of
                None \<Rightarrow> (NULL, Some ENOMEM, m)
              | Some e \<Rightarrow>
                  (NULL, None,
                   expandIfNecessary malloc_buckets
                     (m\<lparr>buckets := (buckets m)[index := (buckets m ! index) @ [e]],
                        map_size := map_size m + 1\<rparr>)))
         | Some (before, current, after) \<Rightarrow>
             (evalue current, None,
              m\<lparr>buckets := (buckets m)[index := before @ current\<lparr>evalue := val\<rparr> # after]\<rparr>))"

definition hashmapGet :: "('k, 'v) Hashmap \<Rightarrow> 'k \<Rightarrow> 'v ptr" where
  "hashmapGet m key =
     (let hash = hashKey m key;
          index = calculateIndex (bucketCount m) hash
      in case chain_find (equals_fn m) key hash (buckets m ! index) of
           None \<Rightarrow> NULL
         | Some (_, entry, _) \<Rightarrow> evalue entry)"

definition hashmapContainsKey :: "('k, 'v) Hashmap \<Rightarrow> 'k \<Rightarrow> bool" where
  "hashmapContainsKey m key =
     (let hash = hashKey m key;
          index = calculateIndex (bucketCount m) hash
      in case chain_find (equals_fn m) key hash (buckets m ! index) of
           None \<Rightarrow> False
         | Some _ \<Rightarrow> True)"

definition hashmapMemoize ::
  "bool \<Rightarrow> bool \<Rightarrow> ('k, 'v) Hashmap \<Rightarrow> 'k \<Rightarrow> ('k \<Rightarrow> 'c \<Rightarrow> 'v ptr) \<Rightarrow> 'c
    \<Rightarrow> 'v ptr \<times> errno option \<times> ('k, 'v) Hashmap" where
  "hashmapMemoize malloc_entry malloc_buckets m key initialValue context =
     (let hash = hashKey m key;
          index = calculateIndex (bucketCount m) hash
      in case chain_find (equals_fn m) key hash (buckets m ! index) of
           None \<Rightarrow>
             (case createEntry malloc_entry key hash NULL of
                None \<Rightarrow> (NULL, Some ENOMEM, m)
              | Some e \<Rightarrow>
                  (let val = initialValue key context
                   in (val, None,
                       expandIfNecessary malloc_buckets
                         (m\<lparr>buckets := (buckets m)[index := (buckets m ! index) @ [e\<lparr>evalue := val\<rparr>]],
                            map_size := map_size m + 1\<rparr>))))
         | Some (before, current, after) \<Rightarrow> (evalue current, None, m))"

definition hashmapRemove :: "('k, 'v) Hashmap \<Rightarrow> 'k \<Rightarrow> 'v ptr \<times> ('k, 'v) Hashmap" where
  "hashmapRemove m key =
     (let hash = hashKey m key;
          index = calculateIndex (bucketCount m) hash
      in case chain_find (equals_fn m) key hash (buckets m ! index) of
           None \<Rightarrow> (NULL, m)
         | Some (before, current, after) \<Rightarrow>
             (evalue current,
              m\<lparr>buckets := (buckets m)[index := before @ after], map_size := map_size m - 1\<rparr>))"

text \<open>
  \<open>hashmapForEach\<close>: the context \<open>s\<close> is whatever the callback reads and writes, the
  table itself included (\<open>get_map\<close>). The loop saves \<open>next\<close> before each callback, so a
  callback may unlink the node it was given; a bucket's chain is read when its turn comes.
\<close>

fun forEach_chain ::
  "('k \<Rightarrow> 'v ptr \<Rightarrow> 's \<Rightarrow> bool \<times> 's) \<Rightarrow> ('k, 'v) Entry list \<Rightarrow> 's \<Rightarrow> bool \<times> 's" where
  "forEach_chain callback [] s = (True, s)"
| "forEach_chain callback (entry # rest) s =
     (case callback (ekey entry) (evalue entry) s of
        (True, s') \<Rightarrow> forEach_chain callback rest s'
      | (False, s') \<Rightarrow> (False, s'))"

fun forEach_buckets ::
  "('s \<Rightarrow> ('k, 'v) Hashmap) \<Rightarrow> ('k \<Rightarrow> 'v ptr \<Rightarrow> 's \<Rightarrow> bool \<times> 's) \<Rightarrow> nat list \<Rightarrow> 's \<Rightarrow> 's" where
  "forEach_buckets get_map callback [] s = s"
| "forEach_buckets get_map callback (i # is) s =
     (case forEach_chain callback (buckets (get_map s) ! i) s of
        (True, s') \<Rightarrow> forEach_buckets get_map callback is s'
      | (False, s') \<Rightarrow> s')"

definition hashmapForEach ::
  "('s \<Rightarrow> ('k, 'v) Hashmap) \<Rightarrow> ('k \<Rightarrow> 'v ptr \<Rightarrow> 's \<Rightarrow> bool \<times> 's) \<Rightarrow> 's \<Rightarrow> 's" where
  "hashmapForEach get_map callback s =
     forEach_buckets get_map callback [0..<unat (bucketCount (get_map s))] s"

definition hashmapCurrentCapacity :: "('k, 'v) Hashmap \<Rightarrow> u32" where
  "hashmapCurrentCapacity m = bucketCount m * 3 div 4"

fun chain_collisions :: "('k, 'v) Entry list \<Rightarrow> nat" where
  "chain_collisions [] = 0"
| "chain_collisions (entry # rest) = (if rest \<noteq> [] then 1 else 0) + chain_collisions rest"

definition hashmapCountCollisions :: "('k, 'v) Hashmap \<Rightarrow> nat" where
  "hashmapCountCollisions m = (\<Sum>chain \<leftarrow> buckets m. chain_collisions chain)"

text \<open>Keys that point to ints: the key is the value it points to.\<close>

definition hashmapIntHash :: "u32 \<Rightarrow> u32" where
  "hashmapIntHash key = key"

definition hashmapIntEquals :: "u32 \<Rightarrow> u32 \<Rightarrow> bool" where
  "hashmapIntEquals keyA keyB \<longleftrightarrow> keyA = keyB"

section \<open>Well-formed tables and the map they stand for\<close>

definition distinct_keys :: "('k \<Rightarrow> 'k \<Rightarrow> bool) \<Rightarrow> ('k, 'v) Entry list \<Rightarrow> bool" where
  "distinct_keys equals = sorted_wrt (\<lambda>a b. \<not> equals (ekey a) (ekey b))"

definition placed :: "u32 \<Rightarrow> ('k, 'v) Entry list list \<Rightarrow> bool" where
  "placed bc bs \<longleftrightarrow>
     (\<forall>i < length bs. \<forall>e \<in> set (bs ! i). calculateIndex bc (ehash e) = i)"

definition wf_hashmap :: "('k, 'v) Hashmap \<Rightarrow> bool" where
  "wf_hashmap m \<longleftrightarrow>
     (\<exists>n \<le> 29. bucketCount m = 2 ^ n) \<and>
     length (buckets m) = unat (bucketCount m) \<and>
     placed (bucketCount m) (buckets m) \<and>
     (\<forall>e \<in> set (concat (buckets m)). ehash e = hashKey m (ekey e)) \<and>
     distinct_keys (equals_fn m) (concat (buckets m)) \<and>
     map_size m = of_nat (length (concat (buckets m)))"

text \<open>
  The abstract value: which keys have an entry, and its value pointer. This is the
  specification the operations are measured against.
\<close>

definition abs_map :: "('k, 'v) Hashmap \<Rightarrow> 'k \<Rightarrow> 'v ptr option" where
  "abs_map m k = map_option evalue (find (\<lambda>e. equals_fn m (ekey e) k) (concat (buckets m)))"

text \<open>The invariant a caller with the key functions \<open>hash\<close> and \<open>equals\<close> relies on.\<close>

definition hashmap_inv ::
  "('k \<Rightarrow> u32) \<Rightarrow> ('k \<Rightarrow> 'k \<Rightarrow> bool) \<Rightarrow> ('k, 'v) Hashmap \<Rightarrow> bool" where
  "hashmap_inv hash equals m \<longleftrightarrow> wf_hashmap m \<and> hash_fn m = hash \<and> equals_fn m = equals"

text \<open>The pairs of key and value a table holds, NULL values left out.\<close>

definition table_pairs :: "('k, 'v) Hashmap \<Rightarrow> ('k \<times> 'v) list" where
  "table_pairs m = List.map_filter (\<lambda>e. map_option (Pair (ekey e)) (evalue e)) (concat (buckets m))"

section \<open>Chains\<close>

lemma chain_find_None_iff:
  "chain_find equals k h es = None \<longleftrightarrow> (\<forall>e \<in> set es. \<not> equalKeys (ekey e) (ehash e) k h equals)"
  by (induction es) (auto split: option.splits)

lemma chain_find_SomeD:
  "chain_find equals k h es = Some (b, e, a) \<Longrightarrow>
     es = b @ e # a \<and> equalKeys (ekey e) (ehash e) k h equals"
  by (induction es arbitrary: b) (auto split: if_splits option.splits)

lemma calculateIndex_less:
  "n < 32 \<Longrightarrow> calculateIndex (2 ^ n) h < unat ((2::u32) ^ n)"
  unfolding calculateIndex_def by (simp add: word_and_mask_less)

lemma move_chain_length [simp]: "length (move_chain n es nb) = length nb"
  by (induction es arbitrary: nb) (simp_all add: Let_def)

lemma move_chain_placed:
  assumes "\<And>h. calculateIndex n h < length nb"
  shows "placed n nb \<Longrightarrow> placed n (move_chain n es nb)"
  using assms
proof (induction es arbitrary: nb)
  case Nil
  then show ?case by simp
next
  case (Cons e es)
  from Cons.prems have "placed n (nb[calculateIndex n (ehash e) := e # nb ! calculateIndex n (ehash e)])"
    by (auto simp: placed_def nth_list_update)
  with Cons show ?case by (simp add: Let_def)
qed

lemma move_chain_mset:
  assumes "\<And>h. calculateIndex n h < length nb"
  shows "mset (concat (move_chain n es nb)) = mset es + mset (concat nb)"
  using assms
proof (induction es arbitrary: nb)
  case Nil
  then show ?case by simp
next
  case (Cons e es)
  let ?i = "calculateIndex n (ehash e)"
  have "mset (concat (nb[?i := e # nb ! ?i])) = add_mset e (mset (concat nb))"
    using mset_concat_update [of ?i nb "e # nb ! ?i"] Cons.prems by simp
  with Cons show ?case by (simp add: Let_def)
qed

lemma move_chains_invariant:
  assumes "\<And>h. calculateIndex n h < length nb"
  shows "length (fold (move_chain n) bs nb) = length nb \<and>
    (placed n nb \<longrightarrow> placed n (fold (move_chain n) bs nb)) \<and>
    mset (concat (fold (move_chain n) bs nb)) = mset (concat bs) + mset (concat nb)"
  using assms
proof (induction bs arbitrary: nb)
  case Nil
  then show ?case by simp
next
  case (Cons c bs)
  then show ?case by (simp add: move_chain_placed move_chain_mset)
qed

section \<open>Creation and growth\<close>

lemma grow_bucketCount_returns:
  assumes "k \<le> 31" and "mn < 2 ^ 31"
  shows "\<exists>j. k \<le> j \<and> j \<le> 31 \<and> grow_bucketCount mn (2 ^ k) = Some (2 ^ j) \<and> mn < 2 ^ j \<and>
           (k < j \<longrightarrow> 2 ^ (j - 1) \<le> mn)"
  using assms
proof (induction "31 - k" arbitrary: k)
  case 0
  then have "k = 31" by simp
  with 0 show ?case
    by (subst grow_bucketCount.simps) auto
next
  case (Suc d)
  show ?case
  proof (cases "(2::u32) ^ k \<le> mn")
    case True
    have "d = 31 - Suc k" "Suc k \<le> 31" using Suc.hyps(2) by arith+
    then obtain j where j: "Suc k \<le> j" "j \<le> 31" "grow_bucketCount mn (2 ^ Suc k) = Some (2 ^ j)"
        "mn < 2 ^ j" "Suc k < j \<longrightarrow> 2 ^ (j - 1) \<le> mn"
      using Suc.hyps(1) [of "Suc k"] Suc.prems(2) by blast
    have "grow_bucketCount mn (2 ^ k) = Some (2 ^ j)"
      using True j(3) by (subst grow_bucketCount.simps) (simp add: push_bit_eq_mult mult.commute)
    moreover have "2 ^ (j - 1) \<le> mn"
      using True j(1,5) by (cases "j = Suc k") auto
    ultimately show ?thesis using j by (intro exI [of _ j]) auto
  next
    case False
    then show ?thesis
      using Suc.prems by (intro exI [of _ k], subst grow_bucketCount.simps) auto
  qed
qed

lemma minimumBucketCount_bound: "minimumBucketCount c < 2 ^ 31"
proof -
  have "unat (c * 4 div 3) = unat (c * 4) div 3" by (simp add: unat_div)
  also have "\<dots> < 2 ^ 31" using unsigned_less [of "c * 4", where 'a = nat] by simp
  finally show ?thesis by (simp add: minimumBucketCount_def word_less_nat_alt)
qed

lemma calloc_ok_power: "j < 32 \<Longrightarrow> calloc_ok g (unat ((2::u32) ^ j)) 4 \<longleftrightarrow> g \<and> j \<le> 29"
proof -
  assume "j < 32"
  have "(2::nat) ^ j * 4 = 2 ^ (j + 2)" by (simp add: power_add)
  then have "(2::nat) ^ j * 4 < 2 ^ 32 \<longleftrightarrow> j + 2 < 32"
    using power_strict_increasing_iff [of "2::nat" "j + 2" 32] by simp
  with \<open>j < 32\<close> show ?thesis by (auto simp: calloc_ok_def)
qed

lemma hashmapCreate_SomeD:
  assumes "hashmapCreate a b c hash equals = Some m"
  shows "\<exists>j \<le> 29. m = \<lparr>buckets = replicate (2 ^ j) [], bucketCount = 2 ^ j, hash_fn = hash,
           equals_fn = equals, lock_held = False, map_size = 0\<rparr> \<and> minimumBucketCount c < 2 ^ j"
proof -
  obtain j where j: "j \<le> 31" "grow_bucketCount (minimumBucketCount c) 1 = Some (2 ^ j)"
      "minimumBucketCount c < 2 ^ j"
    using grow_bucketCount_returns [of 0 "minimumBucketCount c"] minimumBucketCount_bound by auto
  with assms have "j \<le> 29"
    using calloc_ok_power [of j b] by (auto simp: hashmapCreate_def split: if_splits)
  with assms j show ?thesis
    by (intro exI [of _ j]) (auto simp: hashmapCreate_def split: if_splits)
qed

lemma placed_empty: "placed n (replicate k [])"
  by (simp add: placed_def)

lemma hashKey_update [simp]:
  "hashKey (m\<lparr>buckets := bs\<rparr>) = hashKey m"
  "hashKey (m\<lparr>bucketCount := bc\<rparr>) = hashKey m"
  "hashKey (m\<lparr>map_size := sz\<rparr>) = hashKey m"
  by (simp_all add: hashKey_def fun_eq_iff)

lemma wf_hashmapI:
  assumes "n \<le> 29" "bucketCount m = 2 ^ n" "length (buckets m) = unat (bucketCount m)"
    "placed (bucketCount m) (buckets m)"
    "\<And>e. e \<in> set (concat (buckets m)) \<Longrightarrow> ehash e = hashKey m (ekey e)"
    "distinct_keys (equals_fn m) (concat (buckets m))"
    "map_size m = of_nat (length (concat (buckets m)))"
  shows "wf_hashmap m"
  unfolding wf_hashmap_def using assms by (intro conjI ballI exI [of _ n]) simp_all

lemma wf_hashmapD:
  assumes "wf_hashmap m"
  shows "length (buckets m) = unat (bucketCount m)" "placed (bucketCount m) (buckets m)"
    "\<And>e. e \<in> set (concat (buckets m)) \<Longrightarrow> ehash e = hashKey m (ekey e)"
    "distinct_keys (equals_fn m) (concat (buckets m))"
    "map_size m = of_nat (length (concat (buckets m)))"
    "\<exists>n \<le> 29. bucketCount m = 2 ^ n"
  using assms by (simp_all only: wf_hashmap_def)

lemma hashmapCreate_wf [inv_intro]:
  assumes "hashmapCreate a b c hash equals = Some m"
  shows "wf_hashmap m"
proof -
  from assms obtain j where "j \<le> 29" and m: "m = \<lparr>buckets = replicate (2 ^ j) [],
      bucketCount = 2 ^ j, hash_fn = hash, equals_fn = equals, lock_held = False, map_size = 0\<rparr>"
    using hashmapCreate_SomeD by blast
  then show ?thesis
    unfolding m by (intro wf_hashmapI [of j]) (simp_all add: placed_empty distinct_keys_def)
qed

lemma expand_unchanged:
  "hash_fn (expandIfNecessary g m) = hash_fn m \<and> equals_fn (expandIfNecessary g m) = equals_fn m \<and>
   map_size (expandIfNecessary g m) = map_size m \<and> lock_held (expandIfNecessary g m) = lock_held m"
  by (simp add: expandIfNecessary_def Let_def)

lemma expand_mset_wf:
  assumes wf: "wf_hashmap m" and sym: "symp (equals_fn m)"
  shows "mset (concat (buckets (expandIfNecessary g m))) = mset (concat (buckets m)) \<and>
         wf_hashmap (expandIfNecessary g m)"
proof (cases "map_size m > bucketCount m * 3 div 4 \<and>
    calloc_ok g (unat (push_bit 1 (bucketCount m))) 4")
  case False
  then have "expandIfNecessary g m = m" by (auto simp: expandIfNecessary_def Let_def)
  with wf show ?thesis by simp
next
  case True
  from wf obtain n where n: "n \<le> 29" "bucketCount m = 2 ^ n" by (auto simp: wf_hashmap_def)
  let ?bc = "(2::u32) ^ Suc n"
  let ?nb = "fold (move_chain ?bc) (buckets m) (replicate (unat ?bc) [])"
  have bc: "push_bit 1 (bucketCount m) = ?bc"
    using n by (simp add: push_bit_eq_mult mult.commute)
  have ex: "expandIfNecessary g m = m\<lparr>buckets := ?nb, bucketCount := ?bc\<rparr>"
    using True unfolding expandIfNecessary_def Let_def bc by simp
  have "calloc_ok g (unat ?bc) 4" using True unfolding bc by blast
  then have "Suc n \<le> 29" using calloc_ok_power [of "Suc n" g] n(1) by (simp del: power_Suc)
  have len: "\<And>h. calculateIndex ?bc h < length (replicate (unat ?bc) ([] :: ('a, 'b) Entry list))"
    using calculateIndex_less [of "Suc n"] \<open>Suc n \<le> 29\<close> by simp
  note inv = move_chains_invariant [OF len, of "buckets m"]
  have ms: "mset (concat ?nb) = mset (concat (buckets m))" using inv by simp
  then have st: "set (concat ?nb) = set (concat (buckets m))"
    and ln: "length (concat ?nb) = length (concat (buckets m))"
    by (metis mset_eq_setD, metis mset_eq_length)
  have sy: "symp (\<lambda>a b. \<not> equals_fn m (ekey a) (ekey b))"
    using sym by (auto simp: symp_def)
  have "sorted_wrt (\<lambda>a b. \<not> equals_fn m (ekey a) (ekey b)) (concat (buckets m))"
    using wf by (simp add: wf_hashmap_def distinct_keys_def)
  from sorted_wrt_mset [OF sy ms [symmetric] this]
  have "distinct_keys (equals_fn m) (concat ?nb)" by (simp add: distinct_keys_def)
  moreover have "placed ?bc ?nb" "length ?nb = unat ?bc"
    using inv by (simp_all only: placed_empty length_replicate)
  ultimately have "wf_hashmap (m\<lparr>buckets := ?nb, bucketCount := ?bc\<rparr>)"
    using \<open>Suc n \<le> 29\<close> wf_hashmapD [OF wf] st ln
    by (intro wf_hashmapI [of "Suc n"]) (simp_all del: set_concat length_concat power_Suc)
  then show ?thesis using ms unfolding ex by simp
qed

section \<open>The contract of the key functions, and the table over it\<close>

text \<open>
  The table works for callers whose \<open>equals\<close> is an equivalence that \<open>hash\<close> respects.
  Everything below holds for every such pair; the pairs of the sources are interpreted at the
  end of this theory and in \<open>Str_Parms\<close>.
\<close>

locale key_ops =
  fixes hash :: "'k \<Rightarrow> u32" and equals :: "'k \<Rightarrow> 'k \<Rightarrow> bool"
  assumes equals_refl [simp]: "equals a a"
    and equals_sym: "equals a b \<Longrightarrow> equals b a"
    and equals_trans: "equals a b \<Longrightarrow> equals b c \<Longrightarrow> equals a c"
    and equals_hash: "equals a b \<Longrightarrow> hash a = hash b"
begin

lemma symp_equals: "symp equals"
  using equals_sym by (auto simp: symp_def)

lemma hashKey_equals: "hash_fn m = hash \<Longrightarrow> equals a b \<Longrightarrow> hashKey m a = hashKey m b"
  using equals_hash [of a b] by (simp add: hashKey_def)

lemma match_iff:
  assumes "wf_hashmap m" "hash_fn m = hash" "equals_fn m = equals" "e \<in> set (concat (buckets m))"
  shows "equalKeys (ekey e) (ehash e) k (hashKey m k) equals \<longleftrightarrow> equals (ekey e) k"
  using hashKey_equals [OF assms(2), of "ekey e" k] wf_hashmapD(3) [OF assms(1,4)]
  by (auto simp: equalKeys_def)

lemma keys_unique:
  assumes "wf_hashmap m" "equals_fn m = equals"
    and "e \<in> set (concat (buckets m))" "e' \<in> set (concat (buckets m))" "equals (ekey e) (ekey e')"
  shows "e = e'"
proof (rule ccontr)
  assume "e \<noteq> e'"
  have "symp (\<lambda>a b. \<not> equals (ekey a) (ekey b))"
    using symp_equals by (auto simp: symp_def)
  with sorted_wrt_pairD [OF _ this assms(3,4) \<open>e \<noteq> e'\<close>] wf_hashmapD(4) [OF assms(1)]
  show False using assms(2,5) by (simp add: distinct_keys_def)
qed

lemma abs_map_Some_iff:
  assumes "wf_hashmap m" "equals_fn m = equals"
  shows "abs_map m k = Some v \<longleftrightarrow>
           (\<exists>e \<in> set (concat (buckets m)). equals (ekey e) k \<and> evalue e = v)"
proof
  assume "abs_map m k = Some v"
  then obtain e where "find (\<lambda>e. equals (ekey e) k) (concat (buckets m)) = Some e" "evalue e = v"
    using assms(2) by (auto simp: abs_map_def)
  then show "\<exists>e \<in> set (concat (buckets m)). equals (ekey e) k \<and> evalue e = v"
    by (metis find_Some_iff nth_mem)
next
  assume "\<exists>e \<in> set (concat (buckets m)). equals (ekey e) k \<and> evalue e = v"
  then obtain e where e: "e \<in> set (concat (buckets m))" "equals (ekey e) k" "evalue e = v" by blast
  have "\<forall>x \<in> set (concat (buckets m)). equals (ekey x) k \<longrightarrow> x = e"
    using keys_unique [OF assms _ e(1)] equals_trans equals_sym e(2) by blast
  from find_unique [OF e(1) _ this] e assms(2) show "abs_map m k = Some v"
    by (simp add: abs_map_def)
qed

lemma index_in_range:
  "wf_hashmap m \<Longrightarrow> calculateIndex (bucketCount m) h < length (buckets m)"
  using wf_hashmapD(1,6) [of m] calculateIndex_less by fastforce

lemma in_own_bucket:
  assumes "wf_hashmap m" "hash_fn m = hash" "e \<in> set (concat (buckets m))" "equals (ekey e) k"
  shows "e \<in> set (buckets m ! calculateIndex (bucketCount m) (hashKey m k))"
proof -
  from assms(3) obtain i where i: "i < length (buckets m)" "e \<in> set (buckets m ! i)"
    by (rule in_set_concat_nthE)
  with wf_hashmapD(2) [OF assms(1)] have "calculateIndex (bucketCount m) (ehash e) = i"
    by (simp add: placed_def)
  with i wf_hashmapD(3) [OF assms(1,3)] hashKey_equals [OF assms(2,4)] show ?thesis by simp
qed

lemma chain_find_abs_None:
  assumes "wf_hashmap m" "hash_fn m = hash" "equals_fn m = equals"
  shows "chain_find equals k (hashKey m k)
           (buckets m ! calculateIndex (bucketCount m) (hashKey m k)) = None \<longleftrightarrow> abs_map m k = None"
    (is "?L = None \<longleftrightarrow> _")
proof -
  let ?es = "buckets m ! calculateIndex (bucketCount m) (hashKey m k)"
  have sub: "set ?es \<subseteq> set (concat (buckets m))"
    by (rule set_nth_subset_concat [OF index_in_range [OF assms(1)]])
  have "?L = None \<longleftrightarrow> (\<forall>e \<in> set ?es. \<not> equals (ekey e) k)"
    using match_iff [OF assms] sub by (meson chain_find_None_iff subsetD)
  also have "\<dots> \<longleftrightarrow> (\<forall>e \<in> set (concat (buckets m)). \<not> equals (ekey e) k)"
    using sub in_own_bucket [OF assms(1,2)] by blast
  also have "\<dots> \<longleftrightarrow> abs_map m k = None"
    using abs_map_Some_iff [OF assms(1,3)] by (metis not_Some_eq)
  finally show ?thesis .
qed

lemma chain_find_abs_Some:
  assumes "wf_hashmap m" "hash_fn m = hash" "equals_fn m = equals"
    and "chain_find equals k (hashKey m k)
           (buckets m ! calculateIndex (bucketCount m) (hashKey m k)) = Some (b, e, a)"
  shows "buckets m ! calculateIndex (bucketCount m) (hashKey m k) = b @ e # a"
    "e \<in> set (concat (buckets m))" "equals (ekey e) k" "abs_map m k = Some (evalue e)"
proof -
  let ?i = "calculateIndex (bucketCount m) (hashKey m k)"
  note D = chain_find_SomeD [OF assms(4)]
  show es: "buckets m ! ?i = b @ e # a" using D by blast
  have "e \<in> set (buckets m ! ?i)" using es by simp
  then show mem: "e \<in> set (concat (buckets m))"
    using set_nth_subset_concat [OF index_in_range [OF assms(1)]] by blast
  show eq: "equals (ekey e) k" using match_iff [OF assms(1-3) mem] D by blast
  show "abs_map m k = Some (evalue e)" using abs_map_Some_iff [OF assms(1,3)] mem eq by blast
qed

lemma hashmapGet_abs:
  assumes "wf_hashmap m" "hash_fn m = hash" "equals_fn m = equals"
  shows "hashmapGet m k = (case abs_map m k of None \<Rightarrow> NULL | Some v \<Rightarrow> v)"
    and "hashmapContainsKey m k \<longleftrightarrow> abs_map m k \<noteq> None"
  using chain_find_abs_None [OF assms, of k] chain_find_abs_Some(4) [OF assms, of k]
  by (auto simp: hashmapGet_def hashmapContainsKey_def Let_def assms(3) split: option.splits)

lemma replace_value:
  fixes m :: "('k, 'v) Hashmap" and v :: "'v ptr"
  assumes wf: "wf_hashmap m" and h: "hash_fn m = hash" and eq: "equals_fn m = equals"
    and i: "i < length (buckets m)" and es: "buckets m ! i = b @ e # a" and ek: "equals (ekey e) k"
  defines "m' \<equiv> m\<lparr>buckets := (buckets m)[i := b @ e\<lparr>evalue := v\<rparr> # a]\<rparr>"
  shows "wf_hashmap m' \<and> abs_map m' = (\<lambda>k'. if equals k k' then Some v else abs_map m k')"
proof -
  let ?X = "concat (take i (buckets m)) @ b" and ?Y = "a @ concat (drop (Suc i) (buckets m))"
  have c: "concat (buckets m) = ?X @ e # ?Y" using concat_split_at [OF i] es by simp
  have c': "concat (buckets m') = ?X @ e\<lparr>evalue := v\<rparr> # ?Y"
    using concat_list_update [OF i] by (simp add: m'_def)
  note D = wf_hashmapD [OF wf]
  obtain n where n: "n \<le> 29" "bucketCount m = 2 ^ n" using D(6) by blast
  have keys: "map ekey (concat (buckets m')) = map ekey (concat (buckets m))"
    unfolding c c' by simp
  have dist: "sorted_wrt (\<lambda>x y. \<not> equals x y) (map ekey (concat (buckets m)))"
    using D(4) eq by (simp only: distinct_keys_def sorted_wrt_map)
  have "placed (bucketCount m') (buckets m')"
    using D(2) es i by (auto simp: m'_def placed_def nth_list_update)
  moreover have "distinct_keys equals (concat (buckets m'))"
    using dist unfolding keys [symmetric] by (simp only: distinct_keys_def sorted_wrt_map)
  moreover have "ehash x = hashKey m' (ekey x)" if "x \<in> set (concat (buckets m'))" for x
    using that D(3) [of e] D(3) [of x] unfolding c c' by (auto simp: m'_def)
  moreover have "length (concat (buckets m')) = length (concat (buckets m))"
    unfolding c c' by simp
  moreover have m'_simps: "length (buckets m') = length (buckets m)" "bucketCount m' = bucketCount m"
      "map_size m' = map_size m" "equals_fn m' = equals" "hash_fn m' = hash"
    using eq h by (simp_all add: m'_def)
  ultimately have wf': "wf_hashmap m'"
    using n D(1,5) by (intro wf_hashmapI [of n]) (simp_all only:)
  have others: "\<And>x. x \<in> set ?X \<union> set ?Y \<Longrightarrow> \<not> equals (ekey x) (ekey e)"
    using D(4) eq equals_sym unfolding c distinct_keys_def by (auto simp: sorted_wrt_append)
  have "abs_map m' k' = (if equals k k' then Some v else abs_map m k')" for k'
  proof (rule option_eqI)
    fix w
    have A: "abs_map m' k' = Some w \<longleftrightarrow>
        (\<exists>x \<in> set ?X \<union> set ?Y. equals (ekey x) k' \<and> evalue x = w) \<or> equals (ekey e) k' \<and> v = w"
      using abs_map_Some_iff [OF wf' m'_simps(4)] unfolding c' by auto
    have B: "abs_map m k' = Some w \<longleftrightarrow>
        (\<exists>x \<in> set ?X \<union> set ?Y. equals (ekey x) k' \<and> evalue x = w) \<or> equals (ekey e) k' \<and> evalue e = w"
      using abs_map_Some_iff [OF wf eq] unfolding c by auto
    have E: "equals (ekey e) k' \<longleftrightarrow> equals k k'" using ek equals_trans equals_sym by blast
    show "abs_map m' k' = Some w \<longleftrightarrow> (if equals k k' then Some v else abs_map m k') = Some w"
    proof (cases "equals k k'")
      case True
      then have "\<And>x. x \<in> set ?X \<union> set ?Y \<Longrightarrow> \<not> equals (ekey x) k'"
        using others E equals_trans equals_sym by blast
      with A E True show ?thesis by auto
    next
      case False
      with A B E show ?thesis by auto
    qed
  qed
  with wf' show ?thesis by auto
qed

lemma add_entry:
  fixes m :: "('k, 'v) Hashmap" and v :: "'v ptr"
  assumes wf: "wf_hashmap m" and h: "hash_fn m = hash" and eq: "equals_fn m = equals"
    and new: "abs_map m k = None"
  defines "i \<equiv> calculateIndex (bucketCount m) (hashKey m k)"
  defines "e \<equiv> \<lparr>ekey = k, ehash = hashKey m k, evalue = v\<rparr>"
  defines "m' \<equiv> m\<lparr>buckets := (buckets m)[i := (buckets m ! i) @ [e]], map_size := map_size m + 1\<rparr>"
  shows "wf_hashmap m' \<and> abs_map m' = (\<lambda>k'. if equals k k' then Some v else abs_map m k')"
proof -
  note D = wf_hashmapD [OF wf]
  obtain n where n: "n \<le> 29" "bucketCount m = 2 ^ n" using D(6) by blast
  have i: "i < length (buckets m)" using index_in_range [OF wf] by (simp add: i_def)
  have b': "buckets m' = (buckets m)[i := (buckets m ! i) @ [e]]" by (simp add: m'_def)
  have ms: "mset (concat (buckets m')) = mset (e # concat (buckets m))"
    using mset_concat_update [OF i, of "(buckets m ! i) @ [e]"] unfolding b' by simp
  have st: "set (concat (buckets m')) = insert e (set (concat (buckets m)))"
    using mset_eq_setD [OF ms] by simp
  have ln: "length (concat (buckets m')) = Suc (length (concat (buckets m)))"
    using mset_eq_length [OF ms] by simp
  have nk: "\<not> equals (ekey x) k" if "x \<in> set (concat (buckets m))" for x
    using that new abs_map_Some_iff [OF wf eq, of k] by auto
  have sy: "symp (\<lambda>a b. \<not> equals (ekey a) (ekey b))"
    using symp_equals by (auto simp: symp_def)
  have "sorted_wrt (\<lambda>a b. \<not> equals (ekey a) (ekey b)) (e # concat (buckets m))"
    using D(4) nk equals_sym unfolding eq distinct_keys_def
    by (auto simp: e_def simp del: set_concat)
  from sorted_wrt_mset [OF sy ms [symmetric] this]
  have "distinct_keys equals (concat (buckets m'))" by (simp add: distinct_keys_def)
  moreover have "placed (bucketCount m') (buckets m')"
    using D(2) i by (auto simp: m'_def placed_def nth_list_update e_def i_def)
  moreover have "ehash x = hashKey m' (ekey x)" if "x \<in> set (concat (buckets m'))" for x
    using that D(3) [of x] unfolding st by (auto simp: m'_def e_def)
  moreover have m'_simps: "length (buckets m') = length (buckets m)" "bucketCount m' = bucketCount m"
      "map_size m' = map_size m + 1" "equals_fn m' = equals" "hash_fn m' = hash"
    using eq h by (simp_all add: m'_def)
  ultimately have wf': "wf_hashmap m'"
    using n D(1,5) ln by (intro wf_hashmapI [of n]) (simp_all only: of_nat_Suc add.commute)
  have "abs_map m' k' = (if equals k k' then Some v else abs_map m k')" for k'
  proof (rule option_eqI)
    fix w
    have A: "abs_map m' k' = Some w \<longleftrightarrow> equals k k' \<and> v = w \<or> abs_map m k' = Some w"
      using abs_map_Some_iff [OF wf' m'_simps(4), of k' w] abs_map_Some_iff [OF wf eq, of k' w]
      unfolding st by (auto simp: e_def simp del: set_concat)
    have "abs_map m k' \<noteq> Some w" if "equals k k'"
      using that nk abs_map_Some_iff [OF wf eq, of k' w] equals_trans equals_sym by blast
    with A show "abs_map m' k' = Some w \<longleftrightarrow> (if equals k k' then Some v else abs_map m k') = Some w"
      by auto
  qed
  with wf' show ?thesis by auto
qed

lemma abs_map_mset_cong:
  assumes "wf_hashmap m" "wf_hashmap m'" "equals_fn m = equals" "equals_fn m' = equals"
    and "mset (concat (buckets m)) = mset (concat (buckets m'))"
  shows "abs_map m = abs_map m'"
proof
  fix k
  have "set (concat (buckets m)) = set (concat (buckets m'))"
    using assms(5) by (rule mset_eq_setD)
  then show "abs_map m k = abs_map m' k"
    using abs_map_Some_iff [OF assms(1,3), of k] abs_map_Some_iff [OF assms(2,4), of k]
    by (intro option_eqI) (simp only:)
qed

lemma expand_abs:
  assumes "wf_hashmap m" "equals_fn m = equals"
  shows "wf_hashmap (expandIfNecessary g m)" "abs_map (expandIfNecessary g m) = abs_map m"
proof -
  have s: "symp (equals_fn m)" using assms(2) symp_equals by simp
  show w: "wf_hashmap (expandIfNecessary g m)" using expand_mset_wf [OF assms(1) s] by blast
  show "abs_map (expandIfNecessary g m) = abs_map m"
    using expand_mset_wf [OF assms(1) s, of g] expand_unchanged [of g m] assms
    by (intro abs_map_mset_cong [OF w assms(1)]) auto
qed

lemma remove_entry:
  fixes m :: "('k, 'v) Hashmap"
  assumes wf: "wf_hashmap m" and h: "hash_fn m = hash" and eq: "equals_fn m = equals"
    and i: "i < length (buckets m)" and es: "buckets m ! i = b @ e # a" and ek: "equals (ekey e) k"
  defines "m' \<equiv> m\<lparr>buckets := (buckets m)[i := b @ a], map_size := map_size m - 1\<rparr>"
  shows "wf_hashmap m' \<and> abs_map m' = (\<lambda>k'. if equals k k' then None else abs_map m k')"
proof -
  let ?X = "concat (take i (buckets m)) @ b" and ?Y = "a @ concat (drop (Suc i) (buckets m))"
  have c: "concat (buckets m) = ?X @ e # ?Y" using concat_split_at [OF i] es by simp
  have c': "concat (buckets m') = ?X @ ?Y"
    using concat_list_update [OF i] by (simp add: m'_def)
  note D = wf_hashmapD [OF wf]
  obtain n where n: "n \<le> 29" "bucketCount m = 2 ^ n" using D(6) by blast
  have "placed (bucketCount m') (buckets m')"
    using D(2) es i by (auto simp: m'_def placed_def nth_list_update)
  moreover have "distinct_keys equals (concat (buckets m'))"
    using D(4) unfolding eq c c' distinct_keys_def by (simp only: sorted_wrt_append sorted_wrt.simps) auto
  moreover have "ehash x = hashKey m' (ekey x)" if "x \<in> set (concat (buckets m'))" for x
    using that D(3) [of x] unfolding c c' by (auto simp: m'_def)
  moreover have "map_size m' = of_nat (length (concat (buckets m')))"
    using D(5) unfolding c c' by (simp add: m'_def)
  moreover have m'_simps: "length (buckets m') = length (buckets m)" "bucketCount m' = bucketCount m"
      "equals_fn m' = equals" "hash_fn m' = hash"
    using eq h by (simp_all add: m'_def)
  ultimately have wf': "wf_hashmap m'"
    using n D(1) by (intro wf_hashmapI [of n]) (simp_all only:)
  have others: "\<And>x. x \<in> set ?X \<union> set ?Y \<Longrightarrow> \<not> equals (ekey x) (ekey e)"
    using D(4) eq equals_sym unfolding c distinct_keys_def by (auto simp: sorted_wrt_append)
  have "abs_map m' k' = (if equals k k' then None else abs_map m k')" for k'
  proof (rule option_eqI)
    fix w
    have A: "abs_map m' k' = Some w \<longleftrightarrow> (\<exists>x \<in> set ?X \<union> set ?Y. equals (ekey x) k' \<and> evalue x = w)"
      using abs_map_Some_iff [OF wf' m'_simps(3)] unfolding c' by auto
    have B: "abs_map m k' = Some w \<longleftrightarrow>
        (\<exists>x \<in> set ?X \<union> set ?Y. equals (ekey x) k' \<and> evalue x = w) \<or> equals (ekey e) k' \<and> evalue e = w"
      using abs_map_Some_iff [OF wf eq] unfolding c by auto
    have E: "equals (ekey e) k' \<longleftrightarrow> equals k k'" using ek equals_trans equals_sym by blast
    have "\<not> equals (ekey x) k'" if "x \<in> set ?X \<union> set ?Y" "equals k k'" for x
      using others [OF that(1)] E that(2) equals_trans equals_sym by blast
    with A B E show "abs_map m' k' = Some w \<longleftrightarrow>
        (if equals k k' then None else abs_map m k') = Some w" by auto
  qed
  with wf' show ?thesis by auto
qed

lemma put_spec:
  assumes "hashmap_inv hash equals m" and "hashmapPut me mb m k v = (r, err, m')"
  shows "hashmap_inv hash equals m'" and "r = hashmapGet m k"
    and "abs_map m k = None \<Longrightarrow> \<not> me \<Longrightarrow> err = Some ENOMEM \<and> m' = m"
    and "abs_map m k \<noteq> None \<or> me \<Longrightarrow>
      err = None \<and> abs_map m' = (\<lambda>k'. if equals k k' then Some v else abs_map m k') \<and>
      map_size m' = (if abs_map m k = None then map_size m + 1 else map_size m)"
proof -
  from assms(1) have wf: "wf_hashmap m" and h: "hash_fn m = hash" and eq: "equals_fn m = equals"
    by (simp_all add: hashmap_inv_def)
  let ?i = "calculateIndex (bucketCount m) (hashKey m k)"
  have i: "?i < length (buckets m)" by (rule index_in_range [OF wf])
  have goal: "hashmap_inv hash equals m' \<and> r = hashmapGet m k \<and>
      (if abs_map m k = None \<and> \<not> me then err = Some ENOMEM \<and> m' = m
       else err = None \<and> abs_map m' = (\<lambda>k'. if equals k k' then Some v else abs_map m k') \<and>
            map_size m' = (if abs_map m k = None then map_size m + 1 else map_size m))"
  proof (cases "chain_find equals k (hashKey m k) (buckets m ! ?i)")
    case None
    then have nw: "abs_map m k = None" using chain_find_abs_None [OF wf h eq] by simp
    show ?thesis
    proof (cases me)
      case False
      with None assms nw eq show ?thesis
        by (auto simp: hashmapPut_def Let_def createEntry_def hashmapGet_def)
    next
      case True
      note A = add_entry [OF wf h eq nw, of v]
      let ?m = "m\<lparr>buckets := (buckets m)[?i := (buckets m ! ?i) @
        [\<lparr>ekey = k, ehash = hashKey m k, evalue = v\<rparr>]], map_size := map_size m + 1\<rparr>"
      have m': "m' = expandIfNecessary mb ?m" "r = NULL" "err = None"
        using None True assms(2) eq by (simp_all add: hashmapPut_def Let_def createEntry_def)
      from A have "wf_hashmap ?m" by blast
      moreover have "equals_fn ?m = equals" using eq by simp
      ultimately have "wf_hashmap m'" "abs_map m' = abs_map ?m"
        using expand_abs [of ?m mb] unfolding m'(1) by blast+
      with A m' nw True None h eq expand_unchanged [of mb ?m] show ?thesis
        by (simp add: hashmap_inv_def hashmapGet_def)
    qed
  next
    case (Some t)
    then obtain b e a where t: "chain_find equals k (hashKey m k) (buckets m ! ?i) = Some (b, e, a)"
      by (cases t) auto
    note C = chain_find_abs_Some [OF wf h eq t]
    note R = replace_value [OF wf h eq i C(1) C(3), of v]
    have "m' = m\<lparr>buckets := (buckets m)[?i := b @ e\<lparr>evalue := v\<rparr> # a]\<rparr>" "r = evalue e" "err = None"
      using t assms(2) eq by (simp_all add: hashmapPut_def Let_def)
    with R C(4) t h eq show ?thesis by (simp add: hashmap_inv_def hashmapGet_def)
  qed
  from goal show "hashmap_inv hash equals m'" and "r = hashmapGet m k" by blast+
  from goal show "abs_map m k = None \<Longrightarrow> \<not> me \<Longrightarrow> err = Some ENOMEM \<and> m' = m" by simp
  from goal show "abs_map m k \<noteq> None \<or> me \<Longrightarrow>
      err = None \<and> abs_map m' = (\<lambda>k'. if equals k k' then Some v else abs_map m k') \<and>
      map_size m' = (if abs_map m k = None then map_size m + 1 else map_size m)" by auto
qed

lemma remove_spec:
  assumes "hashmap_inv hash equals m" and "hashmapRemove m k = (r, m')"
  shows "hashmap_inv hash equals m'" and "r = hashmapGet m k"
    and "abs_map m' = (\<lambda>k'. if equals k k' then None else abs_map m k')"
    and "map_size m' = (if abs_map m k = None then map_size m else map_size m - 1)"
    and "bucketCount m' = bucketCount m"
proof -
  from assms(1) have wf: "wf_hashmap m" and h: "hash_fn m = hash" and eq: "equals_fn m = equals"
    by (simp_all add: hashmap_inv_def)
  let ?i = "calculateIndex (bucketCount m) (hashKey m k)"
  have i: "?i < length (buckets m)" by (rule index_in_range [OF wf])
  have "hashmap_inv hash equals m' \<and> r = hashmapGet m k \<and>
      abs_map m' = (\<lambda>k'. if equals k k' then None else abs_map m k') \<and>
      map_size m' = (if abs_map m k = None then map_size m else map_size m - 1) \<and>
      bucketCount m' = bucketCount m"
  proof (cases "chain_find equals k (hashKey m k) (buckets m ! ?i)")
    case None
    then have nw: "abs_map m k = None" using chain_find_abs_None [OF wf h eq] by simp
    have "abs_map m k' = None" if "equals k k'" for k'
    proof (rule ccontr)
      assume "abs_map m k' \<noteq> None"
      then obtain e where "e \<in> set (concat (buckets m))" "equals (ekey e) k'"
        using abs_map_Some_iff [OF wf eq, of k'] by blast
      with that have "abs_map m k \<noteq> None"
        using abs_map_Some_iff [OF wf eq, of k "evalue e"] equals_trans equals_sym by blast
      with nw show False by simp
    qed
    then have same: "(\<lambda>k'. if equals k k' then None else abs_map m k') = abs_map m" by auto
    have "m' = m" "r = NULL" "hashmapGet m k = NULL"
      using None assms(2) eq by (simp_all add: hashmapRemove_def Let_def hashmapGet_def)
    then show ?thesis using assms(1) nw same by simp
  next
    case (Some t)
    then obtain b e a where t: "chain_find equals k (hashKey m k) (buckets m ! ?i) = Some (b, e, a)"
      by (cases t) auto
    note C = chain_find_abs_Some [OF wf h eq t]
    have "m' = m\<lparr>buckets := (buckets m)[?i := b @ a], map_size := map_size m - 1\<rparr>" "r = evalue e"
      using t assms(2) eq by (simp_all add: hashmapRemove_def Let_def)
    with remove_entry [OF wf h eq i C(1) C(3)] C(4) t h eq show ?thesis
      by (simp add: hashmap_inv_def hashmapGet_def)
  qed
  then show "hashmap_inv hash equals m'" and "r = hashmapGet m k"
    and "abs_map m' = (\<lambda>k'. if equals k k' then None else abs_map m k')"
    and "map_size m' = (if abs_map m k = None then map_size m else map_size m - 1)"
    and "bucketCount m' = bucketCount m" by blast+
qed

text \<open>Memoising is a put of the computed value when the key is absent, and nothing otherwise.\<close>

lemma memoize_is_put:
  assumes "hashmap_inv hash equals m"
  shows "hashmapMemoize me mb m k init ctxt =
    (if abs_map m k \<noteq> None then (hashmapGet m k, None, m)
     else if me then (init k ctxt, None, snd (snd (hashmapPut me mb m k (init k ctxt))))
     else (NULL, Some ENOMEM, m))"
proof -
  from assms have wf: "wf_hashmap m" and h: "hash_fn m = hash" and eq: "equals_fn m = equals"
    by (simp_all add: hashmap_inv_def)
  show ?thesis
    using chain_find_abs_None [OF wf h eq, of k] chain_find_abs_Some(4) [OF wf h eq, of k]
    by (auto simp: hashmapMemoize_def hashmapPut_def hashmapGet_def Let_def createEntry_def eq
             split: option.splits)
qed

end

section \<open>Iteration\<close>

lemma forEach_chain_append:
  "forEach_chain cb (xs @ ys) s =
     (case forEach_chain cb xs s of (True, s') \<Rightarrow> forEach_chain cb ys s' | (False, s') \<Rightarrow> (False, s'))"
  by (induction xs arbitrary: s) (auto split: prod.splits bool.splits)

lemma forEach_chain_map:
  "(\<And>k v s. get_map (snd (cb k v s)) = get_map s) \<Longrightarrow>
     get_map (snd (forEach_chain cb es s)) = get_map s"
proof (induction es arbitrary: s)
  case Nil
  then show ?case by simp
next
  case (Cons e es)
  obtain c s' where cb: "cb (ekey e) (evalue e) s = (c, s')" by fastforce
  with Cons.prems [of "ekey e" "evalue e" s] have "get_map s' = get_map s" by simp
  with Cons cb show ?case by (cases c) simp_all
qed

text \<open>A callback that leaves the table alone sees the nodes bucket by bucket.\<close>

lemma forEach_buckets_concat:
  assumes "\<And>k v s. get_map (snd (cb k v s)) = get_map s"
  shows "forEach_buckets get_map cb is s =
           snd (forEach_chain cb (concat (map (\<lambda>i. buckets (get_map s) ! i) is)) s)"
proof (induction "is" arbitrary: s)
  case Nil
  then show ?case by simp
next
  case (Cons i "is")
  obtain c s' where c: "forEach_chain cb (buckets (get_map s) ! i) s = (c, s')" by fastforce
  with forEach_chain_map [of get_map cb "buckets (get_map s) ! i" s] assms
  have "get_map s' = get_map s" by simp
  with Cons c show ?case by (cases c) (simp_all add: forEach_chain_append)
qed

lemma hashmapForEach_concat:
  assumes "\<And>k v s. get_map (snd (cb k v s)) = get_map s"
    and "length (buckets (get_map s)) = unat (bucketCount (get_map s))"
  shows "hashmapForEach get_map cb s = snd (forEach_chain cb (concat (buckets (get_map s))) s)"
proof -
  have "map (\<lambda>i. buckets (get_map s) ! i) [0..<unat (bucketCount (get_map s))] = buckets (get_map s)"
    using assms(2) by (metis map_nth)
  with forEach_buckets_concat [of get_map cb, OF assms(1)] show ?thesis
    by (simp add: hashmapForEach_def)
qed

section \<open>Keys compared by value: the table provides a map\<close>

locale eq_key_ops = key_ops +
  assumes equals_eq: "equals a b \<Longrightarrow> a = b"
begin

lemma equals_iff: "equals a b \<longleftrightarrow> a = b"
  using equals_eq by auto

lemma distinct_ekeys: "hashmap_inv hash equals m \<Longrightarrow> distinct (map ekey (concat (buckets m)))"
  using wf_hashmapD(4) [of m]
  by (simp only: hashmap_inv_def distinct_keys_def equals_iff distinct_map_sorted_wrt simp_thms)

lemma get_Some_iff:
  assumes "hashmap_inv hash equals m"
  shows "hashmapGet m k = Some v \<longleftrightarrow> (\<exists>e \<in> set (concat (buckets m)). ekey e = k \<and> evalue e = Some v)"
proof -
  have wf: "wf_hashmap m" "hash_fn m = hash" "equals_fn m = equals"
    using assms by (simp_all add: hashmap_inv_def)
  have "hashmapGet m k = Some v \<longleftrightarrow> abs_map m k = Some (Some v)"
    unfolding hashmapGet_abs(1) [OF wf] by (auto split: option.splits)
  then show ?thesis using abs_map_Some_iff [OF wf(1,3)] by (simp add: equals_iff)
qed

lemma pairs_keys:
  "map fst (List.map_filter (\<lambda>e. map_option (Pair (ekey e)) (evalue e)) es) =
     map ekey (filter (\<lambda>e. evalue e \<noteq> NULL) es)"
  by (induction es) (auto simp: map_filter_simps split: option.splits)

lemma table_pairs_keys:
  "map fst (table_pairs m) = map ekey (filter (\<lambda>e. evalue e \<noteq> NULL) (concat (buckets m)))"
  unfolding table_pairs_def by (rule pairs_keys)

lemma distinct_table_pairs: "hashmap_inv hash equals m \<Longrightarrow> distinct (map fst (table_pairs m))"
  using distinct_ekeys [of m] by (simp add: table_pairs_keys distinct_map_filter)

end

sublocale eq_key_ops \<subseteq> tbl: map_provider "hashmap_inv hash equals" hashmapGet
    "\<lambda>mb m k v. snd (snd (hashmapPut True mb m k (Some v)))" "\<lambda>m k. snd (hashmapRemove m k)" table_pairs
proof unfold_locales
  fix m :: "('a, 'b) Hashmap" and mb k v
  assume inv: "hashmap_inv hash equals m"
  obtain r err m' where p: "hashmapPut True mb m k (Some v) = (r, err, m')" by (metis prod_cases3)
  note P = put_spec [OF inv p]
  then show i: "hashmap_inv hash equals (snd (snd (hashmapPut True mb m k (Some v))))" by (simp add: p)
  have "hashmapGet m' k' = ((hashmapGet m)(k \<mapsto> v)) k'" for k'
    using P(1,4) inv hashmapGet_abs(1) [of m' k'] hashmapGet_abs(1) [of m k']
    by (simp add: hashmap_inv_def equals_iff)
  then show "hashmapGet (snd (snd (hashmapPut True mb m k (Some v)))) = (hashmapGet m)(k \<mapsto> v)"
    by (auto simp: p)
next
  fix m :: "('a, 'b) Hashmap" and k
  assume inv: "hashmap_inv hash equals m"
  obtain r m' where p: "hashmapRemove m k = (r, m')" by fastforce
  note P = remove_spec [OF inv p]
  then show "hashmap_inv hash equals (snd (hashmapRemove m k))" by (simp add: p)
  have "hashmapGet m' k' = ((hashmapGet m)(k := None)) k'" for k'
    using P(1,3) inv hashmapGet_abs(1) [of m' k'] hashmapGet_abs(1) [of m k']
    by (simp add: hashmap_inv_def equals_iff)
  then show "hashmapGet (snd (hashmapRemove m k)) = (hashmapGet m)(k := None)" by (auto simp: p)
next
  fix m :: "('a, 'b) Hashmap"
  assume inv: "hashmap_inv hash equals m"
  note d = distinct_table_pairs [OF inv]
  have "map_of (table_pairs m) k = hashmapGet m k" for k
  proof (rule option_eqI)
    fix v
    show "map_of (table_pairs m) k = Some v \<longleftrightarrow> hashmapGet m k = Some v"
      unfolding get_Some_iff [OF inv] map_of_eq_Some_iff [OF d]
      by (auto simp: table_pairs_def set_map_filter simp del: set_concat)
  qed
  then show "map_of (table_pairs m) = hashmapGet m" by auto
qed

section \<open>The int key functions satisfy the contract\<close>

interpretation int_keys: eq_key_ops hashmapIntHash hashmapIntEquals
  by unfold_locales (auto simp: hashmapIntHash_def hashmapIntEquals_def)

text \<open>An empty table of one bucket, for the concrete instances below.\<close>

definition int_map0 :: "(u32, nat) Hashmap" where
  "int_map0 = \<lparr>buckets = [[]], bucketCount = 1, hash_fn = hashmapIntHash,
     equals_fn = hashmapIntEquals, lock_held = False, map_size = 0\<rparr>"

lemma int_map0_create: "hashmapCreate True True 0 hashmapIntHash hashmapIntEquals = Some int_map0"
  by (simp add: hashmapCreate_def minimumBucketCount_def grow_bucketCount.simps calloc_ok_def int_map0_def)

lemma int_map0_inv: "hashmap_inv hashmapIntHash hashmapIntEquals int_map0"
  using hashmapCreate_wf [OF int_map0_create] by (simp add: hashmap_inv_def int_map0_def)

section \<open>Properties\<close>

text \<open>
  C15. The bucket-count loop of \<open>hashmapCreate\<close> always returns, with the least power of two
  above four thirds of the requested capacity; the table is then well formed, empty and of that
  many buckets, unless an allocation fails (or cannot be represented in 32 bits).
\<close>

theorem hashmapCreate_correct:
  "\<exists>j \<le> 31. grow_bucketCount (minimumBucketCount c) 1 = Some (2 ^ j) \<and>
     minimumBucketCount c < 2 ^ j \<and> (j = 0 \<or> 2 ^ (j - 1) \<le> minimumBucketCount c) \<and>
     (case hashmapCreate a b c hash equals :: ('k, 'v) Hashmap ptr of
        None \<Rightarrow> \<not> (a \<and> b \<and> j \<le> 29)
      | Some m \<Rightarrow> hashmap_inv hash equals m \<and> bucketCount m = 2 ^ j \<and>
                  abs_map m = Map.empty \<and> hashmapSize m = 0)"
proof -
  obtain j where j: "j \<le> 31" "grow_bucketCount (minimumBucketCount c) (2 ^ 0) = Some (2 ^ j)"
      "minimumBucketCount c < 2 ^ j" "0 < j \<longrightarrow> 2 ^ (j - 1) \<le> minimumBucketCount c"
    using grow_bucketCount_returns [of 0 "minimumBucketCount c"] minimumBucketCount_bound by blast
  have "case hashmapCreate a b c hash equals :: ('k, 'v) Hashmap ptr of
        None \<Rightarrow> \<not> (a \<and> b \<and> j \<le> 29)
      | Some m \<Rightarrow> hashmap_inv hash equals m \<and> bucketCount m = 2 ^ j \<and>
                  abs_map m = Map.empty \<and> hashmapSize m = 0"
  proof (cases "hashmapCreate a b c hash equals :: ('k, 'v) Hashmap ptr")
    case None
    with j(1,2) calloc_ok_power [of j b] show ?thesis
      by (auto simp: hashmapCreate_def split: if_splits)
  next
    case (Some m)
    with j(2) have m: "m = \<lparr>buckets = replicate (unat ((2::u32) ^ j)) [], bucketCount = 2 ^ j,
        hash_fn = hash, equals_fn = equals, lock_held = False, map_size = 0\<rparr>"
      by (simp add: hashmapCreate_def split: if_splits)
    from hashmapCreate_wf [OF Some] show ?thesis unfolding Some option.case
      by (simp add: m hashmap_inv_def abs_map_def hashmapSize_def fun_eq_iff)
  qed
  with j show ?thesis by (intro exI [of _ j]) auto
qed



text \<open>
  C16. \<open>hashmapRemove\<close> refines deletion: it returns the value the key had (NULL if none),
  removes exactly the entry of that key, keeps every other entry and the bucket count, and the
  size goes down by one exactly when an entry was there.
\<close>

theorem hashmapRemove_correct:
  assumes "key_ops hash equals" and "hashmap_inv hash equals m" and "hashmapRemove m k = (r, m')"
  shows "hashmap_inv hash equals m' \<and> r = hashmapGet m k \<and>
    (\<forall>k'. hashmapGet m' k' = (if equals k k' then NULL else hashmapGet m k')) \<and>
    (\<forall>k'. hashmapContainsKey m' k' = (\<not> equals k k' \<and> hashmapContainsKey m k')) \<and>
    hashmapSize m' = (if hashmapContainsKey m k then hashmapSize m - 1 else hashmapSize m) \<and>
    bucketCount m' = bucketCount m"
proof -
  note S = key_ops.remove_spec [OF assms]
  have wf: "wf_hashmap m" "hash_fn m = hash" "equals_fn m = equals"
    and wf': "wf_hashmap m'" "hash_fn m' = hash" "equals_fn m' = equals"
    using assms(2) S(1) by (simp_all add: hashmap_inv_def)
  note G = key_ops.hashmapGet_abs [OF assms(1) wf] and G' = key_ops.hashmapGet_abs [OF assms(1) wf']
  show ?thesis using S by (auto simp: G G' hashmapSize_def)
qed

theorem hashmapRemove_correct_witness:
  "\<exists>m. hashmap_inv hashmapIntHash hashmapIntEquals m \<and> hashmapGet m 7 = Some (3::nat) \<and>
       fst (hashmapRemove m 7) = Some 3 \<and> hashmapGet (snd (hashmapRemove m 7)) 7 = NULL"
proof -
  obtain r err m where p: "hashmapPut True True int_map0 7 (Some 3) = (r, err, m)"
    by (metis prod_cases3)
  note S = int_keys.put_spec [OF int_map0_inv p]
  have "hashmapGet m 7 = Some 3"
    using S(1,4) int_keys.hashmapGet_abs(1) [of m 7]
    by (simp add: hashmap_inv_def hashmapIntEquals_def)
  moreover obtain r' m' where q: "hashmapRemove m 7 = (r', m')" by fastforce
  ultimately show ?thesis
    using hashmapRemove_correct [OF int_keys.key_ops_axioms S(1) q] S(1) q
    by (intro exI [of _ m]) (auto simp: hashmapIntEquals_def)
qed

end
