(* ===== verification/Str_Parms.thy ===== *)
theory Str_Parms
  imports Hashmap
begin

text \<open>
  \<^verbatim>\<open>core/libcutils/str_parms.c\<close>: parameter sets written as
  \<open>key=value;key=value\<close>, kept in a \<open>Hashmap\<close> of strings. Keys and values are
  strings duplicated by the code, so the model identifies a pointer with the text it points
  to. Return codes are \<open>None\<close> for 0 and \<open>Some e\<close> for \<open>-e\<close>.
\<close>

section \<open>Data and operations\<close>

record str_parms =
  sp_map :: "(string, string) Hashmap"

definition str_eq :: "string \<Rightarrow> string \<Rightarrow> bool" where
  "str_eq key_a key_b \<longleftrightarrow> key_a = key_b"

definition str_hash_fn :: "string \<Rightarrow> u32" where
  "str_hash_fn str = fold (\<lambda>c hash. (push_bit 5 hash + hash) + of_char c) str 5381"

definition str_parms_create :: "bool \<Rightarrow> bool \<Rightarrow> bool \<Rightarrow> str_parms ptr" where
  "str_parms_create calloc_sp malloc_map malloc_buckets =
     (if \<not> calloc_sp then NULL
      else case hashmapCreate malloc_map malloc_buckets 5 str_hash_fn str_eq of
             None \<Rightarrow> NULL
           | Some m \<Rightarrow> Some \<lparr>sp_map = m\<rparr>)"

text \<open>\<open>remove_pair\<close>, the callback of deletion; the context's key may be NULL.\<close>

definition remove_pair :: "string ptr \<Rightarrow> string \<Rightarrow> string ptr \<Rightarrow> str_parms \<Rightarrow> bool \<times> str_parms" where
  "remove_pair ctxt_key key val sp =
     (let removed = sp\<lparr>sp_map := snd (hashmapRemove (sp_map sp) key)\<rparr>
      in case ctxt_key of
           None \<Rightarrow> (True, removed)
         | Some k \<Rightarrow> if k = key then (False, removed) else (True, sp))"

definition str_parms_del :: "str_parms \<Rightarrow> string ptr \<Rightarrow> str_parms" where
  "str_parms_del sp key = hashmapForEach sp_map (remove_pair key) sp"

text \<open>\<open>str_parms_destroy\<close>: deletes every pair, then frees the nodes left in the table.\<close>

definition str_parms_destroy :: "str_parms \<Rightarrow> (string, string) Entry list" where
  "str_parms_destroy sp = hashmapFree (sp_map (hashmapForEach sp_map (remove_pair NULL) sp))"

text \<open>One \<open>kvpair\<close>: no pair when it starts with \<open>=\<close>; the value is what follows the first \<open>=\<close>.\<close>

definition split_pair :: "string \<Rightarrow> (string \<times> string) option" where
  "split_pair kvpair =
     (case strchr kvpair (CHR ''='') of
        Some eq \<Rightarrow> if length eq = length kvpair then None
                  else Some (take (length kvpair - length eq) kvpair, tl eq)
      | None \<Rightarrow> Some (kvpair, ''''))"

text \<open>
  The loop of \<open>str_parms_create_str\<close>; \<open>alloc i\<close> says whether the node and the grown
  bucket array of the \<open>i\<close>-th put are granted.
\<close>

function create_loop ::
  "(nat \<Rightarrow> bool \<times> bool) \<Rightarrow> nat \<Rightarrow> string \<Rightarrow> (string, string) Hashmap \<Rightarrow> (string, string) Hashmap" where
  "create_loop alloc items str m =
     (case strtok (CHR '';'') str of
        None \<Rightarrow> m
      | Some (kvpair, rest) \<Rightarrow>
          if kvpair = [] then m
          else (case split_pair kvpair of
                  None \<Rightarrow> create_loop alloc items rest m
                | Some (key, val) \<Rightarrow>
                    create_loop alloc (Suc items) rest
                      (snd (snd (hashmapPut (fst (alloc items)) (snd (alloc items)) m key (Some val))))))"
  by pat_completeness auto
termination
  by (relation "measure (\<lambda>(alloc, items, str, m). length str)") (auto dest: strtok_shorter)

declare create_loop.simps [simp del]

definition str_parms_create_str ::
  "bool \<Rightarrow> bool \<Rightarrow> bool \<Rightarrow> bool \<Rightarrow> (nat \<Rightarrow> bool \<times> bool) \<Rightarrow> string \<Rightarrow> str_parms ptr" where
  "str_parms_create_str calloc_sp malloc_map malloc_buckets strdup_ok alloc str =
     (case str_parms_create calloc_sp malloc_map malloc_buckets of
        None \<Rightarrow> NULL
      | Some sp \<Rightarrow> if \<not> strdup_ok then NULL
                  else Some (sp\<lparr>sp_map := create_loop alloc 0 str (sp_map sp)\<rparr>))"

text \<open>
  \<open>str_parms_add_str\<close>: the return code, the table, and whether the copies of key and value
  were freed. \<open>errno0\<close> is the value of \<open>errno\<close> before the call: \<open>hashmapPut\<close> sets it
  only when an allocation fails.
\<close>

definition str_parms_add_str ::
  "errno option \<Rightarrow> bool \<Rightarrow> bool \<Rightarrow> str_parms \<Rightarrow> string \<Rightarrow> string \<Rightarrow> errno option \<times> str_parms \<times> bool" where
  "str_parms_add_str errno0 malloc_entry malloc_buckets sp key val =
     (case hashmapPut malloc_entry malloc_buckets (sp_map sp) key (Some val) of
        (old_val, err, m') \<Rightarrow>
          let sp' = sp\<lparr>sp_map := m'\<rparr>;
              errno = (case err of None \<Rightarrow> errno0 | Some e \<Rightarrow> Some e)
          in if old_val \<noteq> NULL then (None, sp', False)
             else if errno = Some ENOMEM then (Some ENOMEM, sp', True)
             else (None, sp', False))"

text \<open>\<open>snprintf(val_str, 12, "%d", value)\<close> keeps at most eleven characters.\<close>

definition str_parms_add_int ::
  "errno option \<Rightarrow> bool \<Rightarrow> bool \<Rightarrow> str_parms \<Rightarrow> string \<Rightarrow> u32 \<Rightarrow> errno option \<times> str_parms \<times> bool" where
  "str_parms_add_int errno0 malloc_entry malloc_buckets sp key val =
     str_parms_add_str errno0 malloc_entry malloc_buckets sp key (take 11 (show_int (sint val)))"

text \<open>\<open>format\<close> stands for \<open>%.10f\<close>, which the C library implements.\<close>

definition str_parms_add_float ::
  "('f \<Rightarrow> string) \<Rightarrow> errno option \<Rightarrow> bool \<Rightarrow> bool \<Rightarrow> str_parms \<Rightarrow> string \<Rightarrow> 'f
    \<Rightarrow> errno option \<times> str_parms \<times> bool" where
  "str_parms_add_float format errno0 malloc_entry malloc_buckets sp key val =
     str_parms_add_str errno0 malloc_entry malloc_buckets sp key (take 22 (format val))"

text \<open>The readers: what is returned (\<open>Inl e\<close> for \<open>-e\<close>) and what the output argument holds.\<close>

definition str_parms_get_str :: "str_parms \<Rightarrow> string \<Rightarrow> string \<Rightarrow> nat \<Rightarrow> (errno + nat) \<times> string" where
  "str_parms_get_str sp key val len =
     (case hashmapGet (sp_map sp) key of
        Some value' \<Rightarrow> (let (buf, n) = strlcpy val value' len in (Inr n, buf))
      | None \<Rightarrow> (Inl ENOENT, val))"

definition str_parms_get_int :: "str_parms \<Rightarrow> string \<Rightarrow> u32 \<Rightarrow> errno option \<times> u32" where
  "str_parms_get_int sp key val =
     (case hashmapGet (sp_map sp) key of
        None \<Rightarrow> (Some ENOENT, val)
      | Some value' \<Rightarrow>
          (let (n, rest) = strtol 0 value'
           in (if value' \<noteq> [] \<and> rest = [] then None else Some EINVAL, word_of_int n)))"

text \<open>\<open>strtof\<close> is the C library's; its result goes to a local variable only.\<close>

definition str_parms_get_float ::
  "(string \<Rightarrow> 'f \<times> string) \<Rightarrow> str_parms \<Rightarrow> string \<Rightarrow> 'f \<Rightarrow> errno option \<times> 'f" where
  "str_parms_get_float strtof sp key val =
     (case hashmapGet (sp_map sp) key of
        None \<Rightarrow> (Some ENOENT, val)
      | Some value' \<Rightarrow>
          (let (out, rest) = strtof value'
           in (if value' \<noteq> [] \<and> rest = [] then None else Some EINVAL, val)))"

text \<open>
  \<open>combine_strings\<close>: appends one pair to the text so far; \<open>asprintf_ok\<close> says whether the
  text it would print can be allocated.
\<close>

definition combine_strings ::
  "(string \<Rightarrow> bool) \<Rightarrow> string \<Rightarrow> string ptr \<Rightarrow> (str_parms \<times> string ptr) \<Rightarrow> bool \<times> (str_parms \<times> string ptr)" where
  "combine_strings asprintf_ok key val ctxt =
     (let old_str = snd ctxt;
          new_str = (case old_str of None \<Rightarrow> '''' | Some s \<Rightarrow> s @ '';'') @ key @ ''='' @
                    (case val of None \<Rightarrow> ''(null)'' | Some v \<Rightarrow> v)
      in if asprintf_ok new_str then (True, (fst ctxt, Some new_str))
         else (False, (fst ctxt, NULL)))"

definition str_parms_to_str :: "(string \<Rightarrow> bool) \<Rightarrow> str_parms \<Rightarrow> string ptr" where
  "str_parms_to_str asprintf_ok sp =
     (if hashmapSize (sp_map sp) > 0
      then snd (hashmapForEach (sp_map \<circ> fst) (combine_strings asprintf_ok) (sp, NULL))
      else Some '''')"

section \<open>The string key functions satisfy the table's contract\<close>

interpretation str_keys: eq_key_ops str_hash_fn str_eq
  by unfold_locales (auto simp: str_eq_def)

definition sp_inv :: "str_parms \<Rightarrow> bool" where
  "sp_inv sp \<longleftrightarrow> hashmap_inv str_hash_fn str_eq (sp_map sp) \<and> (\<forall>k. abs_map (sp_map sp) k \<noteq> Some NULL)"

section \<open>Reading a parameter string\<close>

text \<open>The pairs a parameter string denotes, in order: the specification of the loop.\<close>

function str_pairs :: "string \<Rightarrow> (string \<times> string) list" where
  "str_pairs str =
     (case strtok (CHR '';'') str of
        None \<Rightarrow> []
      | Some (kvpair, rest) \<Rightarrow>
          (case split_pair kvpair of None \<Rightarrow> str_pairs rest | Some p \<Rightarrow> p # str_pairs rest))"
  by pat_completeness auto
termination
  by (relation "measure length") (auto dest: strtok_shorter)

declare str_pairs.simps [simp del]

lemma strtok_token_nonempty: "strtok d s = Some (tok, rest) \<Longrightarrow> tok \<noteq> []"
proof -
  assume a: "strtok d s = Some (tok, rest)"
  then have "dropWhile (\<lambda>c. c = d) s \<noteq> []"
    and t: "tok = takeWhile (\<lambda>c. c \<noteq> d) (dropWhile (\<lambda>c. c = d) s)"
    by (auto simp: strtok_def Let_def split: if_splits)
  with hd_dropWhile [OF this(1)] show ?thesis
    by (cases "dropWhile (\<lambda>c. c = d) s") auto
qed

lemma create_loop_fold:
  assumes "\<And>i. fst (alloc i)"
  shows "\<exists>env. create_loop alloc items str m =
    fold (\<lambda>(env, k, v) m. snd (snd (hashmapPut True env m k (Some v)))) env m \<and> map snd env = str_pairs str"
  using assms
proof (induction alloc items str m rule: create_loop.induct)
  case (1 alloc items str m)
  show ?case
  proof (cases "strtok (CHR '';'') str")
    case None
    then show ?thesis
      by (intro exI [of _ "[]"]) (simp add: create_loop.simps [of alloc items str] str_pairs.simps [of str])
  next
    case (Some t)
    obtain kv rest where t: "t = (kv, rest)" by fastforce
    with Some have ne: "kv \<noteq> []" using strtok_token_nonempty by blast
    show ?thesis
    proof (cases "split_pair kv")
      case None
      with "1.IH"(1) [OF Some t [symmetric] ne None] "1.prems" Some t ne show ?thesis
        by (simp add: create_loop.simps [of alloc items str] str_pairs.simps [of str])
    next
      case (Some p)
      obtain k v where p: "p = (k, v)" by fastforce
      from "1.IH"(2) [OF \<open>strtok (CHR '';'') str = Some t\<close> t [symmetric] ne Some p [symmetric]] "1.prems"
      obtain env where env: "create_loop alloc (Suc items) rest
          (snd (snd (hashmapPut (fst (alloc items)) (snd (alloc items)) m k (Some v)))) =
          fold (\<lambda>(env, k, v) m. snd (snd (hashmapPut True env m k (Some v)))) env
            (snd (snd (hashmapPut (fst (alloc items)) (snd (alloc items)) m k (Some v))))"
          "map snd env = str_pairs rest" by blast
      show ?thesis
        using env \<open>strtok (CHR '';'') str = Some t\<close> t ne Some p "1.prems"
        by (intro exI [of _ "(snd (alloc items), k, v) # env"])
          (simp add: create_loop.simps [of alloc items str] str_pairs.simps [of str])
    qed
  qed
qed

lemma fold_put_nonnull:
  assumes "hashmap_inv str_hash_fn str_eq m" "\<forall>k. abs_map m k \<noteq> Some NULL"
  shows "abs_map (fold (\<lambda>(env, k, v) m. snd (snd (hashmapPut True env m k (Some v)))) xs m) k \<noteq> Some NULL"
  using assms
proof (induction xs arbitrary: m)
  case Nil
  then show ?case by simp
next
  case (Cons x xs)
  obtain env k v where x: "x = (env, k, v)" by (cases x) auto
  obtain r err m' where p: "hashmapPut True env m k (Some v) = (r, err, m')" by (metis prod_cases3)
  note P = str_keys.put_spec [OF Cons.prems(1) p]
  with Cons show ?case by (simp add: x p)
qed

lemma str_parms_create_inv:
  assumes "str_parms_create a b c = Some sp"
  shows "sp_inv sp" "hashmapGet (sp_map sp) = Map.empty"
proof -
  obtain m where m: "hashmapCreate b c 5 str_hash_fn str_eq = Some m" "sp = \<lparr>sp_map = m\<rparr>"
    using assms by (auto simp: str_parms_create_def split: if_splits option.splits)
  obtain j where m': "m = \<lparr>buckets = replicate (2 ^ j) [], bucketCount = 2 ^ j, hash_fn = str_hash_fn,
      equals_fn = str_eq, lock_held = False, map_size = 0\<rparr>" using hashmapCreate_SomeD [OF m(1)] by blast
  then have e: "concat (buckets m) = []" and f: "equals_fn m = str_eq" "hash_fn m = str_hash_fn"
    by simp_all
  with hashmapCreate_wf [OF m(1)] have inv: "hashmap_inv str_hash_fn str_eq m"
    using f by (simp add: hashmap_inv_def)
  have "abs_map m k = None" for k unfolding abs_map_def e by simp
  with inv show "sp_inv sp" by (simp add: sp_inv_def m(2))
  show "hashmapGet (sp_map sp) = Map.empty"
    using str_keys.tbl.map_of_elems [OF inv] unfolding table_pairs_def e
    by (simp add: m(2) map_filter_simps)
qed

lemma create_str_spec:
  assumes "str_parms_create_str a b c d alloc str = Some sp" "\<forall>i. fst (alloc i)"
  shows "sp_inv sp \<and> hashmapGet (sp_map sp) = map_of (rev (str_pairs str))"
proof -
  obtain sp0 where sp0: "str_parms_create a b c = Some sp0"
      and sp: "sp = sp0\<lparr>sp_map := create_loop alloc 0 str (sp_map sp0)\<rparr>"
    using assms(1) by (auto simp: str_parms_create_str_def split: option.splits if_splits)
  obtain env where env: "create_loop alloc 0 str (sp_map sp0) =
      fold (\<lambda>(env, k, v) m. snd (snd (hashmapPut True env m k (Some v)))) env (sp_map sp0)"
      "map snd env = str_pairs str"
    using create_loop_fold [of alloc 0 str "sp_map sp0"] assms(2) by blast
  note I = str_parms_create_inv [OF sp0]
  then have inv: "hashmap_inv str_hash_fn str_eq (sp_map sp0)" "\<forall>k. abs_map (sp_map sp0) k \<noteq> Some NULL"
    by (simp_all add: sp_inv_def)
  show ?thesis
    using str_keys.tbl.fold_put [OF inv(1), of env] fold_put_nonnull [OF inv, of env] I(2) env
    by (simp add: sp sp_inv_def)
qed

section \<open>Writing a parameter string\<close>

definition pair_str :: "string \<times> string \<Rightarrow> string" where
  "pair_str p = fst p @ ''='' @ snd p"

fun join_pairs :: "(string \<times> string) list \<Rightarrow> string" where
  "join_pairs [] = ''''"
| "join_pairs (p # ps) = pair_str p @ concat (map (\<lambda>p. '';'' @ pair_str p) ps)"

lemma combine_chain:
  assumes "\<And>s. ok s" "\<forall>e \<in> set es. evalue e \<noteq> NULL"
  shows "forEach_chain (combine_strings ok) es (sp, acc) =
    (True, (sp, let ps = List.map_filter (\<lambda>e. map_option (Pair (ekey e)) (evalue e)) es
                in case acc of
                     Some s \<Rightarrow> Some (s @ concat (map (\<lambda>p. '';'' @ pair_str p) ps))
                   | None \<Rightarrow> if es = [] then NULL else Some (join_pairs ps)))"
  using assms(2)
proof (induction es arbitrary: acc)
  case Nil
  then show ?case by (simp add: map_filter_simps split: option.splits)
next
  case (Cons e es)
  then obtain v where "evalue e = Some v" by auto
  with Cons assms(1) show ?case
    by (cases acc) (simp_all add: combine_strings_def map_filter_simps pair_str_def Let_def)
qed

lemma sp_values_nonnull:
  assumes "sp_inv sp" "e \<in> set (concat (buckets (sp_map sp)))"
  shows "evalue e \<noteq> NULL"
proof -
  have "abs_map (sp_map sp) (ekey e) = Some (evalue e)"
    using assms str_keys.abs_map_Some_iff [of "sp_map sp" "ekey e" "evalue e"]
    by (simp only: sp_inv_def hashmap_inv_def) (auto simp: str_eq_def)
  then show ?thesis using assms(1) unfolding sp_inv_def by metis
qed

lemma table_pairs_length:
  assumes "sp_inv sp"
  shows "length (table_pairs (sp_map sp)) = length (concat (buckets (sp_map sp)))"
proof -
  have "filter (\<lambda>e. evalue e \<noteq> NULL) (concat (buckets (sp_map sp))) = concat (buckets (sp_map sp))"
    using sp_values_nonnull [OF assms] unfolding filter_id_conv by blast
  then show ?thesis using arg_cong [OF str_keys.table_pairs_keys [of "sp_map sp"], of length]
    by (simp only: length_map)
qed

lemma table_pairs_set:
  assumes "sp_inv sp"
  shows "p \<in> set (table_pairs (sp_map sp)) \<longleftrightarrow> hashmapGet (sp_map sp) (fst p) = Some (snd p)"
proof -
  from assms have inv: "hashmap_inv str_hash_fn str_eq (sp_map sp)" by (simp add: sp_inv_def)
  show ?thesis
    using map_of_eq_Some_iff [OF str_keys.distinct_table_pairs [OF inv], of "fst p" "snd p"]
    by (simp add: str_keys.tbl.map_of_elems [OF inv])
qed

lemma size_positive_iff:
  assumes "wf_hashmap m" "length (concat (buckets m)) < 2 ^ 32"
  shows "hashmapSize m > 0 \<longleftrightarrow> concat (buckets m) \<noteq> []"
proof -
  have "unat (map_size m) = length (concat (buckets m))"
    using assms(2) unfolding wf_hashmapD(5) [OF assms(1)]
    by (simp only: unsigned_of_nat) (simp add: take_bit_nat_eq_self del: length_concat)
  then show ?thesis
    by (metis hashmapSize_def length_0_conv unat_eq_zero word_gt_0)
qed

lemma to_str_join:
  assumes "sp_inv sp" "\<And>s. ok s" "length (concat (buckets (sp_map sp))) < 2 ^ 32"
  shows "str_parms_to_str ok sp = Some (join_pairs (table_pairs (sp_map sp)))"
proof -
  let ?es = "concat (buckets (sp_map sp))"
  have wf: "wf_hashmap (sp_map sp)" using assms(1) by (simp add: sp_inv_def hashmap_inv_def)
  have nn: "\<forall>e \<in> set ?es. evalue e \<noteq> NULL" using sp_values_nonnull [OF assms(1)] by blast
  have "hashmapForEach (sp_map \<circ> fst) (combine_strings ok) (sp, NULL) =
      snd (forEach_chain (combine_strings ok) ?es (sp, NULL))"
    using hashmapForEach_concat [of "sp_map \<circ> fst" "combine_strings ok" "(sp, NULL)"] wf_hashmapD(1) [OF wf]
    by (simp add: combine_strings_def Let_def)
  with combine_chain [of ok ?es sp NULL, OF assms(2) nn] size_positive_iff [OF wf assms(3)] show ?thesis
    by (auto simp: str_parms_to_str_def table_pairs_def map_filter_simps Let_def simp del: concat_eq_Nil_conv)
qed

section \<open>Round trip\<close>

definition printable_pair :: "string \<times> string \<Rightarrow> bool" where
  "printable_pair p \<longleftrightarrow>
     fst p \<noteq> [] \<and> CHR '';'' \<notin> set (fst p) \<and> CHR ''='' \<notin> set (fst p) \<and> CHR '';'' \<notin> set (snd p)"

lemma split_pair_str:
  assumes "printable_pair p"
  shows "split_pair (pair_str p) = Some p"
  using assms strchr_append [of "CHR ''=''" "fst p" "snd p"]
  by (auto simp: split_pair_def pair_str_def printable_pair_def)

lemma pair_str_chars: "printable_pair p \<Longrightarrow> CHR '';'' \<notin> set (pair_str p) \<and> pair_str p \<noteq> []"
  by (auto simp: pair_str_def printable_pair_def)

lemma strtok_token:
  assumes "d \<notin> set tok" "tok \<noteq> []"
  shows "strtok d (tok @ d # rest) = Some (tok, rest)" "strtok d tok = Some (tok, [])"
proof -
  obtain c cs where c: "tok = c # cs" "c \<noteq> d" using assms by (cases tok) auto
  then have a: "dropWhile (\<lambda>x. x = d) (tok @ ys) = tok @ ys" for ys by simp
  have b: "takeWhile (\<lambda>x. x \<noteq> d) (tok @ d # ys) = tok" "dropWhile (\<lambda>x. x \<noteq> d) (tok @ d # ys) = d # ys" for ys
    using assms(1) by (induction tok) auto
  have e: "takeWhile (\<lambda>x. x \<noteq> d) tok = tok" "dropWhile (\<lambda>x. x \<noteq> d) tok = []"
    using assms(1) by (auto simp: takeWhile_eq_all_conv)
  show "strtok d (tok @ d # rest) = Some (tok, rest)"
    by (simp only: strtok_def Let_def a b) simp
  show "strtok d tok = Some (tok, [])"
    using a [of "[]"] assms(2) by (simp only: strtok_def Let_def append_Nil2 e) simp
qed

lemma str_pairs_join: "\<forall>p \<in> set ps. printable_pair p \<Longrightarrow> str_pairs (join_pairs ps) = ps"
proof (induction ps)
  case Nil
  show ?case by (subst str_pairs.simps) (simp add: strtok_def)
next
  case (Cons p ps)
  then have p: "CHR '';'' \<notin> set (pair_str p)" "pair_str p \<noteq> []" "split_pair (pair_str p) = Some p"
    using pair_str_chars split_pair_str by auto
  have nil: "str_pairs [] = []" by (subst str_pairs.simps) (simp add: strtok_def)
  show ?case
  proof (cases ps)
    case Nil
    with p strtok_token(2) [OF p(1,2)] nil show ?thesis
      by (subst str_pairs.simps) simp
  next
    case (Cons q qs)
    have j: "join_pairs (p # ps) = pair_str p @ CHR '';'' # join_pairs ps" by (simp add: Cons)
    have "str_pairs (join_pairs ps) = ps" using Cons.IH Cons.prems by simp
    with p strtok_token(1) [OF p(1,2)] show ?thesis
      unfolding j by (subst str_pairs.simps) simp
  qed
qed

lemma create_str_granted:
  "\<exists>sp. str_parms_create_str True True True True alloc str = Some sp"
proof -
  have "grow_bucketCount (minimumBucketCount 5) 1 = Some 8"
    by (simp add: minimumBucketCount_def grow_bucketCount.simps push_bit_eq_mult)
  then show ?thesis
    by (simp add: str_parms_create_str_def str_parms_create_def hashmapCreate_def calloc_ok_def)
qed

section \<open>Deleting pairs\<close>

abbreviation sp_remove :: "str_parms \<Rightarrow> string \<Rightarrow> str_parms" where
  "sp_remove sp key \<equiv> sp\<lparr>sp_map := snd (hashmapRemove (sp_map sp) key)\<rparr>"

lemma sp_remove_inv:
  assumes "sp_inv sp"
  shows "sp_inv (sp_remove sp key)" "hashmapGet (sp_map (sp_remove sp key)) = (hashmapGet (sp_map sp))(key := None)"
proof -
  from assms have inv: "hashmap_inv str_hash_fn str_eq (sp_map sp)" by (simp add: sp_inv_def)
  obtain r m' where p: "hashmapRemove (sp_map sp) key = (r, m')" by fastforce
  from str_keys.remove_spec [OF inv p] assms show "sp_inv (sp_remove sp key)"
    by (simp add: sp_inv_def p)
  from str_keys.tbl.get_delete [OF inv]
  show "hashmapGet (sp_map (sp_remove sp key)) = (hashmapGet (sp_map sp))(key := None)" by simp
qed

lemma remove_chain_key:
  "forEach_chain (remove_pair (Some k)) es sp =
     (if k \<in> ekey ` set es then (False, sp_remove sp k) else (True, sp))"
  by (induction es) (auto simp: remove_pair_def Let_def)

lemma remove_buckets_key:
  "forEach_buckets sp_map (remove_pair (Some k)) is sp =
     (if \<exists>i \<in> set is. k \<in> ekey ` set (buckets (sp_map sp) ! i) then sp_remove sp k else sp)"
  by (induction "is") (auto simp: remove_chain_key)

lemma image_set_concat_nth:
  "(\<exists>i \<in> set [0..<length bs]. x \<in> f ` set (bs ! i)) \<longleftrightarrow> x \<in> f ` set (concat bs)"
proof -
  have "(\<exists>i \<in> set [0..<length bs]. x \<in> f ` set (bs ! i)) \<longleftrightarrow> (\<exists>c \<in> set bs. x \<in> f ` set c)"
    by (simp add: Bex_def in_set_conv_nth del: image_iff) blast
  then show ?thesis by auto
qed

lemma str_parms_del_key:
  assumes "sp_inv sp"
  shows "sp_inv (str_parms_del sp (Some k)) \<and>
    hashmapGet (sp_map (str_parms_del sp (Some k))) = (hashmapGet (sp_map sp))(k := None)"
proof -
  let ?m = "sp_map sp"
  from assms have inv: "hashmap_inv str_hash_fn str_eq ?m" by (simp add: sp_inv_def)
  then have len: "length (buckets ?m) = unat (bucketCount ?m)"
    using wf_hashmapD(1) by (auto simp: hashmap_inv_def)
  have "(\<exists>i \<in> set [0..<unat (bucketCount ?m)]. k \<in> ekey ` set (buckets ?m ! i)) \<longleftrightarrow>
      k \<in> ekey ` set (concat (buckets ?m))"
    unfolding len [symmetric] by (rule image_set_concat_nth)
  then have d: "str_parms_del sp (Some k) =
      (if k \<in> ekey ` set (concat (buckets ?m)) then sp_remove sp k else sp)"
    by (simp only: str_parms_del_def hashmapForEach_def remove_buckets_key)
  show ?thesis
  proof (cases "k \<in> ekey ` set (concat (buckets ?m))")
    case True
    with sp_remove_inv [OF assms, of k] show ?thesis unfolding d by (simp only: if_True simp_thms)
  next
    case False
    have none: "hashmapGet ?m k = None"
    proof (rule ccontr)
      assume "hashmapGet ?m k \<noteq> None"
      then obtain v where "hashmapGet ?m k = Some v" by blast
      with False str_keys.get_Some_iff [OF inv, of k v] show False by blast
    qed
    then have "(hashmapGet ?m)(k := None) = hashmapGet ?m" by (rule fun_upd_idem)
    with False assms show ?thesis unfolding d by (simp only: if_False simp_thms)
  qed
qed

text \<open>Deleting with a NULL key removes every pair, one bucket after the other.\<close>

lemma remove_chain_all:
  "forEach_chain (remove_pair NULL) es sp = (True, fold (\<lambda>e sp. sp_remove sp (ekey e)) es sp)"
  by (induction es arbitrary: sp) (auto simp: remove_pair_def Let_def)

lemma sp_remove_bucketCount: "bucketCount (sp_map (sp_remove sp k)) = bucketCount (sp_map sp)"
  by (simp add: hashmapRemove_def Let_def split: option.splits)

lemma fold_sp_remove:
  assumes "sp_inv sp"
  shows "sp_inv (fold (\<lambda>e sp. sp_remove sp (ekey e)) es sp) \<and>
    bucketCount (sp_map (fold (\<lambda>e sp. sp_remove sp (ekey e)) es sp)) = bucketCount (sp_map sp) \<and>
    hashmapGet (sp_map (fold (\<lambda>e sp. sp_remove sp (ekey e)) es sp)) k =
      (if k \<in> ekey ` set es then NULL else hashmapGet (sp_map sp) k)"
  using assms
proof (induction es arbitrary: sp)
  case Nil
  then show ?case by simp
next
  case (Cons e es)
  note r = sp_remove_inv [OF Cons.prems, of "ekey e"]
  from Cons.IH [OF r(1)] show ?case
    unfolding fold_Cons comp_apply r(2) sp_remove_bucketCount by auto
qed

abbreviation sp_index :: "str_parms \<Rightarrow> string \<Rightarrow> nat" where
  "sp_index sp k \<equiv> calculateIndex (bucketCount (sp_map sp)) (hashKey (sp_map sp) k)"

lemma sp_index_cong:
  "sp_inv sp \<Longrightarrow> sp_inv sp' \<Longrightarrow> bucketCount (sp_map sp') = bucketCount (sp_map sp) \<Longrightarrow>
     sp_index sp' k = sp_index sp k"
  by (simp add: sp_inv_def hashmap_inv_def hashKey_def)

lemma sp_get_in_bucket:
  assumes "sp_inv sp" "hashmapGet (sp_map sp) k \<noteq> NULL"
  shows "k \<in> ekey ` set (buckets (sp_map sp) ! sp_index sp k)"
proof -
  from assms(1) have inv: "hashmap_inv str_hash_fn str_eq (sp_map sp)" by (simp add: sp_inv_def)
  then have wf: "wf_hashmap (sp_map sp)" "hash_fn (sp_map sp) = str_hash_fn" by (simp_all add: hashmap_inv_def)
  from assms(2) obtain v where v: "hashmapGet (sp_map sp) k = Some v" by blast
  with str_keys.get_Some_iff [OF inv] obtain e where
    e: "e \<in> set (concat (buckets (sp_map sp)))" "ekey e = k" by blast
  have "str_eq (ekey e) k" using e(2) by (simp add: str_eq_def)
  from str_keys.in_own_bucket [OF wf e(1) this] e(2) show ?thesis by (metis image_eqI)
qed

lemma remove_buckets_all:
  assumes "sp_inv sp"
  shows "sp_inv (forEach_buckets sp_map (remove_pair NULL) is sp) \<and>
    (sp_index sp k \<in> set is \<or> hashmapGet (sp_map sp) k = NULL \<longrightarrow>
      hashmapGet (sp_map (forEach_buckets sp_map (remove_pair NULL) is sp)) k = NULL)"
  using assms
proof (induction "is" arbitrary: sp)
  case Nil
  then show ?case by simp
next
  case (Cons i "is")
  define sp' where "sp' = fold (\<lambda>e sp. sp_remove sp (ekey e)) (buckets (sp_map sp) ! i) sp"
  have step: "forEach_buckets sp_map (remove_pair NULL) (i # is) sp = forEach_buckets sp_map (remove_pair NULL) is sp'"
    by (simp add: remove_chain_all sp'_def)
  have inv: "sp_inv sp'" and bc: "bucketCount (sp_map sp') = bucketCount (sp_map sp)"
    and get: "hashmapGet (sp_map sp') k =
      (if k \<in> ekey ` set (buckets (sp_map sp) ! i) then NULL else hashmapGet (sp_map sp) k)"
    using fold_sp_remove [OF Cons.prems, where es = "buckets (sp_map sp) ! i" and k = k, folded sp'_def] by blast+
  have gone: "hashmapGet (sp_map sp') k = NULL" if "sp_index sp k = i \<or> hashmapGet (sp_map sp) k = NULL"
    using that get sp_get_in_bucket [OF Cons.prems, of k] by (metis (full_types))
  show ?case
    unfolding step using Cons.IH [OF inv] sp_index_cong [OF Cons.prems inv bc, of k] gone by auto
qed

lemma str_parms_del_all:
  assumes "sp_inv sp"
  shows "sp_inv (str_parms_del sp NULL) \<and> concat (buckets (sp_map (str_parms_del sp NULL))) = []"
proof -
  let ?m = "sp_map sp" and ?sp = "str_parms_del sp NULL"
  have wf: "wf_hashmap ?m" using assms by (simp add: sp_inv_def hashmap_inv_def)
  have "sp_index sp k \<in> set [0..<unat (bucketCount ?m)]" for k
    using str_keys.index_in_range [OF wf] wf_hashmapD(1) [OF wf] by simp
  with remove_buckets_all [OF assms, of "[0..<unat (bucketCount ?m)]"]
  have inv: "sp_inv ?sp" and get: "hashmapGet (sp_map ?sp) k = NULL" for k
    unfolding str_parms_del_def hashmapForEach_def by blast+
  have "e \<notin> set (concat (buckets (sp_map ?sp)))" for e
  proof
    assume e: "e \<in> set (concat (buckets (sp_map ?sp)))"
    with sp_values_nonnull [OF inv] obtain v where "evalue e = Some v" by blast
    with e str_keys.get_Some_iff [of "sp_map ?sp" "ekey e" v] inv get [of "ekey e"] show False
      unfolding sp_inv_def by auto
  qed
  then have "concat (buckets (sp_map ?sp)) = []" using hd_in_set by metis
  with inv show ?thesis by (rule conjI)
qed

section \<open>Properties\<close>



text \<open>
  C12. Round trip: printing a table and parsing the text gives a table with the same
  contents, provided the keys are non-empty and free of the separators and the values are free
  of semicolons.
\<close>

theorem to_str_create_str:
  assumes "sp_inv sp" "length (concat (buckets (sp_map sp))) < 2 ^ 32"
    and "\<forall>p \<in> set (table_pairs (sp_map sp)). printable_pair p"
    and "\<forall>s. ok s" and "\<forall>i. fst (alloc i)"
  shows "\<exists>s sp'. str_parms_to_str ok sp = Some s \<and>
    str_parms_create_str True True True True alloc s = Some sp' \<and>
    hashmapGet (sp_map sp') = hashmapGet (sp_map sp)"
proof -
  let ?ps = "table_pairs (sp_map sp)"
  from assms(1) have inv: "hashmap_inv str_hash_fn str_eq (sp_map sp)" by (simp add: sp_inv_def)
  have "map_of (rev ?ps) = map_of ?ps"
    using str_keys.distinct_table_pairs [OF inv]
    by (intro iffD2 [OF map_of_inject_set]) (simp_all flip: rev_map)
  then have "map_of (rev (str_pairs (join_pairs ?ps))) = hashmapGet (sp_map sp)"
    using str_keys.tbl.map_of_elems [OF inv] by (simp add: str_pairs_join [OF assms(3)])
  moreover obtain sp' where "str_parms_create_str True True True True alloc (join_pairs ?ps) = Some sp'"
    using create_str_granted by blast
  ultimately show ?thesis
    using to_str_join [OF assms(1) spec [OF assms(4)] assms(2)] create_str_spec [OF _ assms(5)]
    by (intro exI [of _ "join_pairs ?ps"] exI [of _ sp']) simp
qed

theorem to_str_create_str_witness:
  "\<exists>sp. hashmapGet (sp_map sp) = [''a'' \<mapsto> ''1''] \<and>
    (\<exists>s sp'. str_parms_to_str (\<lambda>_. True) sp = Some s \<and>
      str_parms_create_str True True True True (\<lambda>_. (True, True)) s = Some sp' \<and>
      hashmapGet (sp_map sp') = hashmapGet (sp_map sp))"
proof -
  have "str_pairs ''a=1'' = [(''a'', ''1'')]"
    using str_pairs_join [of "[(''a'', ''1'')]"] by (simp add: printable_pair_def pair_str_def)
  with create_str_granted [of "\<lambda>_. (True, True)" "''a=1''"] create_str_spec
  obtain sp where sp: "sp_inv sp" and get: "hashmapGet (sp_map sp) = [''a'' \<mapsto> ''1'']" by fastforce
  have ps: "p = (''a'', ''1'')" if "p \<in> set (table_pairs (sp_map sp))" for p
    using that table_pairs_set [OF sp, of p] by (auto simp: get prod_eq_iff split: if_splits)
  have "distinct (table_pairs (sp_map sp))"
    using str_keys.distinct_table_pairs [of "sp_map sp"] sp by (auto simp: sp_inv_def distinct_map)
  then have "length (table_pairs (sp_map sp)) = card (set (table_pairs (sp_map sp)))"
    by (simp add: distinct_card)
  also have "\<dots> \<le> card {(''a'', ''1'')}" 
    using ps by (intro card_mono subsetI) (simp, blast)
  finally have "length (concat (buckets (sp_map sp))) < 2 ^ 32" using table_pairs_length [OF sp] by simp
  moreover have "\<forall>p \<in> set (table_pairs (sp_map sp)). printable_pair p"
  proof
    fix p
    assume "p \<in> set (table_pairs (sp_map sp))"
    then have "p = (''a'', ''1'')" by (rule ps)
    then show "printable_pair p" by (simp add: printable_pair_def)
  qed
  ultimately show ?thesis
    using to_str_create_str [OF sp, of "\<lambda>_. True" "\<lambda>_. (True, True)"] get by (intro exI [of _ sp]) simp
qed

text \<open>
  C18. Deletion: with a key, exactly that pair goes; with a NULL key the table is emptied, so
  \<open>str_parms_destroy\<close> leaves no node behind when it frees the table.
\<close>

theorem str_parms_del_correct:
  assumes "sp_inv sp"
  shows "sp_inv (str_parms_del sp (Some k)) \<and>
    hashmapGet (sp_map (str_parms_del sp (Some k))) = (hashmapGet (sp_map sp))(k := None) \<and>
    sp_inv (str_parms_del sp NULL) \<and> concat (buckets (sp_map (str_parms_del sp NULL))) = [] \<and>
    str_parms_destroy sp = []"
  using str_parms_del_key [OF assms, of k] str_parms_del_all [OF assms]
  by (simp add: str_parms_destroy_def hashmapFree_def str_parms_del_def)

theorem str_parms_del_correct_witness:
  "\<exists>sp. hashmapGet (sp_map sp) ''a'' = Some ''1'' \<and>
    hashmapGet (sp_map (str_parms_del sp (Some ''a''))) ''a'' = NULL \<and> str_parms_destroy sp = []"
proof -
  have "str_pairs ''a=1'' = [(''a'', ''1'')]"
    using str_pairs_join [of "[(''a'', ''1'')]"] by (simp add: printable_pair_def pair_str_def)
  with create_str_granted [of "\<lambda>_. (True, True)" "''a=1''"] create_str_spec
  obtain sp where sp: "sp_inv sp" and get: "hashmapGet (sp_map sp) = [''a'' \<mapsto> ''1'']" by fastforce
  from str_parms_del_correct [OF sp, of "''a''"] get show ?thesis by (intro exI [of _ sp]) simp
qed

lemma add_str_spec:
  assumes "sp_inv sp" "errno0 \<noteq> Some ENOMEM"
  shows "\<exists>sp'. str_parms_add_str errno0 True mb sp key val = (None, sp', False) \<and> sp_inv sp' \<and>
    hashmapGet (sp_map sp') = (hashmapGet (sp_map sp))(key \<mapsto> val)"
proof -
  from assms(1) have inv: "hashmap_inv str_hash_fn str_eq (sp_map sp)" by (simp add: sp_inv_def)
  obtain r err m' where p: "hashmapPut True mb (sp_map sp) key (Some val) = (r, err, m')"
    by (metis prod_cases3)
  note S = str_keys.put_spec [OF inv p]
  from S(4) have e: "err = None" and a: "abs_map m' = (\<lambda>k'. if str_eq key k' then Some (Some val) else abs_map (sp_map sp) k')"
    by simp_all
  have "sp_inv (sp\<lparr>sp_map := m'\<rparr>)" using S(1) assms(1) by (simp add: sp_inv_def a)
  with str_keys.tbl.get_put [OF inv, of mb key val] e assms(2) show ?thesis
    by (simp add: str_parms_add_str_def p Let_def)
qed



text \<open>
  C20. \<open>str_parms_add_str\<close> asks \<open>errno\<close> although nothing failed: when \<open>errno\<close> is
  ENOMEM from some earlier call and the key is new, the pair is in the table, yet ENOMEM is
  returned and the copies of key and value, which the table now refers to, are freed.
\<close>

theorem add_str_stale_errno:
  assumes "sp_inv sp" "\<not> hashmapContainsKey (sp_map sp) key"
  shows "\<exists>sp'. str_parms_add_str (Some ENOMEM) True mb sp key val = (Some ENOMEM, sp', True) \<and>
    hashmapGet (sp_map sp') key = Some val"
proof -
  from assms(1) have inv: "hashmap_inv str_hash_fn str_eq (sp_map sp)" by (simp add: sp_inv_def)
  then have wf: "wf_hashmap (sp_map sp)" "hash_fn (sp_map sp) = str_hash_fn" "equals_fn (sp_map sp) = str_eq"
    by (simp_all add: hashmap_inv_def)
  obtain r err m' where p: "hashmapPut True mb (sp_map sp) key (Some val) = (r, err, m')"
    by (metis prod_cases3)
  note S = str_keys.put_spec [OF inv p]
  from assms(2) S(2) have "r = NULL" using str_keys.hashmapGet_abs [OF wf] by simp
  with S(4) str_keys.tbl.get_put [OF inv, of mb key val] show ?thesis
    by (simp add: str_parms_add_str_def p Let_def)
qed

theorem add_str_stale_errno_witness:
  "\<exists>sp sp'. str_parms_add_str (Some ENOMEM) True True sp ''k'' ''v'' = (Some ENOMEM, sp', True) \<and>
    hashmapGet (sp_map sp') ''k'' = Some ''v''"
proof -
  obtain sp where sp: "str_parms_create True True True = Some sp"
    using create_str_granted [of "\<lambda>_. (True, True)" "[]"]
    by (auto simp: str_parms_create_str_def split: option.splits)
  note I = str_parms_create_inv [OF sp]
  then have wf: "wf_hashmap (sp_map sp)" "hash_fn (sp_map sp) = str_hash_fn" "equals_fn (sp_map sp) = str_eq"
    by (simp_all add: sp_inv_def hashmap_inv_def)
  have "abs_map (sp_map sp) ''k'' = None"
    using I str_keys.hashmapGet_abs(1) [OF wf, of "''k''"]
    by (cases "abs_map (sp_map sp) ''k''") (auto simp: sp_inv_def)
  then have "\<not> hashmapContainsKey (sp_map sp) ''k''" using str_keys.hashmapGet_abs [OF wf] by simp
  from add_str_stale_errno [OF I(1) this, of True "''v''"] show ?thesis by blast
qed

end
