(* ===== verification/C_Memory.thy ===== *)
theory C_Memory
  imports C_Prelude "HOL-Library.Monad_Syntax"
begin

text \<open>
  Buffers of C programs: arrays as lists of fixed length, accesses that fault outside the
  array, and the little-endian byte image of machine words. \<open>Fault\<close> stands for undefined
  behaviour, so a theorem that an operation does not fault is a memory-safety theorem.
\<close>

unbundle bit_operations_syntax

type_synonym 'a exec = "'a option"

abbreviation Fault :: "'a exec" where
  "Fault \<equiv> None"

abbreviation Ret :: "'a \<Rightarrow> 'a exec" where
  "Ret \<equiv> Some"

named_theorems mem_simps \<open>rules that run accesses known to be in range\<close>

section \<open>Reading and writing ranges\<close>

definition read_at :: "nat \<Rightarrow> nat \<Rightarrow> 'a list \<Rightarrow> 'a list exec" where
  "read_at off n buf = (if off + n \<le> length buf then Ret (take n (drop off buf)) else Fault)"

definition write_at :: "nat \<Rightarrow> 'a list \<Rightarrow> 'a list \<Rightarrow> 'a list exec" where
  "write_at off src buf =
     (if off + length src \<le> length buf
      then Ret (take off buf @ src @ drop (off + length src) buf) else Fault)"

text \<open>\<open>memcpy(dst + doff, src, n)\<close> between two arrays, \<open>memmove\<close> within one.\<close>

definition memcpy :: "'a list \<Rightarrow> nat \<Rightarrow> 'a list \<Rightarrow> nat \<Rightarrow> 'a list exec" where
  "memcpy dst doff src n = do { bytes \<leftarrow> read_at 0 n src; write_at doff bytes dst }"

definition memmove :: "'a list \<Rightarrow> nat \<Rightarrow> nat \<Rightarrow> nat \<Rightarrow> 'a list exec" where
  "memmove buf to from n = do { bytes \<leftarrow> read_at from n buf; write_at to bytes buf }"

definition load :: "'a list \<Rightarrow> nat \<Rightarrow> 'a exec" where
  "load buf i = (if i < length buf then Ret (buf ! i) else Fault)"

definition store :: "'a list \<Rightarrow> nat \<Rightarrow> 'a \<Rightarrow> 'a list exec" where
  "store buf i v = (if i < length buf then Ret (buf[i := v]) else Fault)"

lemma read_at_ok [mem_simps]: "off + n \<le> length buf \<Longrightarrow> read_at off n buf = Ret (take n (drop off buf))"
  by (simp add: read_at_def)

lemma write_at_ok [mem_simps]:
  "off + length src \<le> length buf \<Longrightarrow>
     write_at off src buf = Ret (take off buf @ src @ drop (off + length src) buf)"
  by (simp add: write_at_def)

lemma load_ok [mem_simps]: "i < length buf \<Longrightarrow> load buf i = Ret (buf ! i)"
  by (simp add: load_def)

lemma store_ok [mem_simps]: "i < length buf \<Longrightarrow> store buf i v = Ret (buf[i := v])"
  by (simp add: store_def)

lemma memcpy_ok [mem_simps]:
  "n \<le> length src \<Longrightarrow> doff + n \<le> length dst \<Longrightarrow>
     memcpy dst doff src n = Ret (take doff dst @ take n src @ drop (doff + n) dst)"
  by (simp add: memcpy_def read_at_def write_at_def)

lemma memmove_ok [mem_simps]:
  "from + n \<le> length buf \<Longrightarrow> to + n \<le> length buf \<Longrightarrow>
     memmove buf to from n = Ret (take to buf @ take n (drop from buf) @ drop (to + n) buf)"
  by (simp add: memmove_def read_at_def write_at_def)

lemma write_at_length: "write_at off src buf = Ret buf' \<Longrightarrow> length buf' = length buf"
  by (auto simp: write_at_def split: if_splits)

text \<open>A write is read back, and leaves ranges that do not meet it as they were.\<close>

lemma read_written:
  assumes "off + length src \<le> length buf"
  shows "take (length src) (drop off (take off buf @ src @ drop (off + length src) buf)) = src"
  using assms by simp

lemma read_before:
  assumes "a + n \<le> off" "off \<le> length buf"
  shows "take n (drop a (take off buf @ xs)) = take n (drop a buf)"
  using assms by (simp add: take_drop)

section \<open>Little-endian words\<close>

definition le32 :: "u32 \<Rightarrow> u8 list" where
  "le32 w = [ucast w, ucast (drop_bit 8 w), ucast (drop_bit 16 w), ucast (drop_bit 24 w)]"

definition of_le32 :: "u8 list \<Rightarrow> u32" where
  "of_le32 bs = ucast (bs ! 0) OR push_bit 8 (ucast (bs ! 1)) OR push_bit 16 (ucast (bs ! 2)) OR push_bit 24 (ucast (bs ! 3))"

definition le16 :: "u16 \<Rightarrow> u8 list" where
  "le16 w = [ucast w, ucast (drop_bit 8 w)]"

definition of_le16 :: "u8 list \<Rightarrow> u16" where
  "of_le16 bs = ucast (bs ! 0) OR push_bit 8 (ucast (bs ! 1))"

lemma length_le32 [simp]: "length (le32 w) = 4"
  by (simp add: le32_def)

lemma length_le16 [simp]: "length (le16 w) = 2"
  by (simp add: le16_def)

lemma of_le32_le32 [simp]: "of_le32 (le32 w @ rest) = w"
proof (rule bit_word_eqI)
  fix n
  assume "n < LENGTH(32)"
  then consider "n < 8" | "8 \<le> n" "n < 16" | "16 \<le> n" "n < 24" | "24 \<le> n" "n < 32" by fastforce
  then show "bit (of_le32 (le32 w @ rest)) n \<longleftrightarrow> bit w n"
    by cases (auto simp: of_le32_def le32_def bit_simps)
qed

lemma of_le16_le16 [simp]: "of_le16 (le16 w @ rest) = w"
  by (rule bit_word_eqI) (auto simp: of_le16_def le16_def bit_simps)

lemma of_le32_le32_exact [simp]: "of_le32 (le32 w) = w"
  using of_le32_le32 [of w "[]"] by simp

lemma of_le16_le16_exact [simp]: "of_le16 (le16 w) = w"
  using of_le16_le16 [of w "[]"] by simp

section \<open>Loops that may fault\<close>

fun map_exec :: "('a \<Rightarrow> 'b exec) \<Rightarrow> 'a list \<Rightarrow> 'b list exec" where
  "map_exec f [] = Ret []"
| "map_exec f (x # xs) = do { y \<leftarrow> f x; ys \<leftarrow> map_exec f xs; Ret (y # ys) }"

lemma map_exec_Ret: "(\<And>x. x \<in> set xs \<Longrightarrow> f x = Ret (g x)) \<Longrightarrow> map_exec f xs = Ret (map g xs)"
  by (induction xs) auto

section \<open>32-bit arithmetic without wrap-around\<close>

lemma unat_add_u32: "unat a + unat b < 2 ^ 32 \<Longrightarrow> unat (a + b :: u32) = unat a + unat b"
  using unat_add_lem [of a b] by simp

lemma unat_sub_u32: "unat b \<le> unat a \<Longrightarrow> unat (a - b :: u32) = unat a - unat b"
  by (simp add: unat_sub word_le_nat_alt)

lemma unat_mult_u32: "unat a * unat b < 2 ^ 32 \<Longrightarrow> unat (a * b :: u32) = unat a * unat b"
  using unat_mult_lem [of a b] by simp

lemma unat_add_u32_mod: "unat (a + b :: u32) = (unat a + unat b) mod 2 ^ 32"
  by (simp add: unat_word_ariths)

lemma unat_less_u32: "unat (a :: u32) < 2 ^ 32"
  using unsigned_less [of a] by simp

lemmas u32_nat = unat_add_u32 unat_sub_u32 unat_mult_u32

lemma le32_of_le32: 
  assumes "length bs = 4"
  shows "le32 (of_le32 bs) = bs"
proof -
  obtain a b c d where bs: "bs = [a, b, c, d]"
    using assms by (auto simp: numeral_eq_Suc length_Suc_conv)
  have "ucast (of_le32 bs) = a" "ucast (drop_bit 8 (of_le32 bs)) = b"
    "ucast (drop_bit 16 (of_le32 bs)) = c" "ucast (drop_bit 24 (of_le32 bs)) = d"
    by (rule bit_word_eqI, auto simp: bs of_le32_def bit_simps dest: bit_imp_le_length)+
  then show ?thesis by (simp add: le32_def bs)
qed

lemma sint_small_u32:
  assumes "unat (w :: u32) < 2 ^ 31"
  shows "sint w = int (unat w)"
proof -
  have "int (unat w) < int (2 ^ 31)" using assms by (simp only: of_nat_less_iff)
  then have "uint w < 2 ^ 31" by simp
  moreover have "- (2 ^ 31) \<le> uint w" using order_trans [OF _ uint_ge_0 [of w]] by simp
  ultimately have "sint w = uint w" using signed_take_bit_int_eq_self [of 31 "uint w"] by (simp add: sint_uint)
  then show ?thesis by simp
qed

lemma sless_0_small:
  assumes "unat (w :: u32) < 2 ^ 31"
  shows "0 <s w \<longleftrightarrow> unat w > 0"
  unfolding word_sless_alt sint_small_u32 [OF assms] by (simp only: sint_0 of_nat_0_less_iff)

lemma uint_nat_small: "n < 2 ^ 32 \<Longrightarrow> uint (of_nat n :: u32) = int n"
  by (simp add: unsigned_of_nat take_bit_nat_eq_self)

end
