(* ===== verification/Camera_Tags.thy ===== *)
theory Camera_Tags
  imports C_Memory
begin

text \<open>
  The tag tables of the camera metadata library:
  \<open>camera_metadata_tags.h\<close> (sections and tags, in the order of the enumerations) and
  \<open>camera_metadata_tag_info.c\<close> (name and type of each tag, as designated initialisers),
  with the look-up functions of \<open>camera_metadata.c\<close> that use them.
\<close>

unbundle bit_operations_syntax

section \<open>Types\<close>

abbreviation TYPE_BYTE :: u8 where "TYPE_BYTE \<equiv> 0"

abbreviation TYPE_INT32 :: u8 where "TYPE_INT32 \<equiv> 1"

abbreviation TYPE_FLOAT :: u8 where "TYPE_FLOAT \<equiv> 2"

abbreviation TYPE_INT64 :: u8 where "TYPE_INT64 \<equiv> 3"

abbreviation TYPE_DOUBLE :: u8 where "TYPE_DOUBLE \<equiv> 4"

abbreviation TYPE_RATIONAL :: u8 where "TYPE_RATIONAL \<equiv> 5"

abbreviation NUM_TYPES :: u8 where "NUM_TYPES \<equiv> 6"

abbreviation VENDOR_SECTION :: u32 where "VENDOR_SECTION \<equiv> 0x8000"

abbreviation ANDROID_SECTION_COUNT :: u32 where "ANDROID_SECTION_COUNT \<equiv> 32"

section \<open>Sections and their tags, by position\<close>

definition camera_metadata_section_names :: "string list" where
  "camera_metadata_section_names = [
     ''android.request'',
     ''android.lens'',
     ''android.lens.info'',
     ''android.sensor'',
     ''android.sensor.info'',
     ''android.flash'',
     ''android.flash.info'',
     ''android.hotPixel'',
     ''android.hotPixel.info'',
     ''android.demosaic'',
     ''android.demosaic.info'',
     ''android.noiseReduction'',
     ''android.noiseReduction.info'',
     ''android.shadingCorrection'',
     ''android.shadingCorrection.info'',
     ''android.geometricCorrection'',
     ''android.geometricCorrection.info'',
     ''android.colorCorrection'',
     ''android.colorCorrection.info'',
     ''android.tonemap'',
     ''android.tonemap.info'',
     ''android.edge'',
     ''android.edge.info'',
     ''android.scaler'',
     ''android.scaler.info'',
     ''android.jpeg'',
     ''android.jpeg.info'',
     ''android.statistics'',
     ''android.statistics.info'',
     ''android.control'',
     ''android.control.info'',
     ''android.quirks.info'']"

text \<open>
  The enumeration of tags: one list per section, the constants between its \<open>_START\<close> and its
  \<open>_END\<close> in order. The position of a tag is its value minus the start of the section.
\<close>

definition section_tags :: "string list list" where
  "section_tags = [
     [''ANDROID_REQUEST_ID'', ''ANDROID_REQUEST_TYPE'', ''ANDROID_REQUEST_METADATA_MODE'',
      ''ANDROID_REQUEST_OUTPUT_STREAMS'', ''ANDROID_REQUEST_INPUT_STREAMS'',
      ''ANDROID_REQUEST_FRAME_COUNT''],
     [''ANDROID_LENS_FOCUS_DISTANCE'', ''ANDROID_LENS_APERTURE'', ''ANDROID_LENS_FOCAL_LENGTH'',
      ''ANDROID_LENS_FILTER_DENSITY'', ''ANDROID_LENS_OPTICAL_STABILIZATION_MODE'',
      ''ANDROID_LENS_FOCUS_RANGE''],
     [''ANDROID_LENS_MINIMUM_FOCUS_DISTANCE'', ''ANDROID_LENS_HYPERFOCAL_DISTANCE'',
      ''ANDROID_LENS_AVAILABLE_FOCAL_LENGTHS'', ''ANDROID_LENS_AVAILABLE_APERTURES'',
      ''ANDROID_LENS_AVAILABLE_FILTER_DENSITY'', ''ANDROID_LENS_AVAILABLE_OPTICAL_STABILIZATION'',
      ''ANDROID_LENS_SHADING_MAP_SIZE'', ''ANDROID_LENS_SHADING_MAP'',
      ''ANDROID_LENS_GEOMETRIC_CORRECTION_MAP_SIZE'', ''ANDROID_LENS_GEOMETRIC_CORRECTION_MAP'',
      ''ANDROID_LENS_FACING'', ''ANDROID_LENS_POSITION''],
     [''ANDROID_SENSOR_EXPOSURE_TIME'', ''ANDROID_SENSOR_FRAME_DURATION'',
      ''ANDROID_SENSOR_SENSITIVITY'', ''ANDROID_SENSOR_TIMESTAMP''],
     [''ANDROID_SENSOR_EXPOSURE_TIME_RANGE'', ''ANDROID_SENSOR_MAX_FRAME_DURATION'',
      ''ANDROID_SENSOR_AVAILABLE_SENSITIVITIES'', ''ANDROID_SENSOR_COLOR_FILTER_ARRANGEMENT'',
      ''ANDROID_SENSOR_PHYSICAL_SIZE'', ''ANDROID_SENSOR_PIXEL_ARRAY_SIZE'',
      ''ANDROID_SENSOR_ACTIVE_ARRAY_SIZE'', ''ANDROID_SENSOR_WHITE_LEVEL'',
      ''ANDROID_SENSOR_BLACK_LEVEL_PATTERN'', ''ANDROID_SENSOR_COLOR_TRANSFORM_1'',
      ''ANDROID_SENSOR_COLOR_TRANSFORM_2'', ''ANDROID_SENSOR_REFERENCE_ILLUMINANT_1'',
      ''ANDROID_SENSOR_REFERENCE_ILLUMINANT_2'', ''ANDROID_SENSOR_FORWARD_MATRIX_1'',
      ''ANDROID_SENSOR_FORWARD_MATRIX_2'', ''ANDROID_SENSOR_CALIBRATION_TRANSFORM_1'',
      ''ANDROID_SENSOR_CALIBRATION_TRANSFORM_2'', ''ANDROID_SENSOR_BASE_GAIN_FACTOR'',
      ''ANDROID_SENSOR_MAX_ANALOG_SENSITIVITY'', ''ANDROID_SENSOR_NOISE_MODEL_COEFFICIENTS'',
      ''ANDROID_SENSOR_ORIENTATION''],
     [''ANDROID_FLASH_MODE'', ''ANDROID_FLASH_FIRING_POWER'', ''ANDROID_FLASH_FIRING_TIME''],
     [''ANDROID_FLASH_AVAILABLE'', ''ANDROID_FLASH_CHARGE_DURATION''],
     [''ANDROID_HOT_PIXEL_MODE''],
     [],
     [''ANDROID_DEMOSAIC_MODE''],
     [],
     [''ANDROID_NOISE_MODE'', ''ANDROID_NOISE_STRENGTH''],
     [],
     [''ANDROID_SHADING_MODE''],
     [],
     [''ANDROID_GEOMETRIC_MODE''],
     [],
     [''ANDROID_COLOR_MODE'', ''ANDROID_COLOR_TRANSFORM''],
     [],
     [''ANDROID_TONEMAP_MODE'', ''ANDROID_TONEMAP_CURVE_RED'', ''ANDROID_TONEMAP_CURVE_GREEN'',
      ''ANDROID_TONEMAP_CURVE_BLUE''],
     [''ANDROID_TONEMAP_MAX_CURVE_POINTS''],
     [''ANDROID_EDGE_MODE'', ''ANDROID_EDGE_STRENGTH''],
     [],
     [''ANDROID_SCALER_CROP_REGION''],
     [''ANDROID_SCALER_AVAILABLE_FORMATS'', ''ANDROID_SCALER_AVAILABLE_RAW_SIZES'',
      ''ANDROID_SCALER_AVAILABLE_RAW_MIN_DURATIONS'', ''ANDROID_SCALER_AVAILABLE_PROCESSED_SIZES'',
      ''ANDROID_SCALER_AVAILABLE_PROCESSED_MIN_DURATIONS'', ''ANDROID_SCALER_AVAILABLE_JPEG_SIZES'',
      ''ANDROID_SCALER_AVAILABLE_JPEG_MIN_DURATIONS'', ''ANDROID_SCALER_AVAILABLE_MAX_ZOOM''],
     [''ANDROID_JPEG_QUALITY'', ''ANDROID_JPEG_THUMBNAIL_SIZE'', ''ANDROID_JPEG_THUMBNAIL_QUALITY'',
      ''ANDROID_JPEG_GPS_COORDINATES'', ''ANDROID_JPEG_GPS_PROCESSING_METHOD'',
      ''ANDROID_JPEG_GPS_TIMESTAMP'', ''ANDROID_JPEG_ORIENTATION'', ''ANDROID_JPEG_SIZE''],
     [''ANDROID_JPEG_AVAILABLE_THUMBNAIL_SIZES'', ''ANDROID_JPEG_MAX_SIZE''],
     [''ANDROID_STATS_FACE_DETECT_MODE'', ''ANDROID_STATS_FACE_RECTANGLES'',
      ''ANDROID_STATS_FACE_SCORES'', ''ANDROID_STATS_FACE_LANDMARKS'', ''ANDROID_STATS_FACE_IDS'',
      ''ANDROID_STATS_HISTOGRAM_MODE'', ''ANDROID_STATS_HISTOGRAM'',
      ''ANDROID_STATS_SHARPNESS_MAP_MODE'', ''ANDROID_STATS_SHARPNESS_MAP''],
     [''ANDROID_STATS_AVAILABLE_FACE_DETECT_MODES'', ''ANDROID_STATS_MAX_FACE_COUNT'',
      ''ANDROID_STATS_HISTOGRAM_BUCKET_COUNT'', ''ANDROID_STATS_MAX_HISTOGRAM_COUNT'',
      ''ANDROID_STATS_SHARPNESS_MAP_SIZE'', ''ANDROID_STATS_MAX_SHARPNESS_MAP_VALUE''],
     [''ANDROID_CONTROL_CAPTURE_INTENT'', ''ANDROID_CONTROL_MODE'', ''ANDROID_CONTROL_EFFECT_MODE'',
      ''ANDROID_CONTROL_SCENE_MODE'', ''ANDROID_CONTROL_VIDEO_STABILIZATION_MODE'',
      ''ANDROID_CONTROL_AE_MODE'', ''ANDROID_CONTROL_AE_LOCK'', ''ANDROID_CONTROL_AE_REGIONS'',
      ''ANDROID_CONTROL_AE_EXP_COMPENSATION'', ''ANDROID_CONTROL_AE_TARGET_FPS_RANGE'',
      ''ANDROID_CONTROL_AE_ANTIBANDING_MODE'', ''ANDROID_CONTROL_AE_STATE'',
      ''ANDROID_CONTROL_AE_PRECAPTURE_ID'', ''ANDROID_CONTROL_AWB_MODE'', ''ANDROID_CONTROL_AWB_LOCK'',
      ''ANDROID_CONTROL_AWB_REGIONS'', ''ANDROID_CONTROL_AWB_STATE'', ''ANDROID_CONTROL_AF_MODE'',
      ''ANDROID_CONTROL_AF_REGIONS'', ''ANDROID_CONTROL_AF_STATE'', ''ANDROID_CONTROL_AF_TRIGGER_ID''],
     [''ANDROID_CONTROL_AVAILABLE_SCENE_MODES'', ''ANDROID_CONTROL_AVAILABLE_EFFECTS'',
      ''ANDROID_CONTROL_MAX_REGIONS'', ''ANDROID_CONTROL_AE_AVAILABLE_MODES'',
      ''ANDROID_CONTROL_AE_EXP_COMPENSATION_STEP'', ''ANDROID_CONTROL_AE_EXP_COMPENSATION_RANGE'',
      ''ANDROID_CONTROL_AE_AVAILABLE_TARGET_FPS_RANGES'',
      ''ANDROID_CONTROL_AE_AVAILABLE_ANTIBANDING_MODES'', ''ANDROID_CONTROL_AWB_AVAILABLE_MODES'',
      ''ANDROID_CONTROL_AF_AVAILABLE_MODES'', ''ANDROID_CONTROL_AVAILABLE_VIDEO_STABILIZATION_MODES'',
      ''ANDROID_CONTROL_SCENE_MODE_OVERRIDES''],
     [''ANDROID_QUIRKS_TRIGGER_AF_WITH_AUTO'', ''ANDROID_QUIRKS_USE_ZSL_FORMAT'',
      ''ANDROID_QUIRKS_METERING_CROP_REGION'']]"

section \<open>Names and types: the designated initialisers\<close>

definition android_request :: "(string \<times> string \<times> u8) list" where
  "android_request = [
     (''ANDROID_REQUEST_ID'', ''id'', TYPE_INT32),
     (''ANDROID_REQUEST_TYPE'', ''type'', TYPE_BYTE),
     (''ANDROID_REQUEST_METADATA_MODE'', ''metadataMode'', TYPE_BYTE),
     (''ANDROID_REQUEST_OUTPUT_STREAMS'', ''outputStreams'', TYPE_BYTE),
     (''ANDROID_REQUEST_INPUT_STREAMS'', ''inputStreams'', TYPE_BYTE),
     (''ANDROID_REQUEST_FRAME_COUNT'', ''frameCount'', TYPE_INT32)]"

definition android_lens :: "(string \<times> string \<times> u8) list" where
  "android_lens = [
     (''ANDROID_LENS_FOCUS_DISTANCE'', ''focusDistance'', TYPE_FLOAT),
     (''ANDROID_LENS_APERTURE'', ''aperture'', TYPE_FLOAT),
     (''ANDROID_LENS_FOCAL_LENGTH'', ''focalLength'', TYPE_FLOAT),
     (''ANDROID_LENS_FILTER_DENSITY'', ''filterDensity'', TYPE_FLOAT),
     (''ANDROID_LENS_OPTICAL_STABILIZATION_MODE'', ''opticalStabilizationMode'', TYPE_BYTE),
     (''ANDROID_LENS_FOCUS_RANGE'', ''focusRange'', TYPE_FLOAT)]"

definition android_lens_info :: "(string \<times> string \<times> u8) list" where
  "android_lens_info = [
     (''ANDROID_LENS_MINIMUM_FOCUS_DISTANCE'', ''minimumFocusDistance'', TYPE_FLOAT),
     (''ANDROID_LENS_HYPERFOCAL_DISTANCE'', ''hyperfocalDistance'', TYPE_FLOAT),
     (''ANDROID_LENS_AVAILABLE_FOCAL_LENGTHS'', ''availableFocalLengths'', TYPE_FLOAT),
     (''ANDROID_LENS_AVAILABLE_APERTURES'', ''availableApertures'', TYPE_FLOAT),
     (''ANDROID_LENS_AVAILABLE_FILTER_DENSITY'', ''availableFilterDensities'', TYPE_FLOAT),
     (''ANDROID_LENS_AVAILABLE_OPTICAL_STABILIZATION'', ''availableOpticalStabilizationModes'', TYPE_BYTE),
     (''ANDROID_LENS_SHADING_MAP_SIZE'', ''shadingMapSize'', TYPE_INT32),
     (''ANDROID_LENS_SHADING_MAP'', ''shadingMap'', TYPE_FLOAT),
     (''ANDROID_LENS_GEOMETRIC_CORRECTION_MAP_SIZE'', ''geometricCorrectionMapSize'', TYPE_INT32),
     (''ANDROID_LENS_GEOMETRIC_CORRECTION_MAP'', ''geometricCorrectionMap'', TYPE_FLOAT),
     (''ANDROID_LENS_FACING'', ''facing'', TYPE_BYTE),
     (''ANDROID_LENS_POSITION'', ''position'', TYPE_FLOAT)]"

definition android_sensor :: "(string \<times> string \<times> u8) list" where
  "android_sensor = [
     (''ANDROID_SENSOR_EXPOSURE_TIME'', ''exposureTime'', TYPE_INT64),
     (''ANDROID_SENSOR_FRAME_DURATION'', ''frameDuration'', TYPE_INT64),
     (''ANDROID_SENSOR_SENSITIVITY'', ''sensitivity'', TYPE_INT32),
     (''ANDROID_SENSOR_TIMESTAMP'', ''timestamp'', TYPE_INT64)]"

definition android_sensor_info :: "(string \<times> string \<times> u8) list" where
  "android_sensor_info = [
     (''ANDROID_SENSOR_EXPOSURE_TIME_RANGE'', ''exposureTimeRange'', TYPE_INT64),
     (''ANDROID_SENSOR_MAX_FRAME_DURATION'', ''maxFrameDuration'', TYPE_INT64),
     (''ANDROID_SENSOR_AVAILABLE_SENSITIVITIES'', ''availableSensitivities'', TYPE_INT32),
     (''ANDROID_SENSOR_COLOR_FILTER_ARRANGEMENT'', ''colorFilterArrangement'', TYPE_BYTE),
     (''ANDROID_SENSOR_PHYSICAL_SIZE'', ''physicalSize'', TYPE_FLOAT),
     (''ANDROID_SENSOR_PIXEL_ARRAY_SIZE'', ''pixelArraySize'', TYPE_INT32),
     (''ANDROID_SENSOR_ACTIVE_ARRAY_SIZE'', ''activeArraySize'', TYPE_INT32),
     (''ANDROID_SENSOR_WHITE_LEVEL'', ''whiteLevel'', TYPE_INT32),
     (''ANDROID_SENSOR_BLACK_LEVEL_PATTERN'', ''blackLevelPattern'', TYPE_INT32),
     (''ANDROID_SENSOR_COLOR_TRANSFORM_1'', ''colorTransform1'', TYPE_RATIONAL),
     (''ANDROID_SENSOR_COLOR_TRANSFORM_2'', ''colorTransform2'', TYPE_RATIONAL),
     (''ANDROID_SENSOR_REFERENCE_ILLUMINANT_1'', ''referenceIlluminant1'', TYPE_BYTE),
     (''ANDROID_SENSOR_REFERENCE_ILLUMINANT_2'', ''referenceIlluminant2'', TYPE_BYTE),
     (''ANDROID_SENSOR_FORWARD_MATRIX_1'', ''forwardMatrix1'', TYPE_RATIONAL),
     (''ANDROID_SENSOR_FORWARD_MATRIX_2'', ''forwardMatrix2'', TYPE_RATIONAL),
     (''ANDROID_SENSOR_CALIBRATION_TRANSFORM_1'', ''calibrationTransform1'', TYPE_RATIONAL),
     (''ANDROID_SENSOR_CALIBRATION_TRANSFORM_2'', ''calibrationTransform2'', TYPE_RATIONAL),
     (''ANDROID_SENSOR_BASE_GAIN_FACTOR'', ''baseGainFactor'', TYPE_RATIONAL),
     (''ANDROID_SENSOR_MAX_ANALOG_SENSITIVITY'', ''maxAnalogSensitivity'', TYPE_INT32),
     (''ANDROID_SENSOR_NOISE_MODEL_COEFFICIENTS'', ''noiseModelCoefficients'', TYPE_FLOAT),
     (''ANDROID_SENSOR_ORIENTATION'', ''orientation'', TYPE_INT32)]"

definition android_flash :: "(string \<times> string \<times> u8) list" where
  "android_flash = [
     (''ANDROID_FLASH_MODE'', ''mode'', TYPE_BYTE),
     (''ANDROID_FLASH_FIRING_POWER'', ''firingPower'', TYPE_BYTE),
     (''ANDROID_FLASH_FIRING_TIME'', ''firingTime'', TYPE_INT64)]"

definition android_flash_info :: "(string \<times> string \<times> u8) list" where
  "android_flash_info = [
     (''ANDROID_FLASH_AVAILABLE'', ''available'', TYPE_BYTE),
     (''ANDROID_FLASH_CHARGE_DURATION'', ''chargeDuration'', TYPE_INT64)]"

definition android_hot_pixel :: "(string \<times> string \<times> u8) list" where
  "android_hot_pixel = [
     (''ANDROID_HOT_PIXEL_MODE'', ''mode'', TYPE_BYTE)]"

definition android_hot_pixel_info :: "(string \<times> string \<times> u8) list" where
  "android_hot_pixel_info = []"

definition android_demosaic :: "(string \<times> string \<times> u8) list" where
  "android_demosaic = [
     (''ANDROID_DEMOSAIC_MODE'', ''mode'', TYPE_BYTE)]"

definition android_demosaic_info :: "(string \<times> string \<times> u8) list" where
  "android_demosaic_info = []"

definition android_noise :: "(string \<times> string \<times> u8) list" where
  "android_noise = [
     (''ANDROID_NOISE_MODE'', ''mode'', TYPE_BYTE),
     (''ANDROID_NOISE_STRENGTH'', ''strength'', TYPE_BYTE)]"

definition android_noise_info :: "(string \<times> string \<times> u8) list" where
  "android_noise_info = []"

definition android_shading :: "(string \<times> string \<times> u8) list" where
  "android_shading = [
     (''ANDROID_SHADING_MODE'', ''mode'', TYPE_BYTE)]"

definition android_shading_info :: "(string \<times> string \<times> u8) list" where
  "android_shading_info = []"

definition android_geometric :: "(string \<times> string \<times> u8) list" where
  "android_geometric = [
     (''ANDROID_GEOMETRIC_MODE'', ''mode'', TYPE_BYTE)]"

definition android_geometric_info :: "(string \<times> string \<times> u8) list" where
  "android_geometric_info = []"

definition android_color :: "(string \<times> string \<times> u8) list" where
  "android_color = [
     (''ANDROID_COLOR_MODE'', ''mode'', TYPE_BYTE),
     (''ANDROID_COLOR_TRANSFORM'', ''transform'', TYPE_FLOAT)]"

definition android_color_info :: "(string \<times> string \<times> u8) list" where
  "android_color_info = []"

definition android_tonemap :: "(string \<times> string \<times> u8) list" where
  "android_tonemap = [
     (''ANDROID_TONEMAP_MODE'', ''mode'', TYPE_BYTE),
     (''ANDROID_TONEMAP_CURVE_RED'', ''curveRed'', TYPE_FLOAT),
     (''ANDROID_TONEMAP_CURVE_GREEN'', ''curveGreen'', TYPE_FLOAT),
     (''ANDROID_TONEMAP_CURVE_BLUE'', ''curveBlue'', TYPE_FLOAT)]"

definition android_tonemap_info :: "(string \<times> string \<times> u8) list" where
  "android_tonemap_info = [
     (''ANDROID_TONEMAP_MAX_CURVE_POINTS'', ''maxCurvePoints'', TYPE_INT32)]"

definition android_edge :: "(string \<times> string \<times> u8) list" where
  "android_edge = [
     (''ANDROID_EDGE_MODE'', ''mode'', TYPE_BYTE),
     (''ANDROID_EDGE_STRENGTH'', ''strength'', TYPE_BYTE)]"

definition android_edge_info :: "(string \<times> string \<times> u8) list" where
  "android_edge_info = []"

definition android_scaler :: "(string \<times> string \<times> u8) list" where
  "android_scaler = [
     (''ANDROID_SCALER_CROP_REGION'', ''cropRegion'', TYPE_INT32)]"

definition android_scaler_info :: "(string \<times> string \<times> u8) list" where
  "android_scaler_info = [
     (''ANDROID_SCALER_AVAILABLE_FORMATS'', ''availableFormats'', TYPE_INT32),
     (''ANDROID_SCALER_AVAILABLE_RAW_SIZES'', ''availableRawSizes'', TYPE_INT32),
     (''ANDROID_SCALER_AVAILABLE_RAW_MIN_DURATIONS'', ''availableRawMinDurations'', TYPE_INT64),
     (''ANDROID_SCALER_AVAILABLE_PROCESSED_SIZES'', ''availableProcessedSizes'', TYPE_INT32),
     (''ANDROID_SCALER_AVAILABLE_PROCESSED_MIN_DURATIONS'', ''availableProcessedMinDurations'', TYPE_INT64),
     (''ANDROID_SCALER_AVAILABLE_JPEG_SIZES'', ''availableJpegSizes'', TYPE_INT32),
     (''ANDROID_SCALER_AVAILABLE_JPEG_MIN_DURATIONS'', ''availableJpegMinDurations'', TYPE_INT64),
     (''ANDROID_SCALER_AVAILABLE_MAX_ZOOM'', ''availableMaxDigitalZoom'', TYPE_INT32)]"

definition android_jpeg :: "(string \<times> string \<times> u8) list" where
  "android_jpeg = [
     (''ANDROID_JPEG_QUALITY'', ''quality'', TYPE_INT32),
     (''ANDROID_JPEG_THUMBNAIL_SIZE'', ''thumbnailSize'', TYPE_INT32),
     (''ANDROID_JPEG_THUMBNAIL_QUALITY'', ''thumbnailQuality'', TYPE_INT32),
     (''ANDROID_JPEG_GPS_COORDINATES'', ''gpsCoordinates'', TYPE_DOUBLE),
     (''ANDROID_JPEG_GPS_PROCESSING_METHOD'', ''gpsProcessingMethod'', TYPE_BYTE),
     (''ANDROID_JPEG_GPS_TIMESTAMP'', ''gpsTimestamp'', TYPE_INT64),
     (''ANDROID_JPEG_ORIENTATION'', ''orientation'', TYPE_INT32),
     (''ANDROID_JPEG_SIZE'', ''size'', TYPE_INT32)]"

definition android_jpeg_info :: "(string \<times> string \<times> u8) list" where
  "android_jpeg_info = [
     (''ANDROID_JPEG_AVAILABLE_THUMBNAIL_SIZES'', ''availableThumbnailSizes'', TYPE_INT32),
     (''ANDROID_JPEG_MAX_SIZE'', ''maxSize'', TYPE_INT32)]"

definition android_stats :: "(string \<times> string \<times> u8) list" where
  "android_stats = [
     (''ANDROID_STATS_FACE_DETECT_MODE'', ''faceDetectMode'', TYPE_BYTE),
     (''ANDROID_STATS_FACE_RECTANGLES'', ''faceRectangles'', TYPE_INT32),
     (''ANDROID_STATS_FACE_SCORES'', ''faceScores'', TYPE_BYTE),
     (''ANDROID_STATS_FACE_LANDMARKS'', ''faceLandmarks'', TYPE_INT32),
     (''ANDROID_STATS_FACE_IDS'', ''faceIds'', TYPE_INT32),
     (''ANDROID_STATS_HISTOGRAM_MODE'', ''histogramMode'', TYPE_BYTE),
     (''ANDROID_STATS_HISTOGRAM'', ''histogram'', TYPE_INT32),
     (''ANDROID_STATS_SHARPNESS_MAP_MODE'', ''sharpnessMapMode'', TYPE_BYTE),
     (''ANDROID_STATS_SHARPNESS_MAP'', ''sharpnessMap'', TYPE_INT32)]"

definition android_stats_info :: "(string \<times> string \<times> u8) list" where
  "android_stats_info = [
     (''ANDROID_STATS_AVAILABLE_FACE_DETECT_MODES'', ''availableFaceDetectModes'', TYPE_BYTE),
     (''ANDROID_STATS_MAX_FACE_COUNT'', ''maxFaceCount'', TYPE_INT32),
     (''ANDROID_STATS_HISTOGRAM_BUCKET_COUNT'', ''histogramBucketCount'', TYPE_INT32),
     (''ANDROID_STATS_MAX_HISTOGRAM_COUNT'', ''maxHistogramCount'', TYPE_INT32),
     (''ANDROID_STATS_SHARPNESS_MAP_SIZE'', ''sharpnessMapSize'', TYPE_INT32),
     (''ANDROID_STATS_MAX_SHARPNESS_MAP_VALUE'', ''maxSharpnessMapValue'', TYPE_INT32)]"

definition android_control :: "(string \<times> string \<times> u8) list" where
  "android_control = [
     (''ANDROID_CONTROL_CAPTURE_INTENT'', ''captureIntent'', TYPE_BYTE),
     (''ANDROID_CONTROL_MODE'', ''mode'', TYPE_BYTE),
     (''ANDROID_CONTROL_EFFECT_MODE'', ''effectMode'', TYPE_BYTE),
     (''ANDROID_CONTROL_SCENE_MODE'', ''sceneMode'', TYPE_BYTE),
     (''ANDROID_CONTROL_VIDEO_STABILIZATION_MODE'', ''videoStabilizationMode'', TYPE_BYTE),
     (''ANDROID_CONTROL_AE_MODE'', ''aeMode'', TYPE_BYTE),
     (''ANDROID_CONTROL_AE_LOCK'', ''aeLock'', TYPE_BYTE),
     (''ANDROID_CONTROL_AE_REGIONS'', ''aeRegions'', TYPE_INT32),
     (''ANDROID_CONTROL_AE_EXP_COMPENSATION'', ''aeExposureCompensation'', TYPE_INT32),
     (''ANDROID_CONTROL_AE_TARGET_FPS_RANGE'', ''aeTargetFpsRange'', TYPE_INT32),
     (''ANDROID_CONTROL_AE_ANTIBANDING_MODE'', ''aeAntibandingMode'', TYPE_BYTE),
     (''ANDROID_CONTROL_AE_STATE'', ''aeState'', TYPE_BYTE),
     (''ANDROID_CONTROL_AE_PRECAPTURE_ID'', ''aePrecaptureId'', TYPE_INT32),
     (''ANDROID_CONTROL_AWB_MODE'', ''awbMode'', TYPE_BYTE),
     (''ANDROID_CONTROL_AWB_LOCK'', ''awbLock'', TYPE_BYTE),
     (''ANDROID_CONTROL_AWB_REGIONS'', ''awbRegions'', TYPE_INT32),
     (''ANDROID_CONTROL_AWB_STATE'', ''awbState'', TYPE_BYTE),
     (''ANDROID_CONTROL_AF_MODE'', ''afMode'', TYPE_BYTE),
     (''ANDROID_CONTROL_AF_REGIONS'', ''afRegions'', TYPE_INT32),
     (''ANDROID_CONTROL_AF_STATE'', ''afState'', TYPE_BYTE),
     (''ANDROID_CONTROL_AF_TRIGGER_ID'', ''afTriggerId'', TYPE_INT32)]"

definition android_control_info :: "(string \<times> string \<times> u8) list" where
  "android_control_info = [
     (''ANDROID_CONTROL_AVAILABLE_SCENE_MODES'', ''availableSceneModes'', TYPE_BYTE),
     (''ANDROID_CONTROL_AVAILABLE_EFFECTS'', ''availableEffects'', TYPE_BYTE),
     (''ANDROID_CONTROL_MAX_REGIONS'', ''maxRegions'', TYPE_INT32),
     (''ANDROID_CONTROL_AE_AVAILABLE_MODES'', ''aeAvailableModes'', TYPE_BYTE),
     (''ANDROID_CONTROL_AE_EXP_COMPENSATION_STEP'', ''aeCompensationStep'', TYPE_RATIONAL),
     (''ANDROID_CONTROL_AE_EXP_COMPENSATION_RANGE'', ''aeCompensationRange'', TYPE_INT32),
     (''ANDROID_CONTROL_AE_AVAILABLE_TARGET_FPS_RANGES'', ''aeAvailableTargetFpsRanges'', TYPE_INT32),
     (''ANDROID_CONTROL_AE_AVAILABLE_ANTIBANDING_MODES'', ''aeAvailableAntibandingModes'', TYPE_BYTE),
     (''ANDROID_CONTROL_AWB_AVAILABLE_MODES'', ''awbAvailableModes'', TYPE_BYTE),
     (''ANDROID_CONTROL_AF_AVAILABLE_MODES'', ''afAvailableModes'', TYPE_BYTE),
     (''ANDROID_CONTROL_AVAILABLE_VIDEO_STABILIZATION_MODES'', ''availableVideoStabilizationModes'', TYPE_BYTE),
     (''ANDROID_CONTROL_SCENE_MODE_OVERRIDES'', ''sceneModeOverrides'', TYPE_BYTE)]"

definition android_quirks_info :: "(string \<times> string \<times> u8) list" where
  "android_quirks_info = [
     (''ANDROID_QUIRKS_TRIGGER_AF_WITH_AUTO'', ''triggerAfWithAuto'', TYPE_BYTE),
     (''ANDROID_QUIRKS_USE_ZSL_FORMAT'', ''useZslFormat'', TYPE_BYTE),
     (''ANDROID_QUIRKS_METERING_CROP_REGION'', ''meteringCropRegion'', TYPE_BYTE)]"

text \<open>An array given by designated initialisers: elements without one are zero.\<close>

type_synonym tag_info_t = "string ptr \<times> u8"

definition designated :: "string list \<Rightarrow> (string \<times> string \<times> u8) list \<Rightarrow> tag_info_t list" where
  "designated tags inits =
     map (\<lambda>t. case map_of (rev inits) t of None \<Rightarrow> (NULL, 0) | Some (name, ty) \<Rightarrow> (Some name, ty)) tags"

definition tag_info :: "tag_info_t list list" where
  "tag_info = map2 designated section_tags [
     android_request, android_lens, android_lens_info, android_sensor, android_sensor_info, android_flash,
     android_flash_info, android_hot_pixel, android_hot_pixel_info, android_demosaic, android_demosaic_info, android_noise,
     android_noise_info, android_shading, android_shading_info, android_geometric, android_geometric_info, android_color,
     android_color_info, android_tonemap, android_tonemap_info, android_edge, android_edge_info, android_scaler,
     android_scaler_info, android_jpeg, android_jpeg_info, android_stats, android_stats_info, android_control,
     android_control_info, android_quirks_info]"

text \<open>\<open>camera_metadata_section_bounds\<close>: start and end of each section.\<close>

definition camera_metadata_section_bounds :: "(u32 \<times> u32) list" where
  "camera_metadata_section_bounds =
     map2 (\<lambda>i tags. (push_bit 16 (of_nat i), push_bit 16 (of_nat i) + of_nat (length tags)))
       [0..<32] section_tags"

section \<open>Look-up functions\<close>

text \<open>The operations a camera module registers for its own tags.\<close>

record vendor_tag_query_ops =
  get_camera_vendor_section_name :: "u32 \<Rightarrow> string ptr"
  get_camera_vendor_tag_name :: "u32 \<Rightarrow> string ptr"
  get_camera_vendor_tag_type :: "u32 \<Rightarrow> int"

definition get_camera_metadata_section_name :: "vendor_tag_query_ops ptr \<Rightarrow> u32 \<Rightarrow> string ptr exec" where
  "get_camera_metadata_section_name vendor_tag_ops tag =
     (let tag_section = drop_bit 16 tag
      in if tag_section \<ge> VENDOR_SECTION \<and> vendor_tag_ops \<noteq> NULL
         then Ret (get_camera_vendor_section_name (the vendor_tag_ops) tag)
         else if tag_section \<ge> ANDROID_SECTION_COUNT then Ret NULL
         else map_option Some (load camera_metadata_section_names (unat tag_section)))"

definition get_camera_metadata_tag_name :: "vendor_tag_query_ops ptr \<Rightarrow> u32 \<Rightarrow> string ptr exec" where
  "get_camera_metadata_tag_name vendor_tag_ops tag =
     (let tag_section = drop_bit 16 tag
      in if tag_section \<ge> VENDOR_SECTION \<and> vendor_tag_ops \<noteq> NULL
         then Ret (get_camera_vendor_tag_name (the vendor_tag_ops) tag)
         else if tag_section \<ge> ANDROID_SECTION_COUNT then Ret NULL
         else do {
           bounds \<leftarrow> load camera_metadata_section_bounds (unat tag_section);
           if tag \<ge> snd bounds then Ret NULL
           else do {
             infos \<leftarrow> load tag_info (unat tag_section);
             info \<leftarrow> load infos (unat (tag AND 0xFFFF));
             Ret (fst info)
           }
         })"

definition get_camera_metadata_tag_type :: "vendor_tag_query_ops ptr \<Rightarrow> u32 \<Rightarrow> int exec" where
  "get_camera_metadata_tag_type vendor_tag_ops tag =
     (let tag_section = drop_bit 16 tag
      in if tag_section \<ge> VENDOR_SECTION \<and> vendor_tag_ops \<noteq> NULL
         then Ret (get_camera_vendor_tag_type (the vendor_tag_ops) tag)
         else if tag_section \<ge> ANDROID_SECTION_COUNT then Ret (- 1)
         else do {
           bounds \<leftarrow> load camera_metadata_section_bounds (unat tag_section);
           if tag \<ge> snd bounds then Ret (- 1)
           else do {
             infos \<leftarrow> load tag_info (unat tag_section);
             info \<leftarrow> load infos (unat (tag AND 0xFFFF));
             Ret (uint (snd info))
           }
         })"

section \<open>The tables are complete\<close>

lemma length_section_tags [simp]: "length section_tags = 32"
  by (simp add: section_tags_def)

lemma tag_info_lengths: "map length tag_info = map length section_tags"
  by (simp add: tag_info_def section_tags_def designated_def)

lemma tag_info_entries:
  "list_all (\<lambda>infos. list_all (\<lambda>(name, ty). name \<noteq> NULL \<and> ty < NUM_TYPES) infos \<and> distinct (map fst infos)) tag_info"
  by code_simp

lemma tag_info_length [simp]: "length tag_info = 32"
  using arg_cong [OF tag_info_lengths, of length] by simp

lemma length_section_bounds [simp]: "length camera_metadata_section_bounds = 32"
  by (simp add: camera_metadata_section_bounds_def)

lemma section_bounds_nth:
  "s < 32 \<Longrightarrow> camera_metadata_section_bounds ! s =
     (push_bit 16 (of_nat s), push_bit 16 (of_nat s) + of_nat (length (tag_info ! s)))"
  using arg_cong [OF tag_info_lengths, of "\<lambda>l. l ! s"] by (simp add: camera_metadata_section_bounds_def)

lemma tag_info_small: "s < 32 \<Longrightarrow> length (tag_info ! s) < 2 ^ 15"
proof -
  assume s: "s < 32"
  have "list_all (\<lambda>l. length l < 2 ^ 15) section_tags" by (simp add: section_tags_def)
  with s show ?thesis
    using arg_cong [OF tag_info_lengths, of "\<lambda>l. l ! s"] by (simp add: list_all_length)
qed

lemma tag_parts: "unat (tag :: u32) = unat (drop_bit 16 tag) * 2 ^ 16 + unat (tag AND 0xFFFF)"
proof -
  have "tag AND 0xFFFF = take_bit 16 tag"
    by (simp add: take_bit_eq_mask mask_eq_exp_minus_1)
  then show ?thesis
    by (simp add: drop_bit_eq_div take_bit_eq_mod unat_div unat_mod)
qed

lemma tag_in_section:
  assumes "unat (drop_bit 16 tag) = s" "s < 32"
  shows "tag \<ge> snd (camera_metadata_section_bounds ! s) \<longleftrightarrow> length (tag_info ! s) \<le> unat (tag AND 0xFFFF)"
proof -
  let ?n = "length (tag_info ! s)"
  have n: "?n < 2 ^ 15" by (rule tag_info_small [OF assms(2)])
  have "unat (push_bit 16 (of_nat s) + of_nat ?n :: u32) = s * 2 ^ 16 + ?n"
    using n assms(2) by (simp add: unat_word_ariths push_bit_eq_mult unat_of_nat)
  with tag_parts [of tag] assms show ?thesis
    by (simp add: section_bounds_nth word_le_nat_alt)
qed

lemma tag_entry_ok:
  assumes "s < 32" "i < length (tag_info ! s)"
  shows "\<exists>name ty. tag_info ! s ! i = (Some name, ty) \<and> ty < NUM_TYPES"
proof -
  from tag_info_entries assms(1)
  have "list_all (\<lambda>(name, ty). name \<noteq> NULL \<and> ty < NUM_TYPES) (tag_info ! s)"
    by (simp add: list_all_length)
  with assms(2) show ?thesis by (cases "tag_info ! s ! i") (auto simp: list_all_length dest!: spec [of _ i])
qed

text \<open>
  C21. The camera tag tables agree with the enumeration: every tag of the enumeration (a tag
  whose low half is below the number of tags of its section) has a name and one of the six
  types, and every other number that is not the vendor's has neither. The look-ups never read
  outside their tables, and within a section no two tags have the same name.
\<close>

theorem tag_lookup_complete:
  assumes "ops = NULL \<or> drop_bit 16 tag < VENDOR_SECTION"
  defines "s \<equiv> unat (drop_bit 16 tag)"
  shows "if s < 32 \<and> unat (tag AND 0xFFFF) < length (section_tags ! s)
    then \<exists>name ty. get_camera_metadata_tag_name ops tag = Ret (Some name) \<and>
           get_camera_metadata_tag_type ops tag = Ret (uint ty) \<and> ty < NUM_TYPES \<and>
           (\<forall>tag'. drop_bit 16 tag' = drop_bit 16 tag \<and>
              get_camera_metadata_tag_name ops tag' = Ret (Some name) \<longrightarrow> tag' = tag)
    else get_camera_metadata_tag_name ops tag = Ret NULL \<and> get_camera_metadata_tag_type ops tag = Ret (- 1)"
proof -
  have lens: "length (tag_info ! s) = length (section_tags ! s)" if "s < 32"
    using that arg_cong [OF tag_info_lengths, of "\<lambda>l. l ! s"] by simp
  have cnt: "drop_bit 16 t \<ge> ANDROID_SECTION_COUNT \<longleftrightarrow> \<not> unat (drop_bit 16 t) < 32" for t :: u32
    by (simp add: word_le_nat_alt not_less)
  have vend: "\<not> (drop_bit 16 tag \<ge> VENDOR_SECTION \<and> ops \<noteq> NULL)" using assms(1) by (auto simp: not_le)
  have name: "get_camera_metadata_tag_name ops t =
      (if unat (t AND 0xFFFF) < length (tag_info ! s) then Ret (fst (tag_info ! s ! unat (t AND 0xFFFF))) else Ret NULL)"
    if "drop_bit 16 t = drop_bit 16 tag" "s < 32" for t
    using vend that cnt [of t] tag_in_section [of t s]
    by (auto simp: get_camera_metadata_tag_name_def Let_def load_def s_def not_less)
  have ty: "get_camera_metadata_tag_type ops tag =
      (if unat (tag AND 0xFFFF) < length (tag_info ! s) then Ret (uint (snd (tag_info ! s ! unat (tag AND 0xFFFF)))) else Ret (- 1))"
    if "s < 32"
    using vend that cnt [of tag] tag_in_section [of tag s]
    by (auto simp: get_camera_metadata_tag_type_def Let_def load_def s_def not_less)
  show ?thesis
  proof (cases "s < 32 \<and> unat (tag AND 0xFFFF) < length (section_tags ! s)")
    case True
    then have s: "s < 32" and i: "unat (tag AND 0xFFFF) < length (tag_info ! s)" using lens by auto
    obtain n t where e: "tag_info ! s ! unat (tag AND 0xFFFF) = (Some n, t)" "t < NUM_TYPES"
      using tag_entry_ok [OF s i] by blast
    have d: "distinct (map fst (tag_info ! s))" using tag_info_entries s by (simp add: list_all_length)
    have "tag' = tag" if "drop_bit 16 tag' = drop_bit 16 tag" "get_camera_metadata_tag_name ops tag' = Ret (Some n)" for tag'
    proof -
      from that name [OF that(1) s] have i': "unat (tag' AND 0xFFFF) < length (tag_info ! s)"
        and "fst (tag_info ! s ! unat (tag' AND 0xFFFF)) = Some n" by (auto split: if_splits)
      with d i e(1) have "unat (tag' AND 0xFFFF) = unat (tag AND 0xFFFF)"
        by (metis fst_conv length_map nth_eq_iff_index_eq nth_map)
      with tag_parts [of tag] tag_parts [of tag'] that(1) show ?thesis by (simp add: word_unat_eq_iff)
    qed
    with True name [of tag] ty i e s show ?thesis by auto
  next
    case False
    show ?thesis
    proof (cases "s < 32")
      case True
      with False name [of tag] ty lens show ?thesis by auto
    next
      case False
      with vend cnt [of tag] show ?thesis
        by (auto simp: get_camera_metadata_tag_name_def get_camera_metadata_tag_type_def Let_def s_def)
    qed
  qed
qed

theorem tag_lookup_complete_witness:
  "\<exists>name ty. get_camera_metadata_tag_name NULL 0x30000 = Ret (Some name) \<and>
    get_camera_metadata_tag_type NULL 0x30000 = Ret (uint ty) \<and> ty < NUM_TYPES"
proof -
  have "unat (drop_bit 16 (0x30000 :: u32)) = 3" "unat ((0x30000 :: u32) AND 0xFFFF) = 0"
    by (simp_all add: drop_bit_eq_div)
  moreover have "section_tags ! 3 \<noteq> []" by (simp add: section_tags_def)
  ultimately show ?thesis using tag_lookup_complete [of NULL "0x30000"] by auto
qed

end
