(* ===== verification/Camera_Metadata.thy ===== *)
theory Camera_Metadata
  imports Camera_Tags
begin

text \<open>
  The camera metadata packet of \<open>media/camera/src/camera_metadata.c\<close>: a fixed number of
  entry slots and a data area, both arrays of the packet's block of memory. Sizes are 32-bit;
  an access outside a slot or the data area is \<open>Fault\<close>. Slots and bytes behind the counts
  are never read; a fresh packet has zeros there. A data area of length 0 stands for NULL.
\<close>

unbundle bit_operations_syntax

section \<open>Data\<close>

datatype cm_status = OK | ERROR | NOT_FOUND

text \<open>The union of offset and value is its four bytes.\<close>

record camera_metadata_buffer_entry =
  be_tag :: u32
  be_count :: u32
  be_data :: "u8 list"
  be_type :: u8

record 'u camera_metadata =
  md_size :: u32
  md_version :: u32
  md_flags :: u32
  md_entry_count :: u32
  md_entry_capacity :: u32
  md_entries :: "camera_metadata_buffer_entry list"
  md_data_count :: u32
  md_data_capacity :: u32
  md_data :: "u8 list"
  md_user :: "'u ptr"
  md_reserved :: "u8 list"

abbreviation entry_offset :: "camera_metadata_buffer_entry \<Rightarrow> u32" where
  "entry_offset e \<equiv> of_le32 (be_data e)"

abbreviation set_offset :: "camera_metadata_buffer_entry \<Rightarrow> u32 \<Rightarrow> camera_metadata_buffer_entry" where
  "set_offset e off \<equiv> e\<lparr>be_data := le32 off\<rparr>"

abbreviation FLAG_SORTED :: u32 where
  "FLAG_SORTED \<equiv> 1"

abbreviation sizeof_header :: u32 where
  "sizeof_header \<equiv> 40"

abbreviation sizeof_entry :: u32 where
  "sizeof_entry \<equiv> 16"

definition camera_metadata_type_size :: "u32 list" where
  "camera_metadata_type_size = [1, 4, 4, 8, 8, 8]"

definition camera_metadata_type_names :: "string list" where
  "camera_metadata_type_names = [''byte'', ''int32'', ''float'', ''int64'', ''double'', ''rational'']"

abbreviation type_size :: "u8 \<Rightarrow> u32 exec" where
  "type_size ty \<equiv> load camera_metadata_type_size (unat ty)"

text \<open>What a caller gets to see of an entry; the data pointer is into the packet.\<close>

datatype data_ref = In_Data nat | In_Entry nat

record camera_metadata_entry =
  ce_index :: u32
  ce_tag :: u32
  ce_type :: u8
  ce_count :: u32
  ce_data :: data_ref

section \<open>Creating packets\<close>

definition calculate_camera_metadata_size :: "u32 \<Rightarrow> u32 \<Rightarrow> u32" where
  "calculate_camera_metadata_size entry_count data_count =
     sizeof_header + sizeof_entry * entry_count + data_count"

text \<open>
  \<open>place_camera_metadata\<close>: \<open>dst\<close> says whether the buffer is there. The slots and the data
  area it gets are those that lie within the buffer's \<open>dst_size\<close> bytes.
\<close>

definition place_camera_metadata :: "bool \<Rightarrow> u32 \<Rightarrow> u32 \<Rightarrow> u32 \<Rightarrow> 'u camera_metadata ptr" where
  "place_camera_metadata dst dst_size entry_capacity data_capacity =
     (if \<not> dst then NULL
      else if entry_capacity = 0 then NULL
      else let memory_needed = calculate_camera_metadata_size entry_capacity data_capacity;
               room = unat dst_size - unat sizeof_header
           in if memory_needed > dst_size then NULL
              else Some \<lparr>md_size = memory_needed, md_version = 1, md_flags = 0,
                md_entry_count = 0, md_entry_capacity = entry_capacity,
                md_entries = replicate (min (unat entry_capacity) (room div 16))
                  \<lparr>be_tag = 0, be_count = 0, be_data = [0, 0, 0, 0], be_type = 0\<rparr>,
                md_data_count = 0, md_data_capacity = data_capacity,
                md_data = replicate (min (unat data_capacity) (room - 16 * unat entry_capacity)) 0,
                md_user = NULL, md_reserved = []\<rparr>)"

definition allocate_camera_metadata :: "bool \<Rightarrow> u32 \<Rightarrow> u32 \<Rightarrow> 'u camera_metadata ptr" where
  "allocate_camera_metadata malloc_ok entry_capacity data_capacity =
     (if entry_capacity = 0 then NULL
      else let memory_needed = calculate_camera_metadata_size entry_capacity data_capacity
           in place_camera_metadata malloc_ok memory_needed entry_capacity data_capacity)"

section \<open>Sizes and counts\<close>

definition get_camera_metadata_size :: "'u camera_metadata ptr \<Rightarrow> u32" where
  "get_camera_metadata_size metadata = (case metadata of None \<Rightarrow> 1 | Some md \<Rightarrow> md_size md)"

definition get_camera_metadata_compact_size :: "'u camera_metadata ptr \<Rightarrow> u32" where
  "get_camera_metadata_compact_size metadata =
     (case metadata of None \<Rightarrow> 1
      | Some md \<Rightarrow>
          let reserved_size = md_size md -
                calculate_camera_metadata_size (md_entry_capacity md) (md_data_capacity md)
          in calculate_camera_metadata_size (md_entry_count md) (md_data_count md) + reserved_size)"

definition get_camera_metadata_entry_count :: "'u camera_metadata \<Rightarrow> u32" where
  "get_camera_metadata_entry_count md = md_entry_count md"

definition get_camera_metadata_entry_capacity :: "'u camera_metadata \<Rightarrow> u32" where
  "get_camera_metadata_entry_capacity md = md_entry_capacity md"

definition get_camera_metadata_data_count :: "'u camera_metadata \<Rightarrow> u32" where
  "get_camera_metadata_data_count md = md_data_count md"

definition get_camera_metadata_data_capacity :: "'u camera_metadata \<Rightarrow> u32" where
  "get_camera_metadata_data_capacity md = md_data_capacity md"

text \<open>The number of slots that \<open>sizeof(entry[n])\<close> bytes span; the product is a 32-bit one.\<close>

abbreviation slots :: "u32 \<Rightarrow> nat" where
  "slots n \<equiv> unat (sizeof_entry * n) div 16"

definition calculate_camera_metadata_entry_data_size :: "u8 \<Rightarrow> u32 \<Rightarrow> u32" where
  "calculate_camera_metadata_entry_data_size ty data_count =
     (if ty \<ge> NUM_TYPES then 0
      else let data_bytes = data_count * camera_metadata_type_size ! unat ty
           in if data_bytes \<le> 4 then 0 else data_bytes)"

section \<open>Copying, appending, cloning\<close>

definition copy_camera_metadata ::
  "bool \<Rightarrow> u32 \<Rightarrow> 'u camera_metadata \<Rightarrow> 'u camera_metadata ptr exec" where
  "copy_camera_metadata dst dst_size src =
     (let memory_needed = get_camera_metadata_compact_size (Some src)
      in if \<not> dst then Ret NULL
         else if dst_size < memory_needed then Ret NULL
         else let reserved_size = md_size src -
                    calculate_camera_metadata_size (md_entry_capacity src) (md_data_capacity src)
              in do {
                reserved \<leftarrow> (if 0 <s reserved_size then read_at 0 (unat reserved_size) (md_reserved src)
                            else Ret []);
                entries \<leftarrow> read_at 0 (slots (md_entry_count src)) (md_entries src);
                bytes \<leftarrow> read_at 0 (unat (md_data_count src)) (md_data src);
                Ret (Some \<lparr>md_size = memory_needed, md_version = 1, md_flags = md_flags src,
                  md_entry_count = md_entry_count src, md_entry_capacity = md_entry_count src,
                  md_entries = entries,
                  md_data_count = md_data_count src, md_data_capacity = md_data_count src,
                  md_data = bytes, md_user = NULL, md_reserved = reserved\<rparr>)
              })"

text \<open>The offset of an appended entry moves behind the data that was there.\<close>

definition rebase_entry :: "u32 \<Rightarrow> camera_metadata_buffer_entry \<Rightarrow> camera_metadata_buffer_entry exec" where
  "rebase_entry base e = do {
     sz \<leftarrow> type_size (be_type e);
     Ret (if sz * be_count e > 4 then set_offset e (entry_offset e + base) else e)
   }"

definition append_camera_metadata ::
  "'u camera_metadata ptr \<Rightarrow> 'u camera_metadata ptr \<Rightarrow> (cm_status \<times> 'u camera_metadata ptr) exec" where
  "append_camera_metadata dst_ptr src_ptr =
     (case (dst_ptr, src_ptr) of
        (Some dst, Some src) \<Rightarrow>
          if md_entry_capacity dst < md_entry_count src + md_entry_count dst then Ret (ERROR, dst_ptr)
          else if md_data_capacity dst < md_data_count src + md_data_count dst then Ret (ERROR, dst_ptr)
          else do {
            entries \<leftarrow> memcpy (md_entries dst) (unat (md_entry_count dst)) (md_entries src) (slots (md_entry_count src));
            bytes \<leftarrow> memcpy (md_data dst) (unat (md_data_count dst)) (md_data src) (unat (md_data_count src));
            entries \<leftarrow> (if md_data_count dst \<noteq> 0
                       then do {
                         es \<leftarrow> read_at (unat (md_entry_count dst)) (unat (md_entry_count src)) entries;
                         es' \<leftarrow> map_exec (rebase_entry (md_data_count dst)) es;
                         write_at (unat (md_entry_count dst)) es' entries
                       }
                       else Ret entries);
            let flags = (if md_entry_count dst = 0 then md_flags dst OR (md_flags src AND FLAG_SORTED)
                         else if md_entry_count src \<noteq> 0 then md_flags dst AND NOT FLAG_SORTED
                         else md_flags dst);
            Ret (OK, Some (dst\<lparr>md_entries := entries, md_data := bytes, md_flags := flags,
                   md_entry_count := md_entry_count dst + md_entry_count src,
                   md_data_count := md_data_count dst + md_data_count src\<rparr>))
          }
      | _ \<Rightarrow> Ret (ERROR, dst_ptr))"

definition clone_camera_metadata ::
  "bool \<Rightarrow> 'u camera_metadata ptr \<Rightarrow> 'u camera_metadata ptr exec" where
  "clone_camera_metadata malloc_ok src_ptr =
     (case src_ptr of None \<Rightarrow> Ret NULL
      | Some src \<Rightarrow>
          (case allocate_camera_metadata malloc_ok (get_camera_metadata_entry_count src) (get_camera_metadata_data_count src) of
             None \<Rightarrow> Ret NULL
           | Some clone \<Rightarrow> do {
               (res, clone') \<leftarrow> append_camera_metadata (Some clone) src_ptr;
               Ret (if res \<noteq> OK then NULL else clone')
             }))"

section \<open>Adding entries\<close>

definition add_camera_metadata_entry_raw ::
  "'u camera_metadata ptr \<Rightarrow> u32 \<Rightarrow> u8 \<Rightarrow> u8 list ptr \<Rightarrow> u32 \<Rightarrow> (cm_status \<times> 'u camera_metadata ptr) exec" where
  "add_camera_metadata_entry_raw dst_ptr tag ty data_ptr data_count =
     (case dst_ptr of None \<Rightarrow> Ret (ERROR, dst_ptr)
      | Some dst \<Rightarrow>
          if md_entry_count dst = md_entry_capacity dst then Ret (ERROR, dst_ptr)
          else (case data_ptr of None \<Rightarrow> Ret (ERROR, dst_ptr)
          | Some bytes \<Rightarrow> do {
              let data_bytes = calculate_camera_metadata_entry_data_size ty data_count;
              slot \<leftarrow> load (md_entries dst) (unat (md_entry_count dst));
              let entry = slot\<lparr>be_tag := tag, be_type := ty, be_count := data_count\<rparr>;
              (entry, area, count) \<leftarrow>
                (if data_bytes = 0
                 then do {
                   sz \<leftarrow> type_size ty;
                   v \<leftarrow> memcpy (be_data entry) 0 bytes (unat (data_count * sz));
                   Ret (entry\<lparr>be_data := v\<rparr>, md_data dst, md_data_count dst)
                 }
                 else do {
                   area \<leftarrow> memcpy (md_data dst) (unat (md_data_count dst)) bytes (unat data_bytes);
                   Ret (set_offset entry (md_data_count dst), area, md_data_count dst + data_bytes)
                 });
              entries \<leftarrow> store (md_entries dst) (unat (md_entry_count dst)) entry;
              Ret (OK, Some (dst\<lparr>md_entries := entries, md_data := area, md_data_count := count,
                     md_entry_count := md_entry_count dst + 1,
                     md_flags := md_flags dst AND NOT FLAG_SORTED\<rparr>))
            }))"

definition add_camera_metadata_entry ::
  "vendor_tag_query_ops ptr \<Rightarrow> 'u camera_metadata ptr \<Rightarrow> u32 \<Rightarrow> u8 list ptr \<Rightarrow> u32
    \<Rightarrow> (cm_status \<times> 'u camera_metadata ptr) exec" where
  "add_camera_metadata_entry vendor_tag_ops dst tag data_ptr data_count = do {
     ty \<leftarrow> get_camera_metadata_tag_type vendor_tag_ops tag;
     if ty = - 1 then Ret (ERROR, dst)
     else add_camera_metadata_entry_raw dst tag (word_of_int ty) data_ptr data_count
   }"

section \<open>Sorting and searching\<close>

definition compare_entry_tags ::
  "camera_metadata_buffer_entry \<Rightarrow> camera_metadata_buffer_entry \<Rightarrow> int" where
  "compare_entry_tags p1 p2 =
     (if be_tag p1 < be_tag p2 then - 1 else if be_tag p1 = be_tag p2 then 0 else 1)"

text \<open>\<open>qsort\<close> and \<open>bsearch\<close> of the C library are parameters.\<close>

definition sort_camera_metadata ::
  "camera_metadata_buffer_entry sort_fn \<Rightarrow> 'u camera_metadata ptr \<Rightarrow> (cm_status \<times> 'u camera_metadata ptr) exec" where
  "sort_camera_metadata qsort dst_ptr =
     (case dst_ptr of None \<Rightarrow> Ret (ERROR, dst_ptr)
      | Some dst \<Rightarrow>
          if md_flags dst AND FLAG_SORTED \<noteq> 0 then Ret (OK, dst_ptr)
          else do {
            es \<leftarrow> read_at 0 (unat (md_entry_count dst)) (md_entries dst);
            entries \<leftarrow> write_at 0 (qsort compare_entry_tags es) (md_entries dst);
            Ret (OK, Some (dst\<lparr>md_entries := entries, md_flags := md_flags dst OR FLAG_SORTED\<rparr>))
          })"

text \<open>\<open>want\<close> says whether the caller passed a structure to fill.\<close>

definition get_camera_metadata_entry ::
  "'u camera_metadata ptr \<Rightarrow> u32 \<Rightarrow> bool \<Rightarrow> (cm_status \<times> camera_metadata_entry ptr) exec" where
  "get_camera_metadata_entry src_ptr index want =
     (case src_ptr of None \<Rightarrow> Ret (ERROR, NULL)
      | Some src \<Rightarrow>
          if \<not> want then Ret (ERROR, NULL)
          else if index \<ge> md_entry_count src then Ret (ERROR, NULL)
          else do {
            e \<leftarrow> load (md_entries src) (unat index);
            sz \<leftarrow> type_size (be_type e);
            Ret (OK, Some \<lparr>ce_index = index, ce_tag = be_tag e, ce_type = be_type e, ce_count = be_count e,
                   ce_data = (if be_count e * sz > 4 then In_Data (unat (entry_offset e))
                              else In_Entry (unat index))\<rparr>)
          })"

fun find_tag :: "u32 \<Rightarrow> camera_metadata_buffer_entry list \<Rightarrow> nat ptr" where
  "find_tag tag [] = NULL"
| "find_tag tag (e # es) = (if be_tag e = tag then Some 0 else map_option Suc (find_tag tag es))"

definition find_camera_metadata_entry ::
  "camera_metadata_buffer_entry search_fn \<Rightarrow> 'u camera_metadata ptr \<Rightarrow> u32 \<Rightarrow> bool
    \<Rightarrow> (cm_status \<times> camera_metadata_entry ptr) exec" where
  "find_camera_metadata_entry bsearch src_ptr tag want =
     (case src_ptr of None \<Rightarrow> Ret (ERROR, NULL)
      | Some src \<Rightarrow> do {
          es \<leftarrow> read_at 0 (unat (md_entry_count src)) (md_entries src);
          let key = \<lparr>be_tag = tag, be_count = 0, be_data = [0, 0, 0, 0], be_type = 0\<rparr>;
          case (if md_flags src AND FLAG_SORTED \<noteq> 0 then bsearch compare_entry_tags key es
                else find_tag tag es) of
            None \<Rightarrow> Ret (NOT_FOUND, NULL)
          | Some index \<Rightarrow> get_camera_metadata_entry src_ptr (of_nat index) want
        })"

definition find_camera_metadata_ro_entry ::
  "camera_metadata_buffer_entry search_fn \<Rightarrow> 'u camera_metadata ptr \<Rightarrow> u32 \<Rightarrow> bool
    \<Rightarrow> (cm_status \<times> camera_metadata_entry ptr) exec" where
  "find_camera_metadata_ro_entry bsearch src_ptr tag want = find_camera_metadata_entry bsearch src_ptr tag want"

section \<open>Deleting and updating\<close>

text \<open>One step of the loop that closes the gap left by \<open>bytes\<close> bytes at \<open>off\<close>.\<close>

definition shift_after :: "u32 \<Rightarrow> u32 \<Rightarrow> camera_metadata_buffer_entry \<Rightarrow> camera_metadata_buffer_entry" where
  "shift_after off bytes e =
     (if calculate_camera_metadata_entry_data_size (be_type e) (be_count e) > 0 \<and> entry_offset e > off
      then set_offset e (entry_offset e - bytes) else e)"

text \<open>Removing \<open>bytes\<close> bytes at \<open>off\<close>: the part \<open>delete\<close> and \<open>update\<close> have in common.\<close>

definition remove_data :: "u32 \<Rightarrow> u32 \<Rightarrow> 'u camera_metadata \<Rightarrow> 'u camera_metadata exec" where
  "remove_data off bytes dst = do {
     area \<leftarrow> memmove (md_data dst) (unat off) (unat off + unat bytes) (unat (md_data_count dst - off - bytes));
     es \<leftarrow> read_at 0 (unat (md_entry_count dst)) (md_entries dst);
     entries \<leftarrow> write_at 0 (map (shift_after off bytes) es) (md_entries dst);
     Ret (dst\<lparr>md_data := area, md_entries := entries, md_data_count := md_data_count dst - bytes\<rparr>)
   }"

definition delete_camera_metadata_entry ::
  "'u camera_metadata ptr \<Rightarrow> u32 \<Rightarrow> (cm_status \<times> 'u camera_metadata ptr) exec" where
  "delete_camera_metadata_entry dst_ptr index =
     (case dst_ptr of None \<Rightarrow> Ret (ERROR, dst_ptr)
      | Some dst \<Rightarrow>
          if index \<ge> md_entry_count dst then Ret (ERROR, dst_ptr)
          else do {
            entry \<leftarrow> load (md_entries dst) (unat index);
            let data_bytes = calculate_camera_metadata_entry_data_size (be_type entry) (be_count entry);
            dst \<leftarrow> (if data_bytes > 0 then remove_data (entry_offset entry) data_bytes dst else Ret dst);
            entries \<leftarrow> memmove (md_entries dst) (unat index) (unat index + 1) (slots (md_entry_count dst - index - 1));
            Ret (OK, Some (dst\<lparr>md_entries := entries, md_entry_count := md_entry_count dst - 1\<rparr>))
          })"

definition update_camera_metadata_entry ::
  "'u camera_metadata ptr \<Rightarrow> u32 \<Rightarrow> u8 list \<Rightarrow> u32 \<Rightarrow> bool
    \<Rightarrow> (cm_status \<times> 'u camera_metadata ptr \<times> camera_metadata_entry ptr) exec" where
  "update_camera_metadata_entry dst_ptr index bytes data_count want =
     (case dst_ptr of None \<Rightarrow> Ret (ERROR, dst_ptr, NULL)
      | Some dst \<Rightarrow>
          if index \<ge> md_entry_count dst then Ret (ERROR, dst_ptr, NULL)
          else do {
            entry \<leftarrow> load (md_entries dst) (unat index);
            let data_bytes = calculate_camera_metadata_entry_data_size (be_type entry) data_count;
            let entry_bytes = calculate_camera_metadata_entry_data_size (be_type entry) (be_count entry);
            if data_bytes \<noteq> entry_bytes \<and> md_data_capacity dst < md_data_count dst + data_bytes - entry_bytes
            then Ret (ERROR, dst_ptr, NULL)
            else do {
              dst \<leftarrow>
                (if data_bytes \<noteq> entry_bytes
                 then do {
                   dst \<leftarrow> (if entry_bytes \<noteq> 0 then remove_data (entry_offset entry) entry_bytes dst else Ret dst);
                   if data_bytes \<noteq> 0
                   then do {
                     entry \<leftarrow> load (md_entries dst) (unat index);
                     entries \<leftarrow> store (md_entries dst) (unat index) (set_offset entry (md_data_count dst));
                     area \<leftarrow> memcpy (md_data dst) (unat (md_data_count dst)) bytes (unat data_bytes);
                     Ret (dst\<lparr>md_entries := entries, md_data := area, md_data_count := md_data_count dst + data_bytes\<rparr>)
                   }
                   else Ret dst
                 }
                 else if data_bytes \<noteq> 0
                 then do {
                   area \<leftarrow> memcpy (md_data dst) (unat (entry_offset entry)) bytes (unat data_bytes);
                   Ret (dst\<lparr>md_data := area\<rparr>)
                 }
                 else Ret dst);
              entry \<leftarrow> load (md_entries dst) (unat index);
              entry \<leftarrow> (if data_bytes = 0
                        then do {
                          sz \<leftarrow> type_size (be_type entry);
                          v \<leftarrow> memcpy (be_data entry) 0 bytes (unat (data_count * sz));
                          Ret (entry\<lparr>be_data := v\<rparr>)
                        }
                        else Ret entry);
              entries \<leftarrow> store (md_entries dst) (unat index) (entry\<lparr>be_count := data_count\<rparr>);
              let dst = dst\<lparr>md_entries := entries\<rparr>;
              out \<leftarrow> (if want then get_camera_metadata_entry (Some dst) index True else Ret (OK, NULL));
              Ret (OK, Some dst, snd out)
            }
          })"

definition set_camera_metadata_user_pointer ::
  "'u camera_metadata ptr \<Rightarrow> 'u ptr \<Rightarrow> cm_status \<times> 'u camera_metadata ptr" where
  "set_camera_metadata_user_pointer dst_ptr user =
     (case dst_ptr of None \<Rightarrow> (ERROR, dst_ptr) | Some dst \<Rightarrow> (OK, Some (dst\<lparr>md_user := user\<rparr>)))"

definition get_camera_metadata_user_pointer ::
  "'u camera_metadata ptr \<Rightarrow> 'u ptr \<Rightarrow> cm_status \<times> 'u ptr" where
  "get_camera_metadata_user_pointer dst_ptr user =
     (case dst_ptr of None \<Rightarrow> (ERROR, user) | Some dst \<Rightarrow> (OK, md_user dst))"

section \<open>What a packet holds\<close>

definition esize :: "camera_metadata_buffer_entry \<Rightarrow> nat" where
  "esize e = unat (calculate_camera_metadata_entry_data_size (be_type e) (be_count e))"

definition eoff :: "camera_metadata_buffer_entry \<Rightarrow> nat" where
  "eoff e = unat (entry_offset e)"

definition tsize :: "u8 \<Rightarrow> nat" where
  "tsize ty = unat (camera_metadata_type_size ! unat ty)"

definition plen :: "camera_metadata_buffer_entry \<Rightarrow> nat" where
  "plen e = unat (be_count e) * tsize (be_type e)"

definition payload :: "u8 list \<Rightarrow> camera_metadata_buffer_entry \<Rightarrow> u8 list" where
  "payload area e = take (plen e) (if plen e > 4 then drop (eoff e) area else be_data e)"

definition used :: "'u camera_metadata \<Rightarrow> camera_metadata_buffer_entry list" where
  "used md = take (unat (md_entry_count md)) (md_entries md)"

text \<open>The abstract packet: the list of its entries, each tag, type, count and bytes.\<close>

definition abs_entry :: "u8 list \<Rightarrow> camera_metadata_buffer_entry \<Rightarrow> u32 \<times> u8 \<times> u32 \<times> u8 list" where
  "abs_entry area e = (be_tag e, be_type e, be_count e, payload area e)"

definition abs_md :: "'u camera_metadata \<Rightarrow> (u32 \<times> u8 \<times> u32 \<times> u8 list) list" where
  "abs_md md = map (abs_entry (md_data md)) (used md)"

text \<open>An entry is well formed: a known type, no wrapped size, its data within the used area.\<close>

definition entry_ok :: "nat \<Rightarrow> camera_metadata_buffer_entry \<Rightarrow> bool" where
  "entry_ok dc e \<longleftrightarrow> be_type e < NUM_TYPES \<and> length (be_data e) = 4 \<and> plen e < 2 ^ 32 \<and>
     (esize e > 0 \<longrightarrow> eoff e + esize e \<le> dc)"

definition apart :: "camera_metadata_buffer_entry \<Rightarrow> camera_metadata_buffer_entry \<Rightarrow> bool" where
  "apart e f \<longleftrightarrow> esize e = 0 \<or> esize f = 0 \<or> eoff e + esize e \<le> eoff f \<or> eoff f + esize f \<le> eoff e"

definition wf_md :: "'u camera_metadata \<Rightarrow> bool" where
  "wf_md md \<longleftrightarrow>
     length (md_entries md) = unat (md_entry_capacity md) \<and> list_all (\<lambda>e. length (be_data e) = 4) (md_entries md) \<and>
     length (md_data md) = unat (md_data_capacity md) \<and>
     md_entry_count md \<le> md_entry_capacity md \<and> md_data_count md \<le> md_data_capacity md \<and>
     unat (md_size md) = 40 + length (md_reserved md) + 16 * unat (md_entry_capacity md) + unat (md_data_capacity md) \<and>
     list_all (entry_ok (unat (md_data_count md))) (used md) \<and>
     sorted_wrt apart (used md) \<and>
     (md_flags md AND FLAG_SORTED \<noteq> 0 \<longrightarrow> sorted (map be_tag (used md)))"

section \<open>Entries and the data area\<close>

lemma type_cases:
  assumes "ty < NUM_TYPES"
  shows "unat ty < length camera_metadata_type_size \<and> tsize ty \<in> {1, 4, 8}"
proof -
  have "unat ty < 6" using assms by (simp add: word_less_nat_alt)
  then have "unat ty \<in> {0, 1, 2, 3, 4, 5}" by auto
  then show ?thesis by (auto simp: tsize_def camera_metadata_type_size_def)
qed

lemma type_size_ok [mem_simps]: "ty < NUM_TYPES \<Longrightarrow> type_size ty = Ret (camera_metadata_type_size ! unat ty)"
  using type_cases [of ty] by (simp add: load_def)

lemma size_product:
  assumes "unat n * tsize ty < 2 ^ 32"
  shows "unat (n * camera_metadata_type_size ! unat ty) = unat n * tsize ty"
  using assms unat_mult_u32 [of n "camera_metadata_type_size ! unat ty"] by (simp add: tsize_def)

lemma data_size:
  assumes "ty < NUM_TYPES" "unat n * tsize ty < 2 ^ 32"
  shows "unat (calculate_camera_metadata_entry_data_size ty n) =
    (if unat n * tsize ty \<le> 4 then 0 else unat n * tsize ty)"
  using assms size_product [OF assms(2)]
  by (simp add: calculate_camera_metadata_entry_data_size_def Let_def word_le_nat_alt word_less_nat_alt not_le)

lemma esize_plen: "be_type e < NUM_TYPES \<Longrightarrow> plen e < 2 ^ 32 \<Longrightarrow> esize e = (if plen e \<le> 4 then 0 else plen e)"
  using data_size [of "be_type e" "be_count e"] by (simp add: esize_def plen_def)

lemma entry_ok_esize: "entry_ok dc e \<Longrightarrow> esize e = (if plen e \<le> 4 then 0 else plen e)"
  using esize_plen by (simp add: entry_ok_def)

lemma apart_sym: "apart e f \<Longrightarrow> apart f e"
  by (auto simp: apart_def)

lemma plen_simps [simp]:
  "plen (e\<lparr>be_data := v\<rparr>) = plen e" "esize (e\<lparr>be_data := v\<rparr>) = esize e" "eoff (e\<lparr>be_data := le32 w\<rparr>) = unat w"
  "plen (e\<lparr>be_tag := t\<rparr>) = plen e"
  by (simp_all add: plen_def esize_def eoff_def)

lemma entry_ok_mono: "entry_ok dc e \<Longrightarrow> dc \<le> dc' \<Longrightarrow> entry_ok dc' e"
  by (auto simp: entry_ok_def)

text \<open>A longer area, or one that agrees on the used part, gives the same payload.\<close>

lemma payload_prefix:
  assumes "entry_ok dc e" "take dc area = take dc area'"
  shows "payload area e = payload area' e"
proof (cases "plen e > 4")
  case True
  with assms(1) have b: "plen e + eoff e \<le> dc" using entry_ok_esize [OF assms(1)] by (simp add: entry_ok_def)
  have "take (plen e + eoff e) area = take (plen e + eoff e) area'"
    using arg_cong [OF assms(2), of "take (plen e + eoff e)"] b by (simp add: min_def)
  then show ?thesis using True by (simp add: payload_def take_drop)
qed (simp add: payload_def)

text \<open>Closing a gap moves the bytes behind it and the offsets that point there together.\<close>

definition gap_closed :: "nat \<Rightarrow> nat \<Rightarrow> nat \<Rightarrow> u8 list \<Rightarrow> u8 list" where
  "gap_closed off n dc area = take off area @ take (dc - off - n) (drop (off + n) area) @ drop (dc - n) area"

lemma gap_before:
  "a + m \<le> off \<Longrightarrow> off \<le> length area \<Longrightarrow> take m (drop a (gap_closed off n dc area)) = take m (drop a area)"
  unfolding gap_closed_def by (rule read_before)

lemma gap_behind:
  assumes "off + n \<le> a" "a + m \<le> dc" "dc \<le> length area"
  shows "take m (drop (a - n) (gap_closed off n dc area)) = take m (drop a area)"
proof -
  let ?X = "drop (off + n) area" and ?k = "a - n - off"
  have "drop (a - n) (gap_closed off n dc area) = drop ?k (take (dc - off - n) ?X @ drop (dc - n) area)"
    using assms by (simp add: gap_closed_def)
  also have "take m \<dots> = take m (drop ?k ?X)"
    using assms by (simp add: take_drop)
  also have "drop ?k ?X = drop a area" using assms by (simp add: add.commute)
  finally show ?thesis .
qed

lemma length_gap_closed [simp]: "off + n \<le> dc \<Longrightarrow> dc \<le> length area \<Longrightarrow> length (gap_closed off n dc area) = length area"
  by (simp add: gap_closed_def)

text \<open>The effect of closing the gap of \<open>e\<close> on another entry \<open>f\<close>.\<close>

lemma shift_after_other:
  fixes area
  assumes "entry_ok dc e" "esize e > 0" "entry_ok dc f" "apart f e" "dc \<le> length area" "dc < 2 ^ 32"
    and "off = entry_offset e" "unat bytes = esize e"
  defines "f' \<equiv> shift_after off bytes f"
  shows "abs_entry (gap_closed (eoff e) (esize e) dc area) f' = abs_entry area f"
    and "entry_ok (dc - esize e) f'"
    and "esize f' = esize f" and "be_tag f' = be_tag f"
    and "esize f > 0 \<Longrightarrow> eoff f' = (if eoff f < eoff e then eoff f else eoff f - esize e)"
proof -
  have e: "eoff e + esize e \<le> dc" using assms(1,2) by (simp add: entry_ok_def)
  have pos: "calculate_camera_metadata_entry_data_size (be_type f) (be_count f) > 0 \<longleftrightarrow> esize f > 0"
    by (simp add: esize_def word_less_nat_alt)
  have gt: "entry_offset f > off \<longleftrightarrow> eoff f > eoff e"
    by (simp add: assms(7) eoff_def word_less_nat_alt)
  have f': "f' = (if esize f > 0 \<and> eoff f > eoff e then set_offset f (entry_offset f - bytes) else f)"
    by (simp add: f'_def shift_after_def pos gt)
  show es: "esize f' = esize f" and tag: "be_tag f' = be_tag f" by (simp_all add: f')
  have len: "length (be_data f') = 4" using assms(3) by (simp add: f' entry_ok_def)
  have "abs_entry (gap_closed (eoff e) (esize e) dc area) f' = abs_entry area f \<and> entry_ok (dc - esize e) f' \<and>
    (esize f > 0 \<longrightarrow> eoff f' = (if eoff f < eoff e then eoff f else eoff f - esize e))"
  proof (cases "esize f > 0")
    case False
    then have "f' = f" "\<not> plen f > 4" using entry_ok_esize [OF assms(3)] by (auto simp: f' split: if_splits)
    with False assms(3) show ?thesis by (simp add: abs_entry_def payload_def entry_ok_def)
  next
    case True
    with entry_ok_esize [OF assms(3)] have p: "plen f > 4" "esize f = plen f" by (auto split: if_splits)
    have in_dc: "eoff f + esize f \<le> dc" using assms(3) True by (simp add: entry_ok_def)
    from assms(4) True assms(2) consider (before) "eoff f + esize f \<le> eoff e" | (behind) "eoff e + esize e \<le> eoff f"
      by (auto simp: apart_def)
    then show ?thesis
    proof cases
      case before
      then have "f' = f" using True by (simp add: f')
      with before p assms(3) e assms(5) True in_dc show ?thesis
        by (simp add: abs_entry_def payload_def gap_before entry_ok_def)
    next
      case behind
      then have f'2: "f' = set_offset f (entry_offset f - bytes)" using assms(2) True by (simp add: f')
      have "unat bytes \<le> unat (entry_offset f)" using behind assms(8) by (simp add: eoff_def)
      then have o: "eoff f' = eoff f - esize e"
        using assms(8) by (simp add: f'2 unat_sub_u32 eoff_def)
      have "payload (gap_closed (eoff e) (esize e) dc area) f' = payload area f"
        using gap_behind [of "eoff e" "esize e" "eoff f" "plen f" dc area] behind p in_dc assms(5)
        by (simp add: payload_def o) (simp add: f'2)
      then show ?thesis
        using behind o p assms(2,3) in_dc len es True by (simp add: abs_entry_def entry_ok_def f'2)
    qed
  qed
  then show "abs_entry (gap_closed (eoff e) (esize e) dc area) f' = abs_entry area f" "entry_ok (dc - esize e) f'"
    "esize f > 0 \<Longrightarrow> eoff f' = (if eoff f < eoff e then eoff f else eoff f - esize e)"
    by blast+
qed

lemma shift_after_apart:
  assumes "entry_ok dc e" "esize e > 0" "entry_ok dc f" "entry_ok dc g" "apart f e" "apart g e" "apart f g"
    and "dc < 2 ^ 32" "unat bytes = esize e"
  shows "apart (shift_after (entry_offset e) bytes f) (shift_after (entry_offset e) bytes g)"
proof -
  note F = shift_after_other [OF assms(1-3,5) _ assms(8) refl assms(9), of "replicate dc 0"]
  note G = shift_after_other [OF assms(1,2,4,6) _ assms(8) refl assms(9), of "replicate dc 0"]
  have "apart f e" "apart g e" "apart f g" by (rule assms)+
  with assms(2) F(3,5) G(3,5) show ?thesis
    unfolding apart_def by (cases "esize f > 0"; cases "esize g > 0") auto
qed

lemma sorted_wrt_apart_at:
  assumes "sorted_wrt apart (xs @ e # ys)" "f \<in> set (xs @ ys)"
  shows "apart f e"
  using assms by (auto simp: sorted_wrt_append intro: apart_sym)

lemma sorted_wrt_map_in:
  "sorted_wrt R xs \<Longrightarrow> (\<And>x y. x \<in> set xs \<Longrightarrow> y \<in> set xs \<Longrightarrow> R x y \<Longrightarrow> Q (s x) (s y)) \<Longrightarrow> sorted_wrt Q (map s xs)"
  by (induction xs) auto

text \<open>Closing the gap of \<open>e\<close> for all other entries at once.\<close>

lemma gap_entries:
  assumes ok: "list_all (entry_ok dc) (xs @ e # ys)" and srt: "sorted_wrt apart (xs @ e # ys)"
    and e: "esize e > 0" and len: "dc \<le> length area" "dc < 2 ^ 32" and bytes: "unat bytes = esize e"
  defines "s \<equiv> shift_after (entry_offset e) bytes"
  shows "map (abs_entry (gap_closed (eoff e) (esize e) dc area)) (map s (xs @ ys)) = map (abs_entry area) (xs @ ys)"
    and "list_all (entry_ok (dc - esize e)) (map s (xs @ ys))"
    and "sorted_wrt apart (map s (xs @ ys))"
    and "map be_tag (map s (xs @ ys)) = map be_tag (xs @ ys)"
proof -
  have oke: "entry_ok dc e" and okf: "entry_ok dc f" if "f \<in> set (xs @ ys)" for f
    using ok that by (auto simp: list_all_iff)
  have oke: "entry_ok dc e" using ok by simp
  note ap = sorted_wrt_apart_at [OF srt]
  note S = shift_after_other [OF oke e okf ap len refl bytes]
  show "map (abs_entry (gap_closed (eoff e) (esize e) dc area)) (map s (xs @ ys)) = map (abs_entry area) (xs @ ys)"
    using S(1) by (simp only: map_map s_def) (rule map_cong [OF refl], simp)
  show "list_all (entry_ok (dc - esize e)) (map s (xs @ ys))"
    using S(2) by (simp only: list_all_iff set_map s_def) blast
  show "map be_tag (map s (xs @ ys)) = map be_tag (xs @ ys)"
    using S(4) by (simp only: map_map s_def) (rule map_cong [OF refl], simp)
  have "sorted_wrt apart (xs @ ys)" using srt by (simp add: sorted_wrt_append)
  then show "sorted_wrt apart (map s (xs @ ys))" unfolding s_def
    by (rule sorted_wrt_map_in) (rule shift_after_apart [OF oke e okf okf ap ap _ len(2) bytes])
qed

section \<open>The operations on well-formed packets\<close>

lemma wf_mdD:
  assumes "wf_md md"
  shows "length (md_entries md) = unat (md_entry_capacity md)" "length (md_data md) = unat (md_data_capacity md)"
    "unat (md_entry_count md) \<le> unat (md_entry_capacity md)" "unat (md_data_count md) \<le> unat (md_data_capacity md)"
    "unat (md_size md) = 40 + length (md_reserved md) + 16 * unat (md_entry_capacity md) + unat (md_data_capacity md)"
    "list_all (entry_ok (unat (md_data_count md))) (used md)" "sorted_wrt apart (used md)"
    "md_flags md AND FLAG_SORTED \<noteq> 0 \<Longrightarrow> sorted (map be_tag (used md))"
    "\<And>e. e \<in> set (md_entries md) \<Longrightarrow> length (be_data e) = 4"
  using assms by (simp_all add: wf_md_def word_le_nat_alt list_all_iff)

lemma wf_mdI:
  assumes "length (md_entries md) = unat (md_entry_capacity md)" "length (md_data md) = unat (md_data_capacity md)"
    "unat (md_entry_count md) \<le> unat (md_entry_capacity md)" "unat (md_data_count md) \<le> unat (md_data_capacity md)"
    "unat (md_size md) = 40 + length (md_reserved md) + 16 * unat (md_entry_capacity md) + unat (md_data_capacity md)"
    "list_all (entry_ok (unat (md_data_count md))) (used md)" "sorted_wrt apart (used md)"
    "md_flags md AND FLAG_SORTED \<noteq> 0 \<Longrightarrow> sorted (map be_tag (used md))"
    "\<And>e. e \<in> set (md_entries md) \<Longrightarrow> length (be_data e) = 4"
  shows "wf_md md"
  using assms by (simp add: wf_md_def word_le_nat_alt list_all_iff)

lemma used_length: "wf_md md \<Longrightarrow> length (used md) = unat (md_entry_count md)"
  using wf_mdD(1,3) [of md] by (simp add: used_def)

lemma abs_md_length: "wf_md md \<Longrightarrow> length (abs_md md) = unat (md_entry_count md)"
  by (simp add: abs_md_def used_length)

lemma used_split:
  assumes "wf_md md" "i < unat (md_entry_count md)"
  obtains xs ys where "used md = xs @ md_entries md ! i # ys" "take i (used md) = xs" "drop (Suc i) (used md) = ys"
  using assms used_length [OF assms(1)] id_take_nth_drop [of i "used md"] that by (simp add: used_def)

lemma wf_entry_count_small: "wf_md md \<Longrightarrow> 16 * unat (md_entry_capacity md) < 2 ^ 32"
  using wf_mdD(5) [of md] unat_less_u32 [of "md_size md"] by linarith

lemma slots_id: "16 * unat n < 2 ^ 32 \<Longrightarrow> slots n = unat n"
  using unat_mult_u32 [of sizeof_entry n] by simp

lemma remove_data_run:
  assumes "wf_md md" "i < unat (md_entry_count md)" "esize (md_entries md ! i) > 0"
  defines "e \<equiv> md_entries md ! i"
  defines "b \<equiv> calculate_camera_metadata_entry_data_size (be_type e) (be_count e)"
  shows "remove_data (entry_offset e) b md = Ret (md
    \<lparr>md_data := gap_closed (eoff e) (esize e) (unat (md_data_count md)) (md_data md),
     md_entries := map (shift_after (entry_offset e) b) (used md) @ drop (unat (md_entry_count md)) (md_entries md),
     md_data_count := md_data_count md - b\<rparr>)"
proof -
  note W = wf_mdD [OF assms(1)]
  have "entry_ok (unat (md_data_count md)) e"
    using W(6) used_length [OF assms(1)] assms(2) by (simp add: list_all_length e_def used_def)
  then have o: "eoff e + esize e \<le> unat (md_data_count md)"
    using assms(3) by (simp add: entry_ok_def e_def)
  have "unat (md_data_count md - entry_offset e - b) = unat (md_data_count md) - eoff e - esize e"
    using o by (simp add: unat_sub_u32 eoff_def esize_def b_def)
  then have m: "memmove (md_data md) (unat (entry_offset e)) (unat (entry_offset e) + unat b)
      (unat (md_data_count md - entry_offset e - b)) =
    Ret (gap_closed (eoff e) (esize e) (unat (md_data_count md)) (md_data md))"
    using o W(2,4) by (simp add: memmove_ok gap_closed_def eoff_def esize_def b_def)
  have "length (used md) = unat (md_entry_count md)" by (rule used_length [OF assms(1)])
  then show ?thesis
    unfolding remove_data_def m using W(1,3) by (simp add: mem_simps used_def)
qed

text \<open>
  The packet after the data of entry \<open>i\<close> is removed, and what then happened to each entry:
  the common first half of deleting and updating.
\<close>

definition moved :: "'u camera_metadata \<Rightarrow> nat \<Rightarrow> camera_metadata_buffer_entry \<Rightarrow> camera_metadata_buffer_entry" where
  "moved md i f =
     (let e = md_entries md ! i
      in if esize e > 0
         then shift_after (entry_offset e) (calculate_camera_metadata_entry_data_size (be_type e) (be_count e)) f
         else f)"

definition others :: "'u camera_metadata \<Rightarrow> nat \<Rightarrow> camera_metadata_buffer_entry list" where
  "others md i = take i (used md) @ drop (Suc i) (used md)"

lemma moved_fields [simp]:
  "be_tag (moved md i f) = be_tag f" "be_type (moved md i f) = be_type f" "be_count (moved md i f) = be_count f"
  "plen (moved md i f) = plen f" "esize (moved md i f) = esize f"
  by (simp_all add: moved_def shift_after_def Let_def)

lemma moved_length: "length (be_data f) = 4 \<Longrightarrow> length (be_data (moved md i f)) = 4"
  by (simp add: moved_def shift_after_def Let_def)

lemma data_removed:
  assumes "wf_md md" "i < unat (md_entry_count md)"
  defines "e \<equiv> md_entries md ! i"
  defines "b \<equiv> calculate_camera_metadata_entry_data_size (be_type e) (be_count e)"
  obtains area dc where
    "(if b > 0 then remove_data (entry_offset e) b md else Ret md) = Ret (md\<lparr>md_data := area,
       md_entries := map (moved md i) (used md) @ drop (unat (md_entry_count md)) (md_entries md), md_data_count := dc\<rparr>)"
    "unat dc = unat (md_data_count md) - esize e" "esize e \<le> unat (md_data_count md)"
    "length area = length (md_data md)"
    "map (abs_entry area) (map (moved md i) (others md i)) = map (abs_entry (md_data md)) (others md i)"
    "list_all (entry_ok (unat dc)) (map (moved md i) (others md i))"
    "sorted_wrt apart (map (moved md i) (others md i))"
proof (cases "esize e > 0")
  case False
  then have b: "\<not> b > 0" by (simp add: b_def esize_def word_less_nat_alt)
  have id: "moved md i = (\<lambda>f. f)" using False by (simp add: moved_def e_def fun_eq_iff)
  obtain xs ys where "used md = xs @ md_entries md ! i # ys" "take i (used md) = xs" "drop (Suc i) (used md) = ys"
    by (rule used_split [OF assms(1,2)])
  then have ok: "list_all (entry_ok (unat (md_data_count md))) (others md i)" "sorted_wrt apart (others md i)"
    using wf_mdD(6,7) [OF assms(1)] by (simp_all add: others_def sorted_wrt_append)
  have "md\<lparr>md_data := md_data md, md_entries := map (moved md i) (used md) @ drop (unat (md_entry_count md)) (md_entries md),
      md_data_count := md_data_count md\<rparr> = md"
    by (simp add: used_def id)
  then have R: "(if b > 0 then remove_data (entry_offset e) b md else Ret md) = Ret (md\<lparr>md_data := md_data md,
      md_entries := map (moved md i) (used md) @ drop (unat (md_entry_count md)) (md_entries md),
      md_data_count := md_data_count md\<rparr>)"
    using b by (simp only: if_False)
  show ?thesis
    by (rule that [OF R]) (use False ok in \<open>simp_all only: id list.map_ident minus_nat.diff_0 neq0_conv [symmetric] not_not le0\<close>)
next
  case True
  then have b: "b > 0" by (simp add: b_def esize_def word_less_nat_alt)
  have mv: "moved md i = shift_after (entry_offset e) b"
    using True by (simp add: moved_def e_def b_def fun_eq_iff Let_def)
  note W = wf_mdD [OF assms(1)]
  obtain xs ys where sp: "used md = xs @ e # ys" and tk: "take i (used md) = xs" "drop (Suc i) (used md) = ys"
    unfolding e_def by (rule used_split [OF assms(1,2)])
  have o: "xs @ ys = others md i" unfolding others_def tk ..
  have bytes: "unat b = esize e" by (simp add: b_def esize_def)
  have dc: "unat (md_data_count md) \<le> length (md_data md)" "unat (md_data_count md) < 2 ^ 32"
    using W(2,4) unat_less_u32 by simp_all
  note G = gap_entries [OF W(6) [unfolded sp] W(7) [unfolded sp] True dc bytes, folded mv, unfolded o]
  have "entry_ok (unat (md_data_count md)) e" using W(6) unfolding sp by simp
  then have le: "eoff e + esize e \<le> unat (md_data_count md)" using True by (simp add: entry_ok_def)
  then have cnt: "unat (md_data_count md - b) = unat (md_data_count md) - esize e"
    using bytes by (simp add: unat_sub_u32)
  note R = remove_data_run [OF assms(1,2) True [unfolded e_def], folded e_def, folded b_def, folded mv]
  have R': "(if b > 0 then remove_data (entry_offset e) b md else Ret md) = Ret (md
      \<lparr>md_data := gap_closed (eoff e) (esize e) (unat (md_data_count md)) (md_data md),
       md_entries := map (moved md i) (used md) @ drop (unat (md_entry_count md)) (md_entries md),
       md_data_count := md_data_count md - b\<rparr>)"
    using b R by (simp only: if_True)
  show ?thesis
  proof (rule that [OF R' cnt _ _ G(1)])
    show "esize e \<le> unat (md_data_count md)" using le by simp
    show "length (gap_closed (eoff e) (esize e) (unat (md_data_count md)) (md_data md)) = length (md_data md)"
      using le dc(1) by simp
  qed (unfold cnt, rule G(2), rule G(3))
qed

section \<open>Properties\<close>

lemma take_drop_moved:
  "i < length us \<Longrightarrow> take i (map s us @ rest) @ take (length us - Suc i) (drop (Suc i) (map s us @ rest)) =
     map s (take i us @ drop (Suc i) us)"
  by (simp add: take_map drop_map)

lemma sorted_append_middle: "sorted (map f (xs @ e # ys)) \<Longrightarrow> sorted (map f (xs @ ys))"
  by (simp add: sorted_append)

lemma sorted_others:
  assumes "wf_md md" "i < unat (md_entry_count md)" "sorted (map be_tag (used md))"
  shows "sorted (map be_tag (others md i))"
  using assms(3) used_split [OF assms(1,2)] unfolding others_def by (metis sorted_append_middle)

lemma payloads_prefix:
  assumes "list_all (entry_ok dc) es" "take dc area = take dc area'"
  shows "map (abs_entry area) es = map (abs_entry area') es"
  using assms payload_prefix [OF _ assms(2)] by (auto simp: list_all_iff abs_entry_def)

lemma used_store:
  assumes "wf_md md" "unat (md_entry_count md) < unat (md_entry_capacity md)"
  shows "take (unat (md_entry_count md + 1)) ((md_entries md)[unat (md_entry_count md) := e]) = used md @ [e]"
proof -
  let ?n = "unat (md_entry_count md)"
  have "unat (md_entry_count md + 1) = Suc ?n"
    using assms(2) unat_less_u32 [of "md_entry_capacity md"] unat_add_u32 [of "md_entry_count md" 1] by simp
  then show ?thesis
    using assms(2) wf_mdD(1) [OF assms(1)] by (simp add: take_Suc_conv_app_nth used_def)
qed

lemma flag_cleared [simp]: "(w AND - 2) AND FLAG_SORTED = 0"
  by (simp add: and.assoc)

text \<open>
  C10. \<open>delete_camera_metadata_entry\<close> removes exactly the entry at the index: the packet
  stays well formed, the other entries keep their order, their tags and all their bytes although
  data is moved and offsets are adjusted, and the data area shrinks by what the entry used. An
  index out of range is an error that changes nothing. No access leaves the packet.
\<close>

theorem delete_entry_correct:
  assumes "wf_md md"
  shows "if index < md_entry_count md
    then \<exists>md'. delete_camera_metadata_entry (Some md) index = Ret (OK, Some md') \<and> wf_md md' \<and>
      abs_md md' = take (unat index) (abs_md md) @ drop (Suc (unat index)) (abs_md md) \<and>
      unat (md_data_count md') = unat (md_data_count md) - esize (md_entries md ! unat index)
    else delete_camera_metadata_entry (Some md) index = Ret (ERROR, Some md)"
proof (cases "index < md_entry_count md")
  case False
  then show ?thesis by (simp add: delete_camera_metadata_entry_def not_less)
next
  case True
  let ?i = "unat index" and ?e = "md_entries md ! unat index"
  let ?b = "calculate_camera_metadata_entry_data_size (be_type ?e) (be_count ?e)"
  have i: "?i < unat (md_entry_count md)" using True by (simp add: word_less_nat_alt)
  note W = wf_mdD [OF assms] and len = used_length [OF assms]
  obtain area dc where R: "(if ?b > 0 then remove_data (entry_offset ?e) ?b md else Ret md) = Ret (md\<lparr>md_data := area,
       md_entries := map (moved md ?i) (used md) @ drop (unat (md_entry_count md)) (md_entries md), md_data_count := dc\<rparr>)"
    and dc: "unat dc = unat (md_data_count md) - esize ?e" and area: "length area = length (md_data md)"
    and abs: "map (abs_entry area) (map (moved md ?i) (others md ?i)) = map (abs_entry (md_data md)) (others md ?i)"
    and ok: "list_all (entry_ok (unat dc)) (map (moved md ?i) (others md ?i))"
    and ap: "sorted_wrt apart (map (moved md ?i) (others md ?i))"
    by (rule data_removed [OF assms i])
  define es where "es = map (moved md ?i) (used md) @ drop (unat (md_entry_count md)) (md_entries md)"
  have n: "unat (md_entry_count md - index - 1) = unat (md_entry_count md) - Suc ?i"
    using i by (simp add: unat_sub_u32 unat_sub_u32 [of 1])
  have sl: "slots (md_entry_count md - index - 1) = unat (md_entry_count md) - Suc ?i"
    using wf_entry_count_small [OF assms] W(3) by (subst slots_id) (simp_all add: n)
  have "length es = unat (md_entry_capacity md)" using W(1,3) len by (simp add: es_def)
  then have mm: "memmove es ?i (?i + 1) (slots (md_entry_count md - index - 1)) =
      Ret (take ?i es @ take (unat (md_entry_count md) - Suc ?i) (drop (Suc ?i) es) @ drop (unat (md_entry_count md) - 1) es)"
    using i W(3) unfolding sl by (simp add: memmove_ok)
  define md' where "md' = md\<lparr>md_data := area, md_data_count := dc,
      md_entries := take ?i es @ take (unat (md_entry_count md) - Suc ?i) (drop (Suc ?i) es) @ drop (unat (md_entry_count md) - 1) es,
      md_entry_count := md_entry_count md - 1\<rparr>"
  have del: "delete_camera_metadata_entry (Some md) index = Ret (OK, Some md')"
    using True R i W(1,3) mm
    by (simp add: delete_camera_metadata_entry_def load_ok Let_def es_def md'_def not_le)
  have cnt: "unat (md_entry_count md - 1) = unat (md_entry_count md) - 1" using i by (simp add: unat_sub_u32)
  have F: "md_data md' = area" "md_data_count md' = dc" "md_flags md' = md_flags md" "md_size md' = md_size md"
      "md_reserved md' = md_reserved md" "md_entry_capacity md' = md_entry_capacity md"
      "md_data_capacity md' = md_data_capacity md" "md_entry_count md' = md_entry_count md - 1"
    by (simp_all add: md'_def)
  have "length (map (moved md ?i) (others md ?i)) = unat (md_entry_count md) - 1"
    using i len by (simp add: others_def)
  then have u: "used md' = map (moved md ?i) (others md ?i)"
    using take_drop_moved [of ?i "used md" "moved md ?i" "drop (unat (md_entry_count md)) (md_entries md)"] i len
    by (simp add: used_def md'_def cnt es_def others_def flip: append_assoc)
  have "unat (md_entry_count md) - Suc 0 \<le> unat (md_entry_capacity md)" "unat dc \<le> unat (md_data_capacity md)"
    using W(3,4) dc by linarith+
  moreover have "length (md_entries md') = unat (md_entry_capacity md)"
    using i W(3) \<open>length es = _\<close> by (simp add: md'_def min_def) arith
  moreover have "md_flags md AND FLAG_SORTED \<noteq> 0 \<Longrightarrow> sorted (map be_tag (map (moved md ?i) (others md ?i)))"
    using W(8) sorted_others [OF assms i] by (simp add: comp_def)
  moreover have "length (be_data f) = 4" if "f \<in> set (md_entries md')" for f
  proof -
    from that have "f \<in> set es" by (auto simp: md'_def dest: in_set_takeD in_set_dropD)
    then show ?thesis using W(9) by (auto simp: es_def used_def moved_length dest: in_set_takeD in_set_dropD)
  qed
  ultimately have "wf_md md'"
    using W(2,5) ok ap area cnt by (intro wf_mdI) (simp_all add: F u del: map_map)
  moreover have "abs_md md' = take ?i (abs_md md) @ drop (Suc ?i) (abs_md md)"
    using abs unfolding abs_md_def u by (simp add: md'_def others_def take_map drop_map)
  ultimately show ?thesis using True del dc by (simp add: md'_def)
qed

lemma add_entry_run:
  assumes "wf_md md" "ty < NUM_TYPES" "md_entry_count md \<noteq> md_entry_capacity md"
    and n: "unat cnt * tsize ty < 2 ^ 32" "unat cnt * tsize ty \<le> length bytes"
    and room: "unat (md_data_count md) + unat (calculate_camera_metadata_entry_data_size ty cnt) \<le> unat (md_data_capacity md)"
  obtains e area where
    "add_camera_metadata_entry_raw (Some md) tag ty (Some bytes) cnt = Ret (OK, Some (md
       \<lparr>md_entries := (md_entries md)[unat (md_entry_count md) := e], md_data := area,
        md_data_count := md_data_count md + calculate_camera_metadata_entry_data_size ty cnt,
        md_entry_count := md_entry_count md + 1, md_flags := md_flags md AND NOT FLAG_SORTED\<rparr>))"
    "length area = length (md_data md)" "take (unat (md_data_count md)) area = take (unat (md_data_count md)) (md_data md)"
    "abs_entry area e = (tag, ty, cnt, take (unat cnt * tsize ty) bytes)" "length (be_data e) = 4"
    "esize e > 0 \<longrightarrow> eoff e = unat (md_data_count md)"
proof -
  note W = wf_mdD [OF assms(1)]
  let ?n = "unat (md_entry_count md)" and ?b = "calculate_camera_metadata_entry_data_size ty cnt"
  let ?slot = "(md_entries md ! ?n)\<lparr>be_tag := tag, be_type := ty, be_count := cnt\<rparr>"
  have lt: "?n < unat (md_entry_capacity md)" using W(3) assms(3) by (simp add: le_less word_unat_eq_iff)
  then have d4: "length (be_data ?slot) = 4" using W(1,9) by simp
  note ds = data_size [OF assms(2) n(1)]
  show ?thesis
  proof (cases "?b = 0")
    case True
    with ds have small: "unat cnt * tsize ty \<le> 4" by (simp split: if_splits)
    let ?e = "?slot\<lparr>be_data := take (unat cnt * tsize ty) bytes @ drop (unat cnt * tsize ty) (be_data ?slot)\<rparr>"
    have "add_camera_metadata_entry_raw (Some md) tag ty (Some bytes) cnt = Ret (OK, Some (md
       \<lparr>md_entries := (md_entries md)[?n := ?e], md_data := md_data md, md_data_count := md_data_count md + ?b,
        md_entry_count := md_entry_count md + 1, md_flags := md_flags md AND NOT FLAG_SORTED\<rparr>))"
      using True assms(2,3) lt W(1) d4 small n
      by (simp add: add_camera_metadata_entry_raw_def mem_simps size_product)
    then show ?thesis
      by (rule that) (use True small n(2) d4 in \<open>simp_all add: abs_entry_def payload_def plen_def esize_def\<close>)
  next
    case False
    with ds have big: "unat ?b = unat cnt * tsize ty" "\<not> unat cnt * tsize ty \<le> 4"
      by (auto simp: unat_eq_0 split: if_splits)
    let ?area = "take (unat (md_data_count md)) (md_data md) @ take (unat ?b) bytes @ drop (unat (md_data_count md) + unat ?b) (md_data md)"
    have "add_camera_metadata_entry_raw (Some md) tag ty (Some bytes) cnt = Ret (OK, Some (md
       \<lparr>md_entries := (md_entries md)[?n := set_offset ?slot (md_data_count md)], md_data := ?area, md_data_count := md_data_count md + ?b,
        md_entry_count := md_entry_count md + 1, md_flags := md_flags md AND NOT FLAG_SORTED\<rparr>))"
      using False assms(2,3) lt W(1,2) room n big by (simp add: add_camera_metadata_entry_raw_def mem_simps)
    then show ?thesis
    proof (rule that)
      show "abs_entry ?area (set_offset ?slot (md_data_count md)) = (tag, ty, cnt, take (unat cnt * tsize ty) bytes)"
        using big n(2) room W(2) by (simp add: abs_entry_def payload_def plen_def eoff_def)
    qed (use room W(2) n(2) big in \<open>simp_all add: eoff_def\<close>)
  qed
qed

lemma entry_ok_before_apart: "entry_ok dc f \<Longrightarrow> (esize e > 0 \<Longrightarrow> dc \<le> eoff e) \<Longrightarrow> apart f e"
  by (auto simp: entry_ok_def apart_def)

text \<open>
  C22. \<open>add_camera_metadata_entry\<close> with a known tag appends one entry that holds the
  caller's bytes; the entries before it are unchanged and the packet stays well formed (and
  loses its sorted mark). A packet without a free slot is left alone and ERROR is returned. The
  space left in the data area is not asked for: when the bytes do not fit, the copy writes past
  the end of the packet.
\<close>

theorem add_entry_correct:
  assumes wf: "wf_md md" and ty: "get_camera_metadata_tag_type ops tag = Ret (uint ty)" "ty < NUM_TYPES"
    and n: "unat cnt * tsize ty < 2 ^ 32" "unat cnt * tsize ty \<le> length bytes"
  defines "res \<equiv> add_camera_metadata_entry ops (Some md) tag (Some bytes) cnt"
    and "extra \<equiv> unat (calculate_camera_metadata_entry_data_size ty cnt)"
  shows "if md_entry_count md = md_entry_capacity md then res = Ret (ERROR, Some md)
    else if unat (md_data_count md) + extra \<le> unat (md_data_capacity md)
    then \<exists>md'. res = Ret (OK, Some md') \<and> wf_md md' \<and>
      abs_md md' = abs_md md @ [(tag, ty, cnt, take (unat cnt * tsize ty) bytes)] \<and>
      unat (md_data_count md') = unat (md_data_count md) + extra
    else res = Fault"
proof -
  note W = wf_mdD [OF wf]
  have "uint ty \<noteq> - 1" using uint_ge_0 [of ty] by linarith
  then have res: "res = add_camera_metadata_entry_raw (Some md) tag ty (Some bytes) cnt"
    by (simp add: res_def add_camera_metadata_entry_def ty(1))
  consider (full) "md_entry_count md = md_entry_capacity md"
    | (fits) "md_entry_count md \<noteq> md_entry_capacity md" "unat (md_data_count md) + extra \<le> unat (md_data_capacity md)"
    | (over) "md_entry_count md \<noteq> md_entry_capacity md" "unat (md_data_capacity md) < unat (md_data_count md) + extra"
    by linarith
  then show ?thesis
  proof cases
    case full
    then show ?thesis by (simp add: res add_camera_metadata_entry_raw_def)
  next
    case over
    then have ne: "extra \<noteq> 0" using W(4) by linarith
    then have b: "calculate_camera_metadata_entry_data_size ty cnt \<noteq> 0" by (auto simp: extra_def)
    have "memcpy (md_data md) (unat (md_data_count md)) bytes extra = Fault"
      using over(2) W(2) by (auto simp: memcpy_def read_at_def write_at_def)
    with over b W(1,3) show ?thesis
      by (simp add: res add_camera_metadata_entry_raw_def load_ok extra_def le_less word_unat_eq_iff)
  next
    case fits
    let ?n = "unat (md_entry_count md)"
    obtain e area where run: "res = Ret (OK, Some (md
       \<lparr>md_entries := (md_entries md)[?n := e], md_data := area,
        md_data_count := md_data_count md + calculate_camera_metadata_entry_data_size ty cnt,
        md_entry_count := md_entry_count md + 1, md_flags := md_flags md AND NOT FLAG_SORTED\<rparr>))"
      and area: "length area = length (md_data md)" "take (unat (md_data_count md)) area = take (unat (md_data_count md)) (md_data md)"
      and e: "abs_entry area e = (tag, ty, cnt, take (unat cnt * tsize ty) bytes)" "length (be_data e) = 4"
        "esize e > 0 \<longrightarrow> eoff e = unat (md_data_count md)"
      unfolding res by (rule add_entry_run [where tag = tag, OF wf ty(2) fits(1) n fits(2) [unfolded extra_def]])
    define md' where "md' = md
       \<lparr>md_entries := (md_entries md)[?n := e], md_data := area,
        md_data_count := md_data_count md + calculate_camera_metadata_entry_data_size ty cnt,
        md_entry_count := md_entry_count md + 1, md_flags := md_flags md AND NOT FLAG_SORTED\<rparr>"
    have lt: "?n < unat (md_entry_capacity md)" using W(3) fits(1) by (simp add: le_less word_unat_eq_iff)
    then have cnt: "unat (md_entry_count md + 1) = Suc ?n"
      using unat_less_u32 [of "md_entry_capacity md"] unat_add_u32 [of "md_entry_count md" 1] by simp
    have dc: "unat (md_data_count md') = unat (md_data_count md) + extra"
      using fits(2) unat_less_u32 [of "md_data_capacity md"] by (simp add: md'_def extra_def unat_add_u32)
    have u: "used md' = used md @ [e]" unfolding used_def [of md'] using used_store [OF wf lt] by (simp add: md'_def)
    have et: "be_type e = ty" "be_count e = cnt" using e(1) by (simp_all add: abs_entry_def)
    then have es: "esize e = extra" "plen e = unat cnt * tsize ty" by (simp_all add: esize_def plen_def extra_def)
    have "entry_ok (unat (md_data_count md')) e" using e(2,3) et es ty(2) n(1) by (simp add: entry_ok_def dc)
    then have ok: "list_all (entry_ok (unat (md_data_count md'))) (used md')"
      using W(6) by (auto simp: u list_all_iff dc intro: entry_ok_mono)
    have "sorted_wrt apart (used md')"
      using W(6,7) e(3) by (auto simp: u sorted_wrt_append list_all_iff intro: entry_ok_before_apart)
    with ok have wf': "wf_md md'"
    proof (intro wf_mdI)
      fix f
      assume "f \<in> set (md_entries md')"
      then show "length (be_data f) = 4" using W(9) e(2) by (auto simp: md'_def dest: set_update_subset_insert [THEN subsetD])
    qed (use W(1,2,5) area cnt lt dc fits(2) in \<open>simp_all add: md'_def\<close>)
    have "abs_md md' = abs_md md @ [(tag, ty, cnt, take (unat cnt * tsize ty) bytes)]"
      using payloads_prefix [OF W(6) area(2)] e(1) unfolding abs_md_def u by (simp add: md'_def)
    with wf' dc fits run show ?thesis by (auto simp: md'_def)
  qed
qed

section \<open>Reading entries\<close>

text \<open>The bytes a caller reads through the pointer it got.\<close>

definition deref :: "'u camera_metadata \<Rightarrow> camera_metadata_entry \<Rightarrow> u8 list exec" where
  "deref md ce =
     (let n = unat (ce_count ce) * tsize (ce_type ce)
      in case ce_data ce of
           In_Data off \<Rightarrow> read_at off n (md_data md)
         | In_Entry i \<Rightarrow> do { e \<leftarrow> load (md_entries md) i; read_at 0 n (be_data e) })"

lemma get_entry_run:
  assumes "wf_md md" "unat index < unat (md_entry_count md)"
  obtains ce where "get_camera_metadata_entry (Some md) index True = Ret (OK, Some ce)"
    "ce_index ce = index" "deref md ce = Ret (payload (md_data md) (md_entries md ! unat index))"
    "abs_md md ! unat index = (ce_tag ce, ce_type ce, ce_count ce, payload (md_data md) (md_entries md ! unat index))"
proof -
  note W = wf_mdD [OF assms(1)]
  let ?e = "md_entries md ! unat index"
  have ok: "entry_ok (unat (md_data_count md)) ?e"
    using W(6) used_length [OF assms(1)] assms(2) by (simp add: list_all_length used_def)
  then have ty: "be_type ?e < NUM_TYPES" and p: "plen ?e < 2 ^ 32" and d: "length (be_data ?e) = 4"
    by (simp_all add: entry_ok_def)
  have big: "be_count ?e * camera_metadata_type_size ! unat (be_type ?e) > 4 \<longleftrightarrow> plen ?e > 4"
    using size_product [of "be_count ?e" "be_type ?e"] p by (simp add: plen_def word_less_nat_alt)
  let ?ce = "\<lparr>ce_index = index, ce_tag = be_tag ?e, ce_type = be_type ?e, ce_count = be_count ?e,
    ce_data = (if plen ?e > 4 then In_Data (unat (entry_offset ?e)) else In_Entry (unat index))\<rparr>"
  have in_dc: "plen ?e > 4 \<Longrightarrow> eoff ?e + plen ?e \<le> length (md_data md)"
    using ok entry_ok_esize [OF ok] W(2,4) by (simp add: entry_ok_def)
  show ?thesis
  proof (rule that [of ?ce])
    show "get_camera_metadata_entry (Some md) index True = Ret (OK, Some ?ce)"
      using assms(2) W(1,3) ty big by (simp add: get_camera_metadata_entry_def mem_simps word_le_nat_alt)
    show "deref md ?ce = Ret (payload (md_data md) ?e)"
      using in_dc d assms(2) W(1,3) by (auto simp: deref_def payload_def plen_def eoff_def mem_simps)
    show "abs_md md ! unat index = (ce_tag ?ce, ce_type ?ce, ce_count ?ce, payload (md_data md) ?e)"
      using assms(2) used_length [OF assms(1)] by (simp add: abs_md_def abs_entry_def used_def)
  qed simp
qed

section \<open>Updating\<close>

lemma moved_self: "moved md i (md_entries md ! i) = md_entries md ! i"
  by (simp add: moved_def shift_after_def Let_def)

text \<open>An entry put behind the others, between them in the list.\<close>

lemma insert_entry:
  assumes "list_all (entry_ok dc) (xs @ ys)" "sorted_wrt apart (xs @ ys)" "entry_ok dc' e" "dc \<le> dc'"
    "esize e > 0 \<longrightarrow> eoff e = dc" "take dc area = take dc area'"
  shows "list_all (entry_ok dc') (xs @ e # ys) \<and> sorted_wrt apart (xs @ e # ys) \<and>
    map (abs_entry area') (xs @ e # ys) = map (abs_entry area) xs @ abs_entry area' e # map (abs_entry area) ys"
proof (intro conjI)
  show "list_all (entry_ok dc') (xs @ e # ys)"
    using assms(1,3,4) by (auto simp: list_all_iff intro: entry_ok_mono)
  have "apart f e" "apart e f" if "f \<in> set (xs @ ys)" for f
    using that assms(1,5) entry_ok_before_apart [of dc f e] apart_sym by (auto simp: list_all_iff)
  then show "sorted_wrt apart (xs @ e # ys)" using assms(2) by (auto simp: sorted_wrt_append)
  show "map (abs_entry area') (xs @ e # ys) = map (abs_entry area) xs @ abs_entry area' e # map (abs_entry area) ys"
    using payloads_prefix [OF _ assms(6), of xs] payloads_prefix [OF _ assms(6), of ys] assms(1) by simp
qed

text \<open>Overwriting the data of \<open>e\<close> in place leaves every other payload as it was.\<close>

lemma payload_outside:
  assumes "entry_ok dc f" "apart f e" "esize e > 0" "eoff e + esize e \<le> length area" "length new = esize e"
  shows "payload (take (eoff e) area @ new @ drop (eoff e + esize e) area) f = payload area f"
proof (cases "plen f > 4")
  case True
  then have p: "esize f = plen f" "esize f > 0" using entry_ok_esize [OF assms(1)] by simp_all
  with assms(2,3) consider "eoff f + plen f \<le> eoff e" | "eoff e + esize e \<le> eoff f" by (auto simp: apart_def)
  then show ?thesis
  proof cases
    case 1
    then show ?thesis
      using True assms(4) read_before [of "eoff f" "plen f" "eoff e" area] by (simp only: payload_def if_True)
  next
    case 2
    then have "drop (eoff f) (take (eoff e) area @ new @ drop (eoff e + esize e) area) = drop (eoff f) area"
      using assms(4,5) by (simp add: min_def)
    then show ?thesis using True by (simp add: payload_def)
  qed
qed (simp add: payload_def)

text \<open>A packet whose entry \<open>i\<close> is replaced, the others only moved.\<close>

lemma replaced_entry:
  assumes wf: "wf_md md" and i: "i < unat (md_entry_count md)"
    and es: "length es = length (used md)" "map be_tag es = map be_tag (used md)"
    and e: "be_tag e = be_tag (md_entries md ! i)"
    and ok: "list_all (entry_ok (unat dc)) (es[i := e])" "sorted_wrt apart (es[i := e])"
    and len: "length area = length (md_data md)" "unat dc \<le> unat (md_data_capacity md)"
  defines "md' \<equiv> md\<lparr>md_data := area,
    md_entries := (es @ drop (unat (md_entry_count md)) (md_entries md))[i := e], md_data_count := dc\<rparr>"
  shows "wf_md md' \<and> abs_md md' = map (abs_entry area) (es[i := e])"
proof -
  note W = wf_mdD [OF wf] and n = used_length [OF wf]
  have ents: "md_entries md' = es[i := e] @ drop (unat (md_entry_count md)) (md_entries md)"
    using i es(1) n by (simp add: md'_def list_update_append)
  have F: "md_data md' = area" "md_data_count md' = dc" "md_flags md' = md_flags md" "md_size md' = md_size md"
      "md_reserved md' = md_reserved md" "md_entry_capacity md' = md_entry_capacity md"
      "md_data_capacity md' = md_data_capacity md" "md_entry_count md' = md_entry_count md"
    by (simp_all add: md'_def)
  have u: "used md' = es[i := e]" using es(1) n by (simp add: used_def ents F)
  have "be_tag e = map be_tag (used md) ! i" using i n e by (simp add: used_def)
  then have tags: "map be_tag (es[i := e]) = map be_tag (used md)"
    using es(2) i n by (simp add: map_update list_update_same_conv es(1))
  have "wf_md md'"
  proof (rule wf_mdI)
    fix f
    assume "f \<in> set (md_entries md')"
    then have "f \<in> set (es[i := e]) \<or> f \<in> set (md_entries md)" by (auto simp: ents dest: in_set_dropD)
    then show "length (be_data f) = 4" using ok(1) W(9) by (auto simp: list_all_iff entry_ok_def)
  qed (use W len ok es(1) n tags in \<open>simp_all add: F u ents\<close>)
  then show ?thesis by (simp add: abs_md_def u F)
qed

text \<open>The guard of \<open>update\<close> does not wrap when the packet and the caller's bytes are two objects.\<close>

lemma update_room:
  assumes "unat (dc :: u32) + unat n < 2 ^ 32" "unat old \<le> unat dc"
  shows "cap < dc + n - old \<longleftrightarrow> unat cap < unat dc - unat old + unat n"
  using assms by (simp add: word_less_nat_alt unat_sub_u32 unat_add_u32)

definition update_result ::
  "'u camera_metadata \<Rightarrow> u32 \<Rightarrow> bool \<Rightarrow> (cm_status \<times> 'u camera_metadata ptr \<times> camera_metadata_entry ptr) exec" where
  "update_result md' index want =
     do { out \<leftarrow> (if want then get_camera_metadata_entry (Some md') index True else Ret (OK, NULL));
          Ret (OK, Some md', snd out) }"

lemma md_update_swap:
  "md\<lparr>md_entries := es, md_data_count := dc\<rparr> = md\<lparr>md_data_count := dc, md_entries := es\<rparr>"
  by simp

lemma update_resized:
  fixes md :: "'u camera_metadata" and cnt :: u32
  assumes wf: "wf_md md" and idx: "index < md_entry_count md"
  defines "i \<equiv> unat index" and "e \<equiv> md_entries md ! unat index"
  defines "n \<equiv> unat cnt * tsize (be_type e)" and "b \<equiv> calculate_camera_metadata_entry_data_size (be_type e) cnt"
  assumes n: "n \<le> length bytes" "unat (md_size md) + length bytes < 2 ^ 32"
    and ne: "unat b \<noteq> esize e" and room: "unat (md_data_count md) - esize e + unat b \<le> unat (md_data_capacity md)"
  obtains md' where "update_camera_metadata_entry (Some md) index bytes cnt want = update_result md' index want"
    "wf_md md'" "md_entry_count md' = md_entry_count md"
    "abs_md md' = (abs_md md)[i := (be_tag e, be_type e, cnt, take n bytes)]"
proof -
  note W = wf_mdD [OF wf] and len = used_length [OF wf]
  let ?old = "calculate_camera_metadata_entry_data_size (be_type e) (be_count e)"
  have i: "i < unat (md_entry_count md)" using idx by (simp add: word_less_nat_alt i_def)
  have oke: "entry_ok (unat (md_data_count md)) e"
    using W(6) len i by (simp add: list_all_length used_def i_def e_def)
  then have ty: "be_type e < NUM_TYPES" and d4: "length (be_data e) = 4" by (simp_all add: entry_ok_def)
  have small: "n < 2 ^ 32" using n by linarith
  note ds = data_size [OF ty small [unfolded n_def], folded n_def, folded b_def]
  obtain area dc where R: "(if ?old > 0 then remove_data (entry_offset e) ?old md else Ret md) = Ret (md\<lparr>md_data := area,
       md_entries := map (moved md i) (used md) @ drop (unat (md_entry_count md)) (md_entries md), md_data_count := dc\<rparr>)"
    and dc: "unat dc = unat (md_data_count md) - esize e" and le: "esize e \<le> unat (md_data_count md)"
    and area: "length area = length (md_data md)"
    and abs: "map (abs_entry area) (map (moved md i) (others md i)) = map (abs_entry (md_data md)) (others md i)"
    and ok: "list_all (entry_ok (unat dc)) (map (moved md i) (others md i))"
    and ap: "sorted_wrt apart (map (moved md i) (others md i))"
    unfolding e_def i_def by (rule data_removed [OF wf i [unfolded i_def]])
  let ?es = "map (moved md i) (used md)"
  define E where "E = ?es @ drop (unat (md_entry_count md)) (md_entries md)"
  have Ei: "E ! i = e" "i < length E"
    using i len W(1,3) moved_self [of md i] by (simp_all add: E_def nth_append used_def e_def i_def)
  have upd: "?es[i := f] = map (moved md i) (take i (used md)) @ f # map (moved md i) (drop (Suc i) (used md))" for f
    using i len by (simp add: upd_conv_take_nth_drop take_map drop_map)
  have guard: "\<not> md_data_capacity md < md_data_count md + b - ?old"
    using update_room [of "md_data_count md" b ?old "md_data_capacity md"] room le n W(5) ds W(4)
    by (simp add: esize_def not_less split: if_splits)
  have ne0: "b \<noteq> ?old" using ne by (auto simp: esize_def)
  have pos: "?old \<noteq> 0 \<longleftrightarrow> ?old > 0" by (simp add: word_neq_0_conv)
  have start: "update_camera_metadata_entry (Some md) index bytes cnt want = do {
      dst \<leftarrow> (if b \<noteq> 0 then do {
          entry \<leftarrow> load E i;
          entries \<leftarrow> store E i (set_offset entry dc);
          area' \<leftarrow> memcpy area (unat dc) bytes (unat b);
          Ret (md\<lparr>md_data := area', md_entries := entries, md_data_count := dc + b\<rparr>)
        } else Ret (md\<lparr>md_data := area, md_entries := E, md_data_count := dc\<rparr>));
      entry \<leftarrow> load (md_entries dst) i;
      entry \<leftarrow> (if b = 0 then do { v \<leftarrow> memcpy (be_data entry) 0 bytes n; Ret (entry\<lparr>be_data := v\<rparr>) } else Ret entry);
      entries \<leftarrow> store (md_entries dst) i (entry\<lparr>be_count := cnt\<rparr>);
      update_result (dst\<lparr>md_entries := entries\<rparr>) index want }"
  proof -
    have "\<not> md_entry_count md \<le> index" "load (md_entries md) i = Ret e" "load E i = Ret e"
      using idx i W(1,3) Ei by (simp_all add: not_le load_ok e_def i_def)
    note F = this ne0 guard pos ty size_product [OF small [unfolded n_def]]
    show ?thesis
    proof (cases "?old > 0")
      case True
      with R F show ?thesis unfolding update_camera_metadata_entry_def update_result_def E_def [symmetric] i_def [symmetric]
        by (simp add: Let_def type_size_ok n_def b_def [symmetric] cong: if_cong)
    next
      case False
      with R have "md = md\<lparr>md_data := area, md_entries := E, md_data_count := dc\<rparr>" by (simp add: E_def)
      from arg_cong [OF this, of md_data] arg_cong [OF this, of md_entries] arg_cong [OF this, of md_data_count]
      have "md_data md = area" "md_entries md = E" "md_data_count md = dc" by simp_all
      with False F show ?thesis unfolding update_camera_metadata_entry_def update_result_def i_def [symmetric]
        by (simp add: Let_def type_size_ok n_def b_def [symmetric] cong: if_cong)
    qed
  qed
  obtain e' area' dc' where run: "update_camera_metadata_entry (Some md) index bytes cnt want =
        update_result (md\<lparr>md_data := area', md_entries := E[i := e'], md_data_count := dc'\<rparr>) index want"
    and dc': "unat dc' = unat dc + unat b" and area': "length area' = length area" "take (unat dc) area = take (unat dc) area'"
    and e': "abs_entry area' e' = (be_tag e, be_type e, cnt, take n bytes)" "length (be_data e') = 4"
      "esize e' > 0 \<longrightarrow> eoff e' = unat dc"
  proof (cases "b = 0")
    case True
    with ds have n4: "n \<le> 4" by (simp split: if_splits)
    let ?e' = "e\<lparr>be_data := take n bytes @ drop n (be_data e), be_count := cnt\<rparr>"
    have "update_camera_metadata_entry (Some md) index bytes cnt want =
        update_result (md\<lparr>md_data := area, md_entries := E[i := ?e'], md_data_count := dc\<rparr>) index want"
      unfolding start using True Ei n(1) n4 d4 by (simp add: mem_simps md_update_swap)
    then show ?thesis
      by (rule that) (use True n4 n(1) d4 in \<open>simp_all add: abs_entry_def payload_def plen_def esize_def n_def b_def\<close>)
  next
    case False
    then have big: "unat b = n" "\<not> n \<le> 4" using ds by (auto simp: unat_eq_0 split: if_splits)
    let ?e' = "(set_offset e dc)\<lparr>be_count := cnt\<rparr>"
    let ?area = "take (unat dc) area @ take n bytes @ drop (unat dc + n) area"
    have fit: "unat dc + n \<le> length area" using room dc area W(2) big by simp
    have "update_camera_metadata_entry (Some md) index bytes cnt want =
        update_result (md\<lparr>md_data := ?area, md_entries := E[i := ?e'], md_data_count := dc + b\<rparr>) index want"
      unfolding start using False Ei n(1) big fit by (simp add: mem_simps md_update_swap)
    then show ?thesis
    proof (rule that)
      show "unat (dc + b) = unat dc + unat b"
        using fit big area W(2) unat_less_u32 [of "md_data_capacity md"] by (simp add: unat_add_u32)
    qed (use big n(1) fit in \<open>simp_all add: abs_entry_def payload_def plen_def eoff_def n_def [symmetric]\<close>)
  qed
  have "be_type e' = be_type e" "be_count e' = cnt" "be_tag e' = be_tag e" using e'(1) by (simp_all add: abs_entry_def)
  then have es: "esize e' = unat b" "plen e' = n" and tag: "be_tag e' = be_tag e" by (simp_all add: esize_def plen_def b_def n_def)
  have ok': "entry_ok (unat dc') e'"
    using e'(2,3) es ty small \<open>be_type e' = be_type e\<close> by (simp add: entry_ok_def dc')
  note I = insert_entry [OF ok [unfolded others_def map_append] ap [unfolded others_def map_append] ok' _ e'(3) area'(2)]
  have abs2: "map (abs_entry area) (map (moved md i) (take i (used md))) = map (abs_entry (md_data md)) (take i (used md))"
      "map (abs_entry area) (map (moved md i) (drop (Suc i) (used md))) = map (abs_entry (md_data md)) (drop (Suc i) (used md))"
    using abs by (simp_all add: others_def)
  have L: "list_all (entry_ok (unat dc')) (?es[i := e'])" "sorted_wrt apart (?es[i := e'])"
    unfolding upd using I dc' by simp_all
  have tag': "be_tag e' = be_tag (md_entries md ! i)" using tag by (simp add: e_def i_def)
  have "length ?es = length (used md)" "map be_tag ?es = map be_tag (used md)" "length area' = length (md_data md)"
      "unat dc' \<le> unat (md_data_capacity md)"
    using area area' room dc dc' by (simp_all add: comp_def)
  note P = replaced_entry [OF wf i this(1,2) tag' L this(3,4)]
  then have "wf_md (md\<lparr>md_data := area', md_entries := E[i := e'], md_data_count := dc'\<rparr>) \<and>
      abs_md (md\<lparr>md_data := area', md_entries := E[i := e'], md_data_count := dc'\<rparr>) = map (abs_entry area') (?es[i := e'])"
    unfolding E_def .
  moreover have "map (abs_entry area') (?es[i := e']) = (abs_md md)[i := (be_tag e, be_type e, cnt, take n bytes)]"
    unfolding upd using I abs2 e'(1) i len by (simp add: dc' abs_md_def upd_conv_take_nth_drop take_map drop_map)
  ultimately show ?thesis using run by (intro that [OF run]) simp_all
qed

lemma update_in_place:
  fixes md :: "'u camera_metadata" and cnt :: u32
  assumes wf: "wf_md md" and idx: "index < md_entry_count md"
  defines "i \<equiv> unat index" and "e \<equiv> md_entries md ! unat index"
  defines "n \<equiv> unat cnt * tsize (be_type e)" and "b \<equiv> calculate_camera_metadata_entry_data_size (be_type e) cnt"
  assumes n: "n \<le> length bytes" "n < 2 ^ 32" and same: "unat b = esize e"
  obtains md' where "update_camera_metadata_entry (Some md) index bytes cnt want = update_result md' index want"
    "wf_md md'" "md_entry_count md' = md_entry_count md"
    "abs_md md' = (abs_md md)[i := (be_tag e, be_type e, cnt, take n bytes)]"
proof -
  note W = wf_mdD [OF wf] and len = used_length [OF wf]
  have i: "i < unat (md_entry_count md)" using idx by (simp add: word_less_nat_alt i_def)
  have oke: "entry_ok (unat (md_data_count md)) e"
    using W(6) len i by (simp add: list_all_length used_def i_def e_def)
  then have ty: "be_type e < NUM_TYPES" and d4: "length (be_data e) = 4" by (simp_all add: entry_ok_def)
  note ds = data_size [OF ty n(2) [unfolded n_def], folded n_def, folded b_def]
  have same': "calculate_camera_metadata_entry_data_size (be_type e) (be_count e) = b"
    using same by (simp add: esize_def word_unat_eq_iff)
  have "\<not> md_entry_count md \<le> index" "load (md_entries md) i = Ret e" "i < length (md_entries md)" "md_entries md ! i = e"
    using idx i W(1,3) by (simp_all add: not_le load_ok e_def i_def)
  note F = this size_product [OF n(2) [unfolded n_def]]
  obtain e' area' where run: "update_camera_metadata_entry (Some md) index bytes cnt want =
        update_result (md\<lparr>md_data := area', md_entries := (md_entries md)[i := e']\<rparr>) index want"
    and area': "length area' = length (md_data md)"
      "\<And>f. f \<in> set (others md i) \<Longrightarrow> payload area' f = payload (md_data md) f"
    and e': "abs_entry area' e' = (be_tag e, be_type e, cnt, take n bytes)" "length (be_data e') = 4"
      "esize e' > 0 \<longrightarrow> eoff e' = eoff e"
  proof (cases "b = 0")
    case True
    with ds have n4: "n \<le> 4" by (simp split: if_splits)
    let ?e' = "e\<lparr>be_data := take n bytes @ drop n (be_data e), be_count := cnt\<rparr>"
    have "update_camera_metadata_entry (Some md) index bytes cnt want =
        update_result (md\<lparr>md_data := md_data md, md_entries := (md_entries md)[i := ?e']\<rparr>) index want"
      using True F same' ty n(1) n4 d4 unfolding update_camera_metadata_entry_def update_result_def i_def [symmetric]
      by (simp add: Let_def type_size_ok b_def [symmetric] n_def [symmetric] mem_simps)
    then show ?thesis
      by (rule that) (use True n4 n(1) d4 in \<open>simp_all add: abs_entry_def payload_def plen_def esize_def n_def b_def\<close>)
  next
    case False
    then have big: "unat b = n" "\<not> n \<le> 4" using ds by (auto simp: unat_eq_0 split: if_splits)
    let ?e' = "e\<lparr>be_count := cnt\<rparr>"
    let ?area = "take (eoff e) (md_data md) @ take n bytes @ drop (eoff e + n) (md_data md)"
    have pos: "esize e > 0" using big same by linarith
    have fit: "eoff e + n \<le> length (md_data md)" using oke pos same big W(2,4) by (simp add: entry_ok_def)
    have "update_camera_metadata_entry (Some md) index bytes cnt want =
        update_result (md\<lparr>md_data := ?area, md_entries := (md_entries md)[i := ?e']\<rparr>) index want"
      using False F same' ty n(1) big fit unfolding update_camera_metadata_entry_def update_result_def i_def [symmetric]
      by (simp add: Let_def b_def [symmetric] eoff_def mem_simps)
    then show ?thesis
    proof (rule that)
      show "payload ?area f = payload (md_data md) f" if f: "f \<in> set (others md i)" for f
      proof -
        obtain xs ys where sp: "used md = xs @ e # ys" "take i (used md) = xs" "drop (Suc i) (used md) = ys"
          unfolding e_def i_def by (rule used_split [OF wf i [unfolded i_def]])
        have "apart f e" using sorted_wrt_apart_at [OF W(7) [unfolded sp(1)], of f] f sp(2,3) by (simp add: others_def)
        moreover have "entry_ok (unat (md_data_count md)) f"
          using W(6) f by (auto simp: list_all_iff others_def dest: in_set_takeD in_set_dropD)
        ultimately show ?thesis
          using payload_outside [of _ f e "md_data md" "take n bytes"] pos fit n(1) same big by simp
      qed
      show "abs_entry ?area ?e' = (be_tag e, be_type e, cnt, take n bytes)"
        using big fit n(1) by (simp add: abs_entry_def payload_def plen_def n_def [symmetric] eoff_def)
    qed (use fit n(1) d4 in \<open>simp_all add: eoff_def\<close>)
  qed
  have ty': "be_type e' = be_type e" "be_count e' = cnt" "be_tag e' = be_tag e" using e'(1) by (simp_all add: abs_entry_def)
  then have es: "esize e' = esize e" "plen e' = n" by (simp_all add: same esize_def plen_def b_def [symmetric] n_def)
  have upd: "(used md)[i := f] = take i (used md) @ f # drop (Suc i) (used md)" for f
    using i len by (simp add: upd_conv_take_nth_drop)
  have ok': "entry_ok (unat (md_data_count md)) e'"
    using oke e'(2,3) es ty' n(2) by (simp add: entry_ok_def)
  then have ok: "list_all (entry_ok (unat (md_data_count md))) ((used md)[i := e'])"
    using W(6) by (auto simp: list_all_iff dest: set_update_subset_insert [THEN subsetD])
  have A: "apart f e' = apart f e" "apart e' f = apart e f" for f using e'(3) es(1) by (auto simp: apart_def)
  obtain xs ys where sp: "used md = xs @ e # ys" "take i (used md) = xs" "drop (Suc i) (used md) = ys"
    unfolding e_def i_def by (rule used_split [OF wf i [unfolded i_def]])
  have srt: "sorted_wrt apart ((used md)[i := e'])"
    using W(7) unfolding upd sp(2,3) unfolding sp(1) by (simp add: sorted_wrt_append A)
  note I = replaced_entry [OF wf i, of "used md" e' "md_data_count md" area', OF refl refl _ ok srt area'(1)]
  have ents: "used md @ drop (unat (md_entry_count md)) (md_entries md) = md_entries md" by (simp add: used_def)
  have "map (abs_entry area') ((used md)[i := e']) = (abs_md md)[i := (be_tag e, be_type e, cnt, take n bytes)]"
    using area'(2) e'(1) i len
    by (auto simp: upd abs_md_def upd_conv_take_nth_drop take_map drop_map others_def abs_entry_def)
  with I ty'(3) W(4) run show ?thesis unfolding ents
    by (intro that [of "md\<lparr>md_data := area', md_entries := (md_entries md)[i := e']\<rparr>"]) (simp_all add: e_def i_def)
qed

text \<open>
  C9. \<open>update_camera_metadata_entry\<close> replaces the bytes and the count of one entry and
  nothing else, whether the data stays inline, is overwritten in place, or moves because its size
  changes; the packet stays well formed. It fails, changing nothing, exactly when the data area
  has no room for the new bytes once the old ones are gone. The entry handed back refers to the
  new bytes.
\<close>

theorem update_entry_correct:
  fixes md :: "'u camera_metadata" and cnt :: u32
  assumes wf: "wf_md md" and idx: "index < md_entry_count md"
  defines "e \<equiv> md_entries md ! unat index"
  defines "n \<equiv> unat cnt * tsize (be_type e)" and "extra \<equiv> unat (calculate_camera_metadata_entry_data_size (be_type e) cnt)"
  assumes n: "n \<le> length bytes" "unat (md_size md) + length bytes < 2 ^ 32"
  shows "if unat (md_data_count md) - esize e + extra \<le> unat (md_data_capacity md)
    then \<exists>md' out. update_camera_metadata_entry (Some md) index bytes cnt want = Ret (OK, Some md', out) \<and>
      wf_md md' \<and> abs_md md' = (abs_md md)[unat index := (be_tag e, be_type e, cnt, take n bytes)] \<and>
      (want \<longrightarrow> (\<exists>ce. out = Some ce \<and> ce_index ce = index \<and> ce_count ce = cnt \<and> deref md' ce = Ret (take n bytes)))
    else update_camera_metadata_entry (Some md) index bytes cnt want = Ret (ERROR, Some md, NULL)"
proof (cases "unat (md_data_count md) - esize e + extra \<le> unat (md_data_capacity md)")
  case False
  note W = wf_mdD [OF wf]
  let ?b = "calculate_camera_metadata_entry_data_size (be_type e) cnt"
  let ?old = "calculate_camera_metadata_entry_data_size (be_type e) (be_count e)"
  have i: "unat index < unat (md_entry_count md)" using idx by (simp add: word_less_nat_alt)
  have ok: "entry_ok (unat (md_data_count md)) e"
    using W(6) used_length [OF wf] i by (simp add: list_all_length used_def e_def)
  have le: "esize e \<le> unat (md_data_count md)" using ok by (cases "esize e > 0") (auto simp: entry_ok_def)
  then have "extra \<noteq> esize e" using False W(4) by linarith
  then have ne: "?b \<noteq> ?old" unfolding extra_def esize_def by metis
  have "n < 2 ^ 32" using n by linarith
  with ok have "extra \<le> n" using data_size [of "be_type e" cnt] by (simp add: n_def extra_def entry_ok_def)
  then have "md_data_capacity md < md_data_count md + ?b - ?old"
    using update_room [of "md_data_count md" ?b ?old "md_data_capacity md"] le False n W(4,5)
    by (simp add: extra_def esize_def)
  with ne False idx i W(1,3) show ?thesis
    by (simp add: update_camera_metadata_entry_def load_ok Let_def e_def [symmetric] not_le)
next
  case True
  let ?b = "calculate_camera_metadata_entry_data_size (be_type e) cnt"
  obtain md' where run: "update_camera_metadata_entry (Some md) index bytes cnt want = update_result md' index want"
      and wf': "wf_md md'" and c: "md_entry_count md' = md_entry_count md"
      and abs: "abs_md md' = (abs_md md)[unat index := (be_tag e, be_type e, cnt, take n bytes)]"
  proof (cases "extra = esize e")
    case True
    have small: "n < 2 ^ 32" using n by linarith
    show ?thesis
      by (rule update_in_place [where cnt = cnt and bytes = bytes and want = want,
            OF wf idx, folded e_def, folded n_def extra_def, OF n(1) small True]) (rule that)
  next
    case False
    show ?thesis
      by (rule update_resized [where cnt = cnt and bytes = bytes and want = want,
            OF wf idx, folded e_def, folded n_def extra_def, OF n False True]) (rule that)
  qed
  have i: "unat index < unat (md_entry_count md')" using idx c by (simp add: word_less_nat_alt)
  obtain ce where ce: "get_camera_metadata_entry (Some md') index True = Ret (OK, Some ce)"
    "ce_index ce = index" "deref md' ce = Ret (payload (md_data md') (md_entries md' ! unat index))"
    "abs_md md' ! unat index = (ce_tag ce, ce_type ce, ce_count ce, payload (md_data md') (md_entries md' ! unat index))"
    by (rule get_entry_run [OF wf' i])
  have "abs_md md' ! unat index = (be_tag e, be_type e, cnt, take n bytes)"
    using i c abs abs_md_length [OF wf] by simp
  with ce have "ce_count ce = cnt" "deref md' ce = Ret (take n bytes)" by simp_all
  with True run wf' abs ce(1,2) show ?thesis by (simp add: update_result_def)
qed

section \<open>Allocating, appending, copying\<close>

lemma flag_odd: "w AND FLAG_SORTED \<noteq> 0 \<longleftrightarrow> odd w"
  by (simp add: and_one_eq odd_iff_mod_2_eq_one)

lemma flag_or:
  "(a OR (b AND FLAG_SORTED)) AND FLAG_SORTED \<noteq> 0 \<longleftrightarrow> a AND FLAG_SORTED \<noteq> 0 \<or> b AND FLAG_SORTED \<noteq> 0"
  unfolding flag_odd by (simp add: even_or_iff even_and_iff)

lemma calculate_size:
  "40 + 16 * unat ec + unat dc < 2 ^ 32 \<Longrightarrow> unat (calculate_camera_metadata_size ec dc) = 40 + 16 * unat ec + unat dc"
  by (simp add: calculate_camera_metadata_size_def unat_add_u32 unat_mult_u32)

lemma allocate_run:
  assumes "ec \<noteq> 0" "40 + 16 * unat ec + unat dc < 2 ^ 32"
  obtains md where "allocate_camera_metadata True ec dc = Some md" "wf_md md" "abs_md md = []" "md_flags md = 0"
    "md_entry_capacity md = ec" "md_data_capacity md = dc" "md_entry_count md = 0" "md_data_count md = 0"
    "unat (md_size md) = 40 + 16 * unat ec + unat dc"
proof -
  note sz = calculate_size [OF assms(2)]
  let ?e = "\<lparr>be_tag = 0, be_count = 0, be_data = [0, 0, 0, 0], be_type = 0\<rparr>"
  let ?md = "\<lparr>md_size = calculate_camera_metadata_size ec dc, md_version = 1, md_flags = 0,
    md_entry_count = 0, md_entry_capacity = ec, md_entries = replicate (unat ec) ?e,
    md_data_count = 0, md_data_capacity = dc, md_data = replicate (unat dc) 0, md_user = NULL, md_reserved = []\<rparr>"
  have "min (unat ec) ((unat (calculate_camera_metadata_size ec dc) - 40) div 16) = unat ec" by (simp add: sz)
  moreover have "min (unat dc) (unat (calculate_camera_metadata_size ec dc) - 40 - 16 * unat ec) = unat dc" by (simp add: sz)
  ultimately have "allocate_camera_metadata True ec dc = Some ?md"
    using assms(1) by (simp add: allocate_camera_metadata_def place_camera_metadata_def Let_def)
  moreover have "wf_md ?md" by (rule wf_mdI) (simp_all add: used_def sz)
  ultimately show ?thesis by (rule that) (simp_all add: abs_md_def used_def sz)
qed

text \<open>An entry moved behind \<open>base\<close> bytes of data.\<close>

definition rebased :: "u32 \<Rightarrow> camera_metadata_buffer_entry \<Rightarrow> camera_metadata_buffer_entry" where
  "rebased base e = (if esize e > 0 then set_offset e (entry_offset e + base) else e)"

lemma rebase_entry_ok:
  assumes "entry_ok dc e"
  shows "rebase_entry base e = Ret (rebased base e)"
proof -
  have ty: "be_type e < NUM_TYPES" and p: "plen e < 2 ^ 32" using assms by (simp_all add: entry_ok_def)
  have "camera_metadata_type_size ! unat (be_type e) * be_count e > 4 \<longleftrightarrow> plen e > 4"
    using size_product [of "be_count e" "be_type e"] p by (simp add: plen_def word_less_nat_alt mult.commute)
  with ty esize_plen [OF ty p] show ?thesis by (simp add: rebase_entry_def rebased_def type_size_ok not_le)
qed

lemma rebased_zero: "length (be_data e) = 4 \<Longrightarrow> esize (rebased b e) = esize e \<and> be_tag (rebased b e) = be_tag e \<and> length (be_data (rebased b e)) = 4"
  by (simp add: rebased_def)

lemma rebased_entry:
  assumes "entry_ok dc e" "unat base + dc < 2 ^ 32" "dc \<le> length src"
    and area: "take dc (drop (unat base) area) = take dc src"
  shows "abs_entry area (rebased base e) = abs_entry src e" "entry_ok (unat base + dc) (rebased base e)"
    "esize e > 0 \<Longrightarrow> eoff (rebased base e) = unat base + eoff e"
proof -
  have "abs_entry area (rebased base e) = abs_entry src e \<and> entry_ok (unat base + dc) (rebased base e) \<and>
    (esize e > 0 \<longrightarrow> eoff (rebased base e) = unat base + eoff e)"
  proof (cases "esize e > 0")
    case True
    then have p: "plen e > 4" "esize e = plen e" using entry_ok_esize [OF assms(1)] by (auto split: if_splits)
    have in_dc: "eoff e + plen e \<le> dc" using assms(1) True p by (simp add: entry_ok_def)
    have off: "eoff (rebased base e) = unat base + eoff e"
      using True in_dc assms(2) by (simp add: rebased_def eoff_def unat_add_u32 add.commute)
    have "take (plen e) (drop (unat base + eoff e) area) = take (plen e) (drop (eoff e) (take dc (drop (unat base) area)))"
      using in_dc by (simp add: drop_take add.commute)
    also have "\<dots> = take (plen e) (drop (eoff e) src)" using in_dc unfolding area by (simp add: drop_take)
    finally have "payload area (rebased base e) = payload src e"
      using True p off by (simp add: payload_def) (simp add: rebased_def)
    then show ?thesis using True off in_dc p assms(1) by (simp add: abs_entry_def entry_ok_def rebased_def)
  next
    case False
    then have "\<not> plen e > 4" using entry_ok_esize [OF assms(1)] by (auto split: if_splits)
    with False assms(1) show ?thesis by (simp add: abs_entry_def payload_def rebased_def entry_ok_def)
  qed
  then show "abs_entry area (rebased base e) = abs_entry src e" "entry_ok (unat base + dc) (rebased base e)"
    "esize e > 0 \<Longrightarrow> eoff (rebased base e) = unat base + eoff e" by blast+
qed

lemma rebased_0: "length (be_data e) = 4 \<Longrightarrow> rebased 0 e = e"
  by (simp add: rebased_def le32_of_le32)

lemma append_run:
  fixes dst src :: "'u camera_metadata"
  assumes wf: "wf_md dst" "wf_md src" and fit: "unat (md_size dst) + unat (md_size src) < 2 ^ 32"
    and cap: "unat (md_entry_count dst) + unat (md_entry_count src) \<le> unat (md_entry_capacity dst)"
      "unat (md_data_count dst) + unat (md_data_count src) \<le> unat (md_data_capacity dst)"
  defines "flags \<equiv> (if md_entry_count dst = 0 then md_flags dst OR (md_flags src AND FLAG_SORTED)
    else if md_entry_count src \<noteq> 0 then md_flags dst AND NOT FLAG_SORTED else md_flags dst)"
  obtains entries area where "append_camera_metadata (Some dst) (Some src) = Ret (OK, Some (dst
      \<lparr>md_entries := entries, md_data := area, md_flags := flags,
       md_entry_count := md_entry_count dst + md_entry_count src, md_data_count := md_data_count dst + md_data_count src\<rparr>))"
    "length entries = length (md_entries dst)" "length area = length (md_data dst)"
    "take (unat (md_entry_count dst) + unat (md_entry_count src)) entries =
       used dst @ map (rebased (md_data_count dst)) (used src)"
    "take (unat (md_data_count dst)) area = take (unat (md_data_count dst)) (md_data dst)"
    "take (unat (md_data_count src)) (drop (unat (md_data_count dst)) area) = take (unat (md_data_count src)) (md_data src)"
    "\<And>e. e \<in> set entries \<Longrightarrow> length (be_data e) = 4"
proof -
  note D = wf_mdD [OF wf(1)] and S = wf_mdD [OF wf(2)]
  let ?n = "unat (md_entry_count dst)" and ?m = "unat (md_entry_count src)"
  let ?d = "unat (md_data_count dst)" and ?s = "unat (md_data_count src)"
  have u: "unat (md_entry_count src + md_entry_count dst) = ?m + ?n" "unat (md_data_count src + md_data_count dst) = ?s + ?d"
    using cap unat_less_u32 [of "md_entry_capacity dst"] unat_less_u32 [of "md_data_capacity dst"] by (simp_all add: unat_add_u32)
  then have g: "\<not> md_entry_capacity dst < md_entry_count src + md_entry_count dst"
      "\<not> md_data_capacity dst < md_data_count src + md_data_count dst"
    using cap by (simp_all add: word_less_nat_alt not_less)
  have sl: "slots (md_entry_count src) = ?m"
    using wf_entry_count_small [OF wf(2)] S(3) by (intro slots_id) linarith
  let ?es = "take ?n (md_entries dst) @ take ?m (md_entries src) @ drop (?n + ?m) (md_entries dst)"
  let ?area = "take ?d (md_data dst) @ take ?s (md_data src) @ drop (?d + ?s) (md_data dst)"
  have m1: "memcpy (md_entries dst) ?n (md_entries src) (slots (md_entry_count src)) = Ret ?es"
    unfolding sl using cap(1) D(1) S(1,3) by (intro memcpy_ok) linarith+
  have m2: "memcpy (md_data dst) ?d (md_data src) ?s = Ret ?area"
    using cap(2) D(2) S(2,4) by (intro memcpy_ok) linarith+
  let ?es' = "take ?n (md_entries dst) @ map (rebased (md_data_count dst)) (used src) @ drop (?n + ?m) (md_entries dst)"
  have nd: "length (take ?n (md_entries dst)) = ?n" using D(1,3) by simp
  have nm: "length (used src) = ?m" by (rule used_length [OF wf(2)])
  have r: "read_at ?n ?m ?es = Ret (used src)"
    using cap(1) D(1) nm by (simp add: read_at_def nd used_def)
  have mp: "map_exec (rebase_entry (md_data_count dst)) (used src) = Ret (map (rebased (md_data_count dst)) (used src))"
    using S(6) by (intro map_exec_Ret rebase_entry_ok) (auto simp: list_all_iff)
  have w: "write_at ?n (map (rebased (md_data_count dst)) (used src)) ?es = Ret ?es'"
    using cap(1) D(1) nm by (simp add: write_at_def nd used_def)
  have z: "?es = ?es'" if "md_data_count dst = 0"
  proof -
    have "map (rebased 0) (used src) = used src"
      using S(9) by (intro map_idI rebased_0) (auto simp: used_def dest: in_set_takeD)
    with that show ?thesis by (simp add: used_def)
  qed
  have "append_camera_metadata (Some dst) (Some src) = Ret (OK, Some (dst
      \<lparr>md_entries := ?es', md_data := ?area, md_flags := flags,
       md_entry_count := md_entry_count dst + md_entry_count src, md_data_count := md_data_count dst + md_data_count src\<rparr>))"
    using g m1 m2 r mp w z unfolding append_camera_metadata_def flags_def
    by (cases "md_data_count dst = 0") (simp_all del: slots_id)
  then show ?thesis
  proof (rule that)
    show "length (be_data e) = 4" if "e \<in> set ?es'" for e
      using that D(9) S(9) rebased_zero by (auto simp: used_def dest: in_set_takeD in_set_dropD)
  qed (use cap D(1-4) S(1-4) nm in \<open>auto simp: used_def min_def\<close>)
qed

lemma append_spec:
  fixes dst src :: "'u camera_metadata"
  assumes wf: "wf_md dst" "wf_md src" and size: "unat (md_size dst) + unat (md_size src) < 2 ^ 32"
  shows "if unat (md_entry_count dst) + unat (md_entry_count src) \<le> unat (md_entry_capacity dst) \<and>
      unat (md_data_count dst) + unat (md_data_count src) \<le> unat (md_data_capacity dst)
    then \<exists>md'. append_camera_metadata (Some dst) (Some src) = Ret (OK, Some md') \<and>
      abs_md md' = abs_md dst @ abs_md src \<and>
      md_entry_capacity md' = md_entry_capacity dst \<and> md_data_capacity md' = md_data_capacity dst \<and>
      (wf_md md' \<longleftrightarrow> (md_entry_count dst = 0 \<and> md_flags dst AND FLAG_SORTED \<noteq> 0 \<longrightarrow> sorted (map be_tag (used src))))
    else append_camera_metadata (Some dst) (Some src) = Ret (ERROR, Some dst)"
proof -
  note D = wf_mdD [OF wf(1)] and S = wf_mdD [OF wf(2)]
  let ?n = "unat (md_entry_count dst)" and ?m = "unat (md_entry_count src)"
  let ?d = "unat (md_data_count dst)" and ?s = "unat (md_data_count src)"
  have u: "unat (md_entry_count dst + md_entry_count src) = ?n + ?m" "unat (md_data_count dst + md_data_count src) = ?d + ?s"
    using D(3-5) S(3-5) size by (simp_all add: unat_add_u32)
  show ?thesis
  proof (cases "?n + ?m \<le> unat (md_entry_capacity dst) \<and> ?d + ?s \<le> unat (md_data_capacity dst)")
    case False
    with u show ?thesis
      by (auto simp: append_camera_metadata_def word_less_nat_alt add.commute [of "md_entry_count src"] add.commute [of "md_data_count src"])
  next
    case True
    let ?flags = "if md_entry_count dst = 0 then md_flags dst OR (md_flags src AND FLAG_SORTED)
      else if md_entry_count src \<noteq> 0 then md_flags dst AND NOT FLAG_SORTED else md_flags dst"
    obtain entries area where run: "append_camera_metadata (Some dst) (Some src) = Ret (OK, Some (dst
        \<lparr>md_entries := entries, md_data := area, md_flags := ?flags,
         md_entry_count := md_entry_count dst + md_entry_count src, md_data_count := md_data_count dst + md_data_count src\<rparr>))"
      and len: "length entries = length (md_entries dst)" "length area = length (md_data dst)"
      and ents: "take (?n + ?m) entries = used dst @ map (rebased (md_data_count dst)) (used src)"
      and area: "take ?d area = take ?d (md_data dst)" "take ?s (drop ?d area) = take ?s (md_data src)"
      and d4: "\<forall>e \<in> set entries. length (be_data e) = 4"
      using append_run [OF wf size conjunct1 [OF True] conjunct2 [OF True]] by metis
    define md' where "md' = dst\<lparr>md_entries := entries, md_data := area, md_flags := ?flags,
       md_entry_count := md_entry_count dst + md_entry_count src, md_data_count := md_data_count dst + md_data_count src\<rparr>"
    have F: "md_entries md' = entries" "md_data md' = area" "md_flags md' = ?flags" "md_size md' = md_size dst"
      "md_reserved md' = md_reserved dst" "md_entry_capacity md' = md_entry_capacity dst"
      "md_data_capacity md' = md_data_capacity dst"
      "unat (md_entry_count md') = ?n + ?m" "unat (md_data_count md') = ?d + ?s"
      using u by (simp_all add: md'_def)
    have us: "used md' = used dst @ map (rebased (md_data_count dst)) (used src)"
      by (simp only: used_def [of md'] F ents)
    have lim: "?d + ?s < 2 ^ 32" "?s \<le> length (md_data src)"
      using True unat_less_u32 [of "md_data_capacity dst"] S(2,4) by linarith+
    have R: "abs_entry area (rebased (md_data_count dst) e) = abs_entry (md_data src) e"
        "entry_ok (?d + ?s) (rebased (md_data_count dst) e)"
        "esize e > 0 \<Longrightarrow> eoff (rebased (md_data_count dst) e) = ?d + eoff e"
        "esize (rebased (md_data_count dst) e) = esize e" "be_tag (rebased (md_data_count dst) e) = be_tag e"
      if "e \<in> set (used src)" for e
      using that rebased_entry [OF _ lim area(2), of e] S(6) rebased_zero [of e "md_data_count dst"]
      by (auto simp: list_all_iff entry_ok_def)
    have abs: "abs_md md' = abs_md dst @ abs_md src"
      using payloads_prefix [OF D(6) area(1)] R(1) by (simp add: abs_md_def us F)
    have ok: "list_all (entry_ok (?d + ?s)) (used md')"
      using D(6) R(2) by (auto simp: us list_all_iff intro: entry_ok_mono)
    have "sorted_wrt apart (map (rebased (md_data_count dst)) (used src))"
      by (rule sorted_wrt_map_in [OF S(7)]) (auto simp: apart_def R)
    moreover have "apart e (rebased (md_data_count dst) f)" if "e \<in> set (used dst)" "f \<in> set (used src)" for e f
      using that D(6) R(3,4) [OF that(2)] by (intro entry_ok_before_apart [of ?d]) (auto simp: list_all_iff)
    ultimately have ap: "sorted_wrt apart (used md')" using D(7) by (simp add: us sorted_wrt_append)
    have tags: "map be_tag (used md') = map be_tag (used dst) @ map be_tag (used src)" using R(5) by (simp add: us)
    have iff: "wf_md md' \<longleftrightarrow> (?flags AND FLAG_SORTED \<noteq> 0 \<longrightarrow> sorted (map be_tag (used md')))"
    proof
      assume "wf_md md'"
      then show "?flags AND FLAG_SORTED \<noteq> 0 \<longrightarrow> sorted (map be_tag (used md'))" using wf_mdD(8) [of md'] F(3) by simp
    next
      assume "?flags AND FLAG_SORTED \<noteq> 0 \<longrightarrow> sorted (map be_tag (used md'))"
      then show "wf_md md'" using D(1,2,5) len True ok ap d4 by (intro wf_mdI) (simp_all only: F, auto)
    qed
    have e0: "used md = []" if "md_entry_count md = 0" for md :: "'u camera_metadata" using that by (simp add: used_def)
    have "(?flags AND FLAG_SORTED \<noteq> 0 \<longrightarrow> sorted (map be_tag (used md'))) \<longleftrightarrow>
        (md_entry_count dst = 0 \<and> md_flags dst AND FLAG_SORTED \<noteq> 0 \<longrightarrow> sorted (map be_tag (used src)))"
      using D(8) S(8) e0 [of src] e0 [of dst] flag_or [of "md_flags dst" "md_flags src"] unfolding tags
      by (cases "md_entry_count dst = 0"; cases "md_entry_count src = 0") auto
    with iff abs run True show ?thesis by (auto simp: md'_def)
  qed
qed

text \<open>
  C23. \<open>append_camera_metadata\<close> concatenates two packets: all entries of both, with all their
  bytes, in order. It fails exactly when the slots or the data area are too small, and then
  changes nothing. The result is well formed except in one case the code overlooks: an empty
  destination that carries the sorted mark keeps it even if the entries it receives are not
  sorted.
\<close>

theorem append_correct:
  fixes dst src :: "'u camera_metadata"
  assumes wf: "wf_md dst" "wf_md src" and size: "unat (md_size dst) + unat (md_size src) < 2 ^ 32"
  shows "if unat (md_entry_count dst) + unat (md_entry_count src) \<le> unat (md_entry_capacity dst) \<and>
      unat (md_data_count dst) + unat (md_data_count src) \<le> unat (md_data_capacity dst)
    then \<exists>md'. append_camera_metadata (Some dst) (Some src) = Ret (OK, Some md') \<and>
      abs_md md' = abs_md dst @ abs_md src \<and>
      (wf_md md' \<longleftrightarrow> (md_entry_count dst = 0 \<and> md_flags dst AND FLAG_SORTED \<noteq> 0 \<longrightarrow> sorted (map be_tag (used src))))
    else append_camera_metadata (Some dst) (Some src) = Ret (ERROR, Some dst)"
  using append_spec [OF assms] by auto

lemma compare_entry_tags_comparator: "comparator compare_entry_tags"
  by (auto simp: comparator_def compare_entry_tags_def split: if_splits)

lemma compare_le: "compare_entry_tags a b \<le> 0 \<longleftrightarrow> be_tag a \<le> be_tag b"
  by (auto simp: compare_entry_tags_def)

lemma compare_0: "compare_entry_tags a b = 0 \<longleftrightarrow> be_tag a = be_tag b"
  by (auto simp: compare_entry_tags_def)

lemma find_tag_spec:
  "case find_tag tag es of None \<Rightarrow> \<forall>e \<in> set es. be_tag e \<noteq> tag | Some i \<Rightarrow> i < length es \<and> be_tag (es ! i) = tag"
  by (induction es) (auto split: option.splits)

text \<open>
  C24. Sorting and searching: \<open>sort_camera_metadata\<close> permutes the entries into ascending tag
  order and sets the sorted mark, and \<open>find_camera_metadata_entry\<close>, by binary search on a
  sorted packet and linearly otherwise, returns an entry with the tag exactly when the packet
  has one, with a pointer to that entry's bytes; otherwise it reports that there is none.
\<close>

theorem sort_find_correct:
  fixes md :: "'u camera_metadata"
  assumes wf: "wf_md md" and q: "qsort_contract qsort" and b: "bsearch_contract bsearch"
  shows "(\<exists>md'. sort_camera_metadata qsort (Some md) = Ret (OK, Some md') \<and> wf_md md' \<and>
      md_flags md' AND FLAG_SORTED \<noteq> 0 \<and> sorted (map fst (abs_md md')) \<and> mset (abs_md md') = mset (abs_md md)) \<and>
    (if tag \<in> fst ` set (abs_md md)
     then \<exists>ce bytes. find_camera_metadata_entry bsearch (Some md) tag True = Ret (OK, Some ce) \<and>
       ce_tag ce = tag \<and> deref md ce = Ret bytes \<and> unat (ce_index ce) < length (abs_md md) \<and>
       abs_md md ! unat (ce_index ce) = (tag, ce_type ce, ce_count ce, bytes)
     else find_camera_metadata_entry bsearch (Some md) tag True = Ret (NOT_FOUND, NULL))"
proof
  note W = wf_mdD [OF wf] and len = used_length [OF wf]
  let ?n = "unat (md_entry_count md)"
  have rd: "read_at 0 ?n (md_entries md) = Ret (used md)" using W(1,3) by (simp add: read_at_def used_def)
  have fst_abs: "map fst (abs_md m) = map be_tag (used m)" for m :: "'u camera_metadata" by (simp add: abs_md_def abs_entry_def)
  show "\<exists>md'. sort_camera_metadata qsort (Some md) = Ret (OK, Some md') \<and> wf_md md' \<and>
      md_flags md' AND FLAG_SORTED \<noteq> 0 \<and> sorted (map fst (abs_md md')) \<and> mset (abs_md md') = mset (abs_md md)"
  proof (cases "md_flags md AND FLAG_SORTED \<noteq> 0")
    case True
    then show ?thesis using wf W(8) by (intro exI [of _ md]) (simp add: sort_camera_metadata_def fst_abs)
  next
    case False
    let ?q = "qsort compare_entry_tags (used md)"
    have m: "mset ?q = mset (used md)" and s: "sorted (map be_tag ?q)"
      using q compare_entry_tags_comparator by (auto simp: qsort_contract_def compare_le sorted_map)
    have lq: "length ?q = ?n" using mset_eq_length [OF m] len by simp
    define md' where "md' = md\<lparr>md_entries := ?q @ drop ?n (md_entries md), md_flags := md_flags md OR FLAG_SORTED\<rparr>"
    have run: "sort_camera_metadata qsort (Some md) = Ret (OK, Some md')"
      using False rd lq W(1,3) by (simp add: sort_camera_metadata_def write_at_def md'_def)
    have u: "used md' = ?q" using lq by (simp add: used_def md'_def)
    have st: "set ?q = set (used md)" using m by (metis set_mset_mset)
    have ap: "sorted_wrt apart (used md')"
      unfolding u by (rule sorted_wrt_mset [OF _ m [symmetric] W(7)]) (auto intro: sympI apart_sym)
    have "wf_md md'"
    proof (rule wf_mdI)
      fix f
      assume "f \<in> set (md_entries md')"
      then show "length (be_data f) = 4"
        using W(9) st by (auto simp: md'_def used_def dest: in_set_takeD in_set_dropD)
    qed (use W lq ap s st in \<open>simp_all add: u list_all_iff, simp_all add: md'_def\<close>)
    moreover have "md_flags md' AND FLAG_SORTED \<noteq> 0" unfolding flag_odd by (simp add: md'_def even_or_iff)
    moreover have "mset (abs_md md') = mset (abs_md md)" using m by (simp add: abs_md_def u) (simp add: md'_def)
    ultimately show ?thesis using run s by (intro exI [of _ md']) (simp add: fst_abs u)
  qed
  let ?key = "\<lparr>be_tag = tag, be_count = 0, be_data = [0, 0, 0, 0], be_type = 0\<rparr>"
  let ?r = "if md_flags md AND FLAG_SORTED \<noteq> 0 then bsearch compare_entry_tags ?key (used md) else find_tag tag (used md)"
  have spec: "case ?r of None \<Rightarrow> \<forall>e \<in> set (used md). be_tag e \<noteq> tag | Some i \<Rightarrow> i < length (used md) \<and> be_tag (used md ! i) = tag"
  proof (cases "md_flags md AND FLAG_SORTED \<noteq> 0")
    case True
    then have "sorted_wrt (\<lambda>a b. compare_entry_tags a b \<le> 0) (used md)" using W(8) by (simp add: compare_le sorted_map)
    with b compare_entry_tags_comparator
    have "case bsearch compare_entry_tags ?key (used md) of None \<Rightarrow> \<forall>e \<in> set (used md). compare_entry_tags ?key e \<noteq> 0
        | Some i \<Rightarrow> i < length (used md) \<and> compare_entry_tags ?key (used md ! i) = 0"
      by (simp only: bsearch_contract_def simp_thms)
    with True show ?thesis by (auto simp: compare_0 split: option.splits)
  qed (use find_tag_spec [of "used md" tag] in simp)
  have find: "find_camera_metadata_entry bsearch (Some md) tag True =
      (case ?r of None \<Rightarrow> Ret (NOT_FOUND, NULL) | Some i \<Rightarrow> get_camera_metadata_entry (Some md) (of_nat i) True)"
    by (simp add: find_camera_metadata_entry_def rd Let_def)
  have mem: "tag \<in> fst ` set (abs_md md) \<longleftrightarrow> (\<exists>e \<in> set (used md). be_tag e = tag)"
    using arg_cong [OF fst_abs [of md], of set] by auto
  show "if tag \<in> fst ` set (abs_md md)
     then \<exists>ce bytes. find_camera_metadata_entry bsearch (Some md) tag True = Ret (OK, Some ce) \<and>
       ce_tag ce = tag \<and> deref md ce = Ret bytes \<and> unat (ce_index ce) < length (abs_md md) \<and>
       abs_md md ! unat (ce_index ce) = (tag, ce_type ce, ce_count ce, bytes)
     else find_camera_metadata_entry bsearch (Some md) tag True = Ret (NOT_FOUND, NULL)"
  proof (cases ?r)
    case None
    with spec mem find show ?thesis by auto
  next
    case (Some i)
    with spec have i: "i < ?n" "be_tag (used md ! i) = tag" using len by simp_all
    then have "i < 2 ^ 32" using unat_less_u32 [of "md_entry_count md"] by linarith
    then have wi: "unat (of_nat i :: u32) = i" by (simp add: unat_of_nat)
    with i have wi_less: "unat (of_nat i :: u32) < ?n" by simp
    obtain ce where ce: "get_camera_metadata_entry (Some md) (of_nat i) True = Ret (OK, Some ce)"
      "ce_index ce = of_nat i" "deref md ce = Ret (payload (md_data md) (md_entries md ! unat (of_nat i :: u32)))"
      "abs_md md ! unat (of_nat i :: u32) = (ce_tag ce, ce_type ce, ce_count ce, payload (md_data md) (md_entries md ! unat (of_nat i :: u32)))"
      by (rule get_entry_run [OF wf wi_less])
    have "ce_tag ce = tag" using ce(4) i len by (simp add: wi abs_md_def abs_entry_def)
    moreover have "tag \<in> fst ` set (abs_md md)" using mem i len nth_mem [of i "used md"] by auto
    ultimately show ?thesis using find Some ce i abs_md_length [OF wf] by (simp add: wi)
  qed
qed

lemma clone_copy_run:
  fixes src :: "'u camera_metadata"
  assumes wf: "wf_md src" and small: "2 * unat (md_size src) < 2 ^ 32"
  shows "if md_entry_count src = 0 then clone_camera_metadata True (Some src) = Ret NULL
    else \<exists>md'. clone_camera_metadata True (Some src) = Ret (Some md') \<and> wf_md md' \<and> abs_md md' = abs_md src \<and>
      md_entry_capacity md' = md_entry_count src \<and> md_data_capacity md' = md_data_count src"
    and "if dst_size < get_camera_metadata_compact_size (Some src) then copy_camera_metadata True dst_size src = Ret NULL
    else \<exists>md'. copy_camera_metadata True dst_size src = Ret (Some md') \<and> wf_md md' \<and> abs_md md' = abs_md src \<and>
      md_entry_capacity md' = md_entry_count src \<and> md_data_capacity md' = md_data_count src \<and>
      md_reserved md' = md_reserved src \<and> unat (md_size md') \<le> unat dst_size"
proof -
  note S = wf_mdD [OF wf]
  let ?ec = "md_entry_count src" and ?dc = "md_data_count src"
  have lim: "40 + 16 * unat ?ec + unat ?dc \<le> unat (md_size src)" using S(3-5) by linarith
  then have lim': "40 + 16 * unat ?ec + unat ?dc < 2 ^ 32" using unat_less_u32 [of "md_size src"] by linarith
  show "if ?ec = 0 then clone_camera_metadata True (Some src) = Ret NULL
    else \<exists>md'. clone_camera_metadata True (Some src) = Ret (Some md') \<and> wf_md md' \<and> abs_md md' = abs_md src \<and>
      md_entry_capacity md' = ?ec \<and> md_data_capacity md' = ?dc"
  proof (cases "?ec = 0")
    case True
    then show ?thesis
      by (simp add: clone_camera_metadata_def allocate_camera_metadata_def get_camera_metadata_entry_count_def)
  next
    case False
    obtain c :: "'u camera_metadata" where c: "allocate_camera_metadata True ?ec ?dc = Some c" "wf_md c" "abs_md c = []"
      "md_flags c = 0" "md_entry_capacity c = ?ec" "md_data_capacity c = ?dc" "md_entry_count c = 0" "md_data_count c = 0"
      "unat (md_size c) = 40 + 16 * unat ?ec + unat ?dc"
      by (rule allocate_run [OF False lim'])
    have fit: "unat (md_size c) + unat (md_size src) < 2 ^ 32" using c(9) lim small by linarith
    have "\<exists>md'. append_camera_metadata (Some c) (Some src) = Ret (OK, Some md') \<and> abs_md md' = abs_md src \<and>
        md_entry_capacity md' = ?ec \<and> md_data_capacity md' = ?dc \<and> wf_md md'"
      using append_spec [OF c(2) wf fit] c(3-8) by simp
    with c(1) False show ?thesis
      by (auto simp: clone_camera_metadata_def get_camera_metadata_entry_count_def get_camera_metadata_data_count_def)
  qed
  show "if dst_size < get_camera_metadata_compact_size (Some src) then copy_camera_metadata True dst_size src = Ret NULL
    else \<exists>md'. copy_camera_metadata True dst_size src = Ret (Some md') \<and> wf_md md' \<and> abs_md md' = abs_md src \<and>
      md_entry_capacity md' = md_entry_count src \<and> md_data_capacity md' = md_data_count src \<and>
      md_reserved md' = md_reserved src \<and> unat (md_size md') \<le> unat dst_size"
  proof (cases "dst_size < get_camera_metadata_compact_size (Some src)")
    case True
    then show ?thesis by (simp add: copy_camera_metadata_def Let_def)
  next
    case False
    let ?r = "md_size src - calculate_camera_metadata_size (md_entry_capacity src) (md_data_capacity src)"
    let ?need = "get_camera_metadata_compact_size (Some src)"
    have "unat (calculate_camera_metadata_size (md_entry_capacity src) (md_data_capacity src)) =
        40 + 16 * unat (md_entry_capacity src) + unat (md_data_capacity src)"
      using S(5) unat_less_u32 [of "md_size src"] by (intro calculate_size) linarith
    then have r: "unat ?r = length (md_reserved src)" using S(5) by (simp add: unat_sub_u32)
    have need: "unat ?need = 40 + length (md_reserved src) + 16 * unat ?ec + unat ?dc"
      using calculate_size [OF lim'] r S(3-5) unat_less_u32 [of "md_size src"]
      by (simp add: get_camera_metadata_compact_size_def Let_def unat_add_u32)
    have "unat ?r < 2 ^ 31" unfolding r using S(5) small by simp
    then have sgn: "0 <s ?r \<longleftrightarrow> md_reserved src \<noteq> []" using r by (simp add: sless_0_small)
    have sl: "slots ?ec = unat ?ec" using wf_entry_count_small [OF wf] S(3) by (intro slots_id) linarith
    let ?md = "\<lparr>md_size = ?need, md_version = 1, md_flags = md_flags src, md_entry_count = ?ec, md_entry_capacity = ?ec,
      md_entries = used src, md_data_count = ?dc, md_data_capacity = ?dc, md_data = take (unat ?dc) (md_data src),
      md_user = NULL, md_reserved = md_reserved src\<rparr>"
    have run: "copy_camera_metadata True dst_size src = Ret (Some ?md)"
      using False sgn r S(1-4)
      by (auto simp: copy_camera_metadata_def Let_def sl read_at_def used_def)
    have u: "used ?md = used src" using used_length [OF wf] by (simp add: used_def)
    have "wf_md ?md"
    proof (rule wf_mdI)
      show "length (be_data f) = 4" if "f \<in> set (md_entries ?md)" for f
        using that S(9) by (auto simp: used_def dest: in_set_takeD)
    qed (use S need used_length [OF wf] in \<open>simp_all add: u\<close>)
    moreover have "abs_md ?md = abs_md src"
      using payloads_prefix [OF S(6), of "take (unat ?dc) (md_data src)" "md_data src"] by (simp add: abs_md_def u)
    ultimately show ?thesis using run False by (simp add: not_less word_le_nat_alt)
  qed
qed

text \<open>
  C25. Cloning and copying preserve the contents and compact the packet: the result is well
  formed, has the same entries with the same bytes, and its capacities equal its counts. A
  packet without entries cannot be cloned; a destination that is too small is refused.
\<close>

theorem clone_copy_correct:
  fixes src :: "'u camera_metadata"
  assumes wf: "wf_md src" and small: "2 * unat (md_size src) < 2 ^ 32"
  shows "(if md_entry_count src = 0 then clone_camera_metadata True (Some src) = Ret NULL
    else \<exists>md'. clone_camera_metadata True (Some src) = Ret (Some md') \<and> wf_md md' \<and> abs_md md' = abs_md src \<and>
      md_entry_capacity md' = md_entry_count src \<and> md_data_capacity md' = md_data_count src) \<and>
    (if dst_size < get_camera_metadata_compact_size (Some src) then copy_camera_metadata True dst_size src = Ret NULL
    else \<exists>md'. copy_camera_metadata True dst_size src = Ret (Some md') \<and> wf_md md' \<and> abs_md md' = abs_md src \<and>
      md_entry_capacity md' = md_entry_count src \<and> md_data_capacity md' = md_data_count src \<and>
      md_reserved md' = md_reserved src \<and> unat (md_size md') \<le> unat dst_size)"
  by (intro conjI clone_copy_run [OF assms])


section \<open>A packet to run the operations on\<close>

text \<open>Two entries, the exposure time (eight bytes in the data area) and the aperture (inline).\<close>

definition demo_md :: "unit camera_metadata" where
  "demo_md = \<lparr>md_size = 104, md_version = 1, md_flags = 0, md_entry_count = 2, md_entry_capacity = 3,
     md_entries = [\<lparr>be_tag = 0x30000, be_count = 1, be_data = [0, 0, 0, 0], be_type = 3\<rparr>,
       \<lparr>be_tag = 0x10001, be_count = 1, be_data = [1, 2, 3, 4], be_type = 2\<rparr>,
       \<lparr>be_tag = 0, be_count = 0, be_data = [0, 0, 0, 0], be_type = 0\<rparr>],
     md_data_count = 8, md_data_capacity = 16,
     md_data = [1, 2, 3, 4, 5, 6, 7, 8, 0, 0, 0, 0, 0, 0, 0, 0], md_user = NULL, md_reserved = []\<rparr>"

lemma demo_used: "used demo_md = [\<lparr>be_tag = 0x30000, be_count = 1, be_data = [0, 0, 0, 0], be_type = 3\<rparr>,
       \<lparr>be_tag = 0x10001, be_count = 1, be_data = [1, 2, 3, 4], be_type = 2\<rparr>]"
  by (simp add: used_def demo_md_def)

lemma demo_wf: "wf_md demo_md"
proof (rule wf_mdI)
  show "list_all (entry_ok (unat (md_data_count demo_md))) (used demo_md)"
    unfolding demo_used by (simp add: demo_md_def entry_ok_def plen_def esize_def eoff_def tsize_def of_le32_def
      camera_metadata_type_size_def calculate_camera_metadata_entry_data_size_def Let_def)
  show "sorted_wrt apart (used demo_md)"
    unfolding demo_used by (simp add: apart_def esize_def camera_metadata_type_size_def
      calculate_camera_metadata_entry_data_size_def Let_def)
qed (auto simp: demo_md_def)

lemma demo_abs: "abs_md demo_md = [(0x30000, 3, 1, [1, 2, 3, 4, 5, 6, 7, 8]), (0x10001, 2, 1, [1, 2, 3, 4])]"
  unfolding abs_md_def demo_used
  by (simp add: abs_entry_def payload_def plen_def eoff_def tsize_def of_le32_def camera_metadata_type_size_def demo_md_def)

lemma demo_esize: "esize (md_entries demo_md ! 0) = 8"
  by (simp add: demo_md_def esize_def camera_metadata_type_size_def calculate_camera_metadata_entry_data_size_def Let_def)

theorem delete_entry_correct_witness:
  "\<exists>md'. delete_camera_metadata_entry (Some demo_md) 0 = Ret (OK, Some md') \<and> wf_md md' \<and>
    abs_md md' = [(0x10001, 2, 1, [1, 2, 3, 4])] \<and> md_data_count md' = 0"
proof -
  have "(0::u32) < md_entry_count demo_md" "md_data_count demo_md = 8" by (simp_all add: demo_md_def)
  then show ?thesis
    using delete_entry_correct [OF demo_wf, of 0] demo_esize by (auto simp: demo_abs unat_eq_0)
qed

lemma demo_tag: "get_camera_metadata_tag_type NULL 0 = Ret (uint (1 :: u8))"
  by code_simp

lemma demo_fields: "md_entry_count demo_md = 2" "md_entry_capacity demo_md = 3" "md_data_count demo_md = 8"
  "md_data_capacity demo_md = 16" "md_size demo_md = 104" "md_flags demo_md = 0"
  by (simp_all add: demo_md_def)

lemma demo_sizes: "tsize 1 = 4" "tsize 3 = 8" "calculate_camera_metadata_entry_data_size 1 2 = 8"
    "calculate_camera_metadata_entry_data_size 3 2 = 16" "calculate_camera_metadata_entry_data_size 1 3 = 12"
  by (simp_all add: tsize_def camera_metadata_type_size_def calculate_camera_metadata_entry_data_size_def Let_def word_le_nat_alt)

theorem add_entry_correct_witness:
  "(\<exists>md'. add_camera_metadata_entry NULL (Some demo_md) 0 (Some [9, 0, 0, 0, 7, 0, 0, 0]) 2 = Ret (OK, Some md') \<and>
     wf_md md' \<and> abs_md md' = abs_md demo_md @ [(0, 1, 2, [9, 0, 0, 0, 7, 0, 0, 0])]) \<and>
   add_camera_metadata_entry NULL (Some demo_md) 0 (Some (replicate 12 0)) 3 = Fault"
  using add_entry_correct [OF demo_wf demo_tag, of 2 "[9, 0, 0, 0, 7, 0, 0, 0]"]
    add_entry_correct [OF demo_wf demo_tag, of 3 "replicate 12 0"]
  by (auto simp: demo_fields demo_sizes)

theorem update_entry_correct_witness:
  "(\<exists>md' out. update_camera_metadata_entry (Some demo_md) 0 (replicate 16 5) 2 True = Ret (OK, Some md', out) \<and>
     wf_md md' \<and> abs_md md' = [(0x30000, 3, 2, replicate 16 5), (0x10001, 2, 1, [1, 2, 3, 4])])"
proof -
  have e: "be_type (md_entries demo_md ! 0) = 3" "be_tag (md_entries demo_md ! 0) = 0x30000" by (simp_all add: demo_md_def)
  show ?thesis
    using update_entry_correct [OF demo_wf, of 0 2 "replicate 16 5" True]
    by (auto simp: demo_fields demo_sizes demo_abs e demo_esize)
qed

theorem append_correct_witness:
  "append_camera_metadata (Some demo_md) (Some demo_md) = Ret (ERROR, Some demo_md) \<and>
   (\<exists>dst md'. allocate_camera_metadata True 4 64 = Some dst \<and>
     append_camera_metadata (Some dst) (Some demo_md) = Ret (OK, Some md') \<and> wf_md md' \<and> abs_md md' = abs_md demo_md)"
proof
  show "append_camera_metadata (Some demo_md) (Some demo_md) = Ret (ERROR, Some demo_md)"
    using append_correct [OF demo_wf demo_wf] by (simp add: demo_fields)
  obtain dst :: "unit camera_metadata" where dst: "allocate_camera_metadata True 4 64 = Some dst" "wf_md dst" "abs_md dst = []"
    "md_flags dst = 0" "md_entry_capacity dst = 4" "md_data_capacity dst = 64" "md_entry_count dst = 0" "md_data_count dst = 0"
    "unat (md_size dst) = 40 + 16 * unat (4::u32) + unat (64::u32)"
    by (rule allocate_run [of 4 64]) simp_all
  with append_correct [OF dst(2) demo_wf]
  show "\<exists>dst md'. allocate_camera_metadata True 4 64 = Some dst \<and>
     append_camera_metadata (Some dst) (Some demo_md) = Ret (OK, Some md') \<and> wf_md md' \<and> abs_md md' = abs_md demo_md"
    by (auto simp: demo_fields)
qed

theorem sort_find_correct_witness:
  "(\<exists>md'. sort_camera_metadata insertion_sort (Some demo_md) = Ret (OK, Some md') \<and> wf_md md' \<and> sorted (map fst (abs_md md'))) \<and>
   (\<exists>ce. find_camera_metadata_entry linear_search (Some demo_md) 0x10001 True = Ret (OK, Some ce) \<and> ce_tag ce = 0x10001) \<and>
   find_camera_metadata_entry linear_search (Some demo_md) 5 True = Ret (NOT_FOUND, NULL)"
  using sort_find_correct [OF demo_wf insertion_sort_contract linear_search_contract, of "0x10001"]
    sort_find_correct [OF demo_wf insertion_sort_contract linear_search_contract, of 5]
  by (auto simp: demo_abs)

theorem clone_copy_correct_witness:
  "\<exists>md'. clone_camera_metadata True (Some demo_md) = Ret (Some md') \<and> wf_md md' \<and> abs_md md' = abs_md demo_md \<and>
    md_data_capacity md' = 8"
  using clone_copy_correct [OF demo_wf, of 200] by (auto simp: demo_fields)

end
