(* ===== verification/Backed_Block.thy ===== *)
theory Backed_Block
  imports C_Memory "HOL-Library.AList"
begin

text \<open>
  The block list of \<open>core/libsparse/backed_block.c\<close>: a singly linked list of extents of an image, kept
  in an explicit heap because the code keeps a second pointer \<open>last_used\<close> into the list and frees
  nodes when it merges them. A read through a freed pointer, a failed assertion and a division by
  zero are \<open>Fault\<close>. The allocator is a parameter.
\<close>

section \<open>Data\<close>

type_synonym addr = nat
type_synonym i64 = "64 word"

text \<open>
  A pointer into a buffer of the caller is the bytes from there on. The file name of a
  \<open>BACKED_BLOCK_FILE\<close> is a heap pointer, since \<open>merge_bb\<close> compares the pointers and
  \<open>backed_block_destroy\<close> frees it.
\<close>

datatype backing =
    BB_Data "u8 list"
  | BB_File "addr ptr" i64
  | BB_Fd int i64
  | BB_Fill u32

datatype bb_type = BACKED_BLOCK_DATA | BACKED_BLOCK_FILE | BACKED_BLOCK_FD | BACKED_BLOCK_FILL

record backed_block =
  bb_block :: u32
  bb_len :: u32
  bb_backing :: backing
  bb_next :: "addr ptr"

record backed_block_list =
  data_blocks :: "addr ptr"
  last_used :: "addr ptr"
  bbl_block_size :: u32

record bb_heap =
  nodes :: "(addr \<times> backed_block) list"
  names :: "(addr \<times> string) list"

abbreviation nmap :: "bb_heap \<Rightarrow> addr \<Rightarrow> backed_block option" where
  "nmap h \<equiv> map_of (nodes h)"

text \<open>The allocator of the nodes: \<open>NULL\<close>, or the address of memory that is not in use.\<close>

type_synonym allocator = "bb_heap \<Rightarrow> addr ptr"

definition malloc_contract :: "allocator \<Rightarrow> bool" where
  "malloc_contract malloc \<longleftrightarrow>
     (\<forall>h a. malloc h = Some a \<longrightarrow> nmap h a = None \<and> map_of (names h) a = None)"

definition EINVAL :: int where
  "EINVAL = 22"

definition ENOMEM :: int where
  "ENOMEM = 12"

text \<open>Integer division and the rounding macros of \<open>sparse_defs.h\<close>.\<close>

definition udiv :: "u32 \<Rightarrow> u32 \<Rightarrow> u32 exec" where
  "udiv a b = (if b = 0 then Fault else Ret (a div b))"

definition DIV_ROUND_UP :: "u32 \<Rightarrow> u32 \<Rightarrow> u32 exec" where
  "DIV_ROUND_UP x y = udiv (x + y - 1) y"

definition ALIGN :: "u32 \<Rightarrow> u32 \<Rightarrow> u32 exec" where
  "ALIGN x y = do { q \<leftarrow> DIV_ROUND_UP x y; Ret (y * q) }"

definition ALIGN_DOWN :: "u32 \<Rightarrow> u32 \<Rightarrow> u32 exec" where
  "ALIGN_DOWN x y = do { q \<leftarrow> udiv x y; Ret (y * q) }"

section \<open>Heap accesses\<close>

definition deref :: "bb_heap \<Rightarrow> addr ptr \<Rightarrow> backed_block exec" where
  "deref h p = (case p of None \<Rightarrow> Fault | Some a \<Rightarrow> nmap h a)"

definition assign :: "addr ptr \<Rightarrow> (backed_block \<Rightarrow> backed_block) \<Rightarrow> bb_heap \<Rightarrow> bb_heap exec" where
  "assign p f h = (case p of None \<Rightarrow> Fault | Some a \<Rightarrow>
     do { n \<leftarrow> nmap h a; Ret (h\<lparr>nodes := AList.update a (f n) (nodes h)\<rparr>) })"

definition free_node :: "addr ptr \<Rightarrow> bb_heap \<Rightarrow> bb_heap exec" where
  "free_node p h = (case p of None \<Rightarrow> Ret h | Some a \<Rightarrow>
     do { n \<leftarrow> nmap h a; Ret (h\<lparr>nodes := AList.delete a (nodes h)\<rparr>) })"

definition free_name :: "addr ptr \<Rightarrow> bb_heap \<Rightarrow> bb_heap exec" where
  "free_name p h = (case p of None \<Rightarrow> Ret h | Some a \<Rightarrow>
     do { n \<leftarrow> map_of (names h) a; Ret (h\<lparr>names := AList.delete a (names h)\<rparr>) })"

definition new_node :: "addr \<Rightarrow> backed_block \<Rightarrow> bb_heap \<Rightarrow> bb_heap" where
  "new_node a n h = h\<lparr>nodes := AList.update a n (nodes h)\<rparr>"

section \<open>Accessors and iterators\<close>

definition backed_block_iter_new :: "backed_block_list \<Rightarrow> addr ptr" where
  "backed_block_iter_new bbl = data_blocks bbl"

definition backed_block_iter_next :: "bb_heap \<Rightarrow> addr ptr \<Rightarrow> addr ptr exec" where
  "backed_block_iter_next h p = do { bb \<leftarrow> deref h p; Ret (bb_next bb) }"

definition backed_block_len :: "backed_block \<Rightarrow> u32" where
  "backed_block_len bb = bb_len bb"

definition backed_block_block :: "backed_block \<Rightarrow> u32" where
  "backed_block_block bb = bb_block bb"

definition backed_block_data :: "backed_block \<Rightarrow> u8 list exec" where
  "backed_block_data bb = (case bb_backing bb of BB_Data d \<Rightarrow> Ret d | _ \<Rightarrow> Fault)"

definition backed_block_filename :: "backed_block \<Rightarrow> addr ptr exec" where
  "backed_block_filename bb = (case bb_backing bb of BB_File f _ \<Rightarrow> Ret f | _ \<Rightarrow> Fault)"

definition backed_block_fd :: "backed_block \<Rightarrow> int exec" where
  "backed_block_fd bb = (case bb_backing bb of BB_Fd fd _ \<Rightarrow> Ret fd | _ \<Rightarrow> Fault)"

definition backed_block_file_offset :: "backed_block \<Rightarrow> i64 exec" where
  "backed_block_file_offset bb =
     (case bb_backing bb of BB_File _ off \<Rightarrow> Ret off | BB_Fd _ off \<Rightarrow> Ret off | _ \<Rightarrow> Fault)"

definition backed_block_fill_val :: "backed_block \<Rightarrow> u32 exec" where
  "backed_block_fill_val bb = (case bb_backing bb of BB_Fill v \<Rightarrow> Ret v | _ \<Rightarrow> Fault)"

fun type_of :: "backing \<Rightarrow> bb_type" where
  "type_of (BB_Data _) = BACKED_BLOCK_DATA"
| "type_of (BB_File _ _) = BACKED_BLOCK_FILE"
| "type_of (BB_Fd _ _) = BACKED_BLOCK_FD"
| "type_of (BB_Fill _) = BACKED_BLOCK_FILL"

definition backed_block_type :: "backed_block \<Rightarrow> bb_type" where
  "backed_block_type bb = type_of (bb_backing bb)"

section \<open>Creation and destruction\<close>

definition backed_block_destroy :: "addr ptr \<Rightarrow> bb_heap \<Rightarrow> bb_heap exec" where
  "backed_block_destroy p h = do {
     bb \<leftarrow> deref h p;
     h \<leftarrow> (case bb_backing bb of BB_File f _ \<Rightarrow> free_name f h | _ \<Rightarrow> Ret h);
     free_node p h }"

text \<open>\<open>backed_block_list_new\<close> does not check the result of \<open>calloc\<close>: a failed allocation faults.\<close>

definition backed_block_list_new :: "bool \<Rightarrow> u32 \<Rightarrow> backed_block_list exec" where
  "backed_block_list_new mem_ok block_size =
     (if mem_ok then Ret \<lparr>data_blocks = NULL, last_used = NULL, bbl_block_size = block_size\<rparr> else Fault)"

partial_function (option) destroy_loop :: "addr ptr \<Rightarrow> bb_heap \<Rightarrow> bb_heap exec" where
  [code]: "destroy_loop p h =
     (if p = NULL then Ret h
      else do { bb \<leftarrow> deref h p; h \<leftarrow> backed_block_destroy p h; destroy_loop (bb_next bb) h })"

definition backed_block_list_destroy :: "backed_block_list \<Rightarrow> bb_heap \<Rightarrow> bb_heap exec" where
  "backed_block_list_destroy bbl h = destroy_loop (data_blocks bbl) h"

section \<open>Moving a part of a list\<close>

text \<open>The three loops of \<open>backed_block_list_move\<close>: the last node from \<open>start\<close> on, the predecessor of
  \<open>start\<close>, and the node of \<open>to\<close> after which the part is inserted.\<close>

partial_function (option) last_loop :: "bb_heap \<Rightarrow> addr ptr \<Rightarrow> addr ptr exec" where
  [code]: "last_loop h p =
     (if p = NULL then Ret NULL
      else do { bb \<leftarrow> deref h p; if bb_next bb = NULL then Ret p else last_loop h (bb_next bb) })"

partial_function (option) unlink_loop :: "addr ptr \<Rightarrow> addr ptr \<Rightarrow> addr ptr \<Rightarrow> bb_heap \<Rightarrow> bb_heap exec" where
  [code]: "unlink_loop start after p h =
     (if p = NULL then Ret h
      else do {
        bb \<leftarrow> deref h p;
        if bb_next bb = start then assign p (bb_next_update (\<lambda>_. after)) h
        else unlink_loop start after (bb_next bb) h })"

partial_function (option) insert_loop :: "addr ptr \<Rightarrow> addr ptr \<Rightarrow> u32 \<Rightarrow> addr ptr \<Rightarrow> bb_heap \<Rightarrow> bb_heap exec" where
  [code]: "insert_loop start end_bb start_block p h =
     (if p = NULL then Ret h
      else do {
        bb \<leftarrow> deref h p;
        stop \<leftarrow> (if bb_next bb = NULL then Ret True
                 else do { nx \<leftarrow> deref h (bb_next bb); Ret (bb_block nx > start_block) });
        if stop then do {
          h \<leftarrow> assign end_bb (bb_next_update (\<lambda>_. bb_next bb)) h;
          assign p (bb_next_update (\<lambda>_. start)) h }
        else insert_loop start end_bb start_block (bb_next bb) h })"

definition backed_block_list_move ::
    "backed_block_list \<Rightarrow> backed_block_list \<Rightarrow> addr ptr \<Rightarrow> addr ptr \<Rightarrow> bb_heap \<Rightarrow>
     (backed_block_list \<times> backed_block_list \<times> bb_heap) exec" where
  "backed_block_list_move from to start0 end0 h = do {
     let start = (if start0 = NULL then data_blocks from else start0);
     end_bb \<leftarrow> (if end0 = NULL then last_loop h start else Ret end0);
     if start = NULL \<or> end_bb = NULL then Ret (from, to, h)
     else do {
       let from = from\<lparr>last_used := NULL\<rparr>;
       let to = to\<lparr>last_used := NULL\<rparr>;
       e \<leftarrow> deref h end_bb;
       (from, h) \<leftarrow>
         (if data_blocks from = start then Ret (from\<lparr>data_blocks := bb_next e\<rparr>, h)
          else do { h \<leftarrow> unlink_loop start (bb_next e) (data_blocks from) h; Ret (from, h) });
       if data_blocks to = NULL then do {
         h \<leftarrow> assign end_bb (bb_next_update (\<lambda>_. NULL)) h;
         Ret (from, to\<lparr>data_blocks := start\<rparr>, h) }
       else do {
         s \<leftarrow> deref h start;
         h \<leftarrow> insert_loop start end_bb (bb_block s) (data_blocks to) h;
         Ret (from, to, h) } } }"

section \<open>Merging and queueing\<close>

text \<open>The tests of \<open>merge_bb\<close> on two blocks whose numbers are adjacent.\<close>

fun merge_compatible :: "u32 \<Rightarrow> backing \<Rightarrow> backing \<Rightarrow> bool" where
  "merge_compatible len (BB_Data _) (BB_Data _) = False"
| "merge_compatible len (BB_Fill v) (BB_Fill w) = (v = w)"
| "merge_compatible len (BB_File f off) (BB_File g off') = (f = g \<and> off + ucast len = off')"
| "merge_compatible len (BB_Fd fd off) (BB_Fd fd' off') = (fd = fd' \<and> off + ucast len = off')"
| "merge_compatible len _ _ = False"

definition merge_bb :: "backed_block_list \<Rightarrow> addr ptr \<Rightarrow> addr ptr \<Rightarrow> bb_heap \<Rightarrow> (int \<times> bb_heap) exec" where
  "merge_bb bbl a b h =
     (if a = NULL \<or> b = NULL then Ret (- EINVAL, h)
      else do {
        na \<leftarrow> deref h a;
        nb \<leftarrow> deref h b;
        if \<not> bb_block na < bb_block nb then Fault
        else if backed_block_type na \<noteq> backed_block_type nb then Ret (- EINVAL, h)
        else do {
          block_len \<leftarrow> udiv (bb_len na) (bbl_block_size bbl);
          if bb_block na + block_len \<noteq> bb_block nb then Ret (- EINVAL, h)
          else if \<not> merge_compatible (bb_len na) (bb_backing na) (bb_backing nb) then Ret (- EINVAL, h)
          else do {
            h \<leftarrow> assign a (\<lambda>n. n\<lparr>bb_len := bb_len n + bb_len nb, bb_next := bb_next nb\<rparr>) h;
            h \<leftarrow> backed_block_destroy b h;
            Ret (0, h) } } })"

partial_function (option) queue_loop :: "u32 \<Rightarrow> bb_heap \<Rightarrow> addr ptr \<Rightarrow> addr ptr exec" where
  [code]: "queue_loop new_block h p = do {
     bb \<leftarrow> deref h p;
     if bb_next bb = NULL then Ret p
     else do {
       nx \<leftarrow> deref h (bb_next bb);
       if bb_block nx < new_block then queue_loop new_block h (bb_next bb) else Ret p } }"

definition search_start :: "backed_block_list \<Rightarrow> u32 \<Rightarrow> bb_heap \<Rightarrow> addr ptr exec" where
  "search_start bbl new_block h =
     (if last_used bbl = NULL then Ret (data_blocks bbl)
      else do {
        lu \<leftarrow> deref h (last_used bbl);
        Ret (if new_block > bb_block lu then last_used bbl else data_blocks bbl) })"

definition queue_bb :: "backed_block_list \<Rightarrow> addr ptr \<Rightarrow> bb_heap \<Rightarrow> (int \<times> backed_block_list \<times> bb_heap) exec" where
  "queue_bb bbl new_bb h =
     (if data_blocks bbl = NULL then Ret (0, bbl\<lparr>data_blocks := new_bb\<rparr>, h)
      else do {
        hd_bb \<leftarrow> deref h (data_blocks bbl);
        nw \<leftarrow> deref h new_bb;
        if bb_block hd_bb > bb_block nw then do {
          h \<leftarrow> assign new_bb (bb_next_update (\<lambda>_. data_blocks bbl)) h;
          Ret (0, bbl\<lparr>data_blocks := new_bb\<rparr>, h) }
        else do {
          start \<leftarrow> search_start bbl (bb_block nw) h;
          let bbl = bbl\<lparr>last_used := new_bb\<rparr>;
          bb \<leftarrow> queue_loop (bb_block nw) h start;
          n \<leftarrow> deref h bb;
          h \<leftarrow> (if bb_next n = NULL then Ret h else assign new_bb (bb_next_update (\<lambda>_. bb_next n)) h);
          h \<leftarrow> assign bb (bb_next_update (\<lambda>_. new_bb)) h;
          nw' \<leftarrow> deref h new_bb;
          (_, h) \<leftarrow> merge_bb bbl new_bb (bb_next nw') h;
          (_, h) \<leftarrow> merge_bb bbl bb new_bb h;
          Ret (0, bbl, h) } })"

section \<open>Adding and splitting blocks\<close>

text \<open>\<open>strdup\<close> of a file name: the allocator decides whether it succeeds; the copy is never checked.\<close>

definition strdup_name :: "allocator \<Rightarrow> string \<Rightarrow> bb_heap \<Rightarrow> addr ptr \<times> bb_heap" where
  "strdup_name malloc s h = (case malloc h of
     None \<Rightarrow> (NULL, h)
   | Some a \<Rightarrow> (Some a, h\<lparr>names := AList.update a s (names h)\<rparr>))"

definition backed_block_add_fill ::
    "allocator \<Rightarrow> backed_block_list \<Rightarrow> u32 \<Rightarrow> u32 \<Rightarrow> u32 \<Rightarrow> bb_heap \<Rightarrow> (int \<times> backed_block_list \<times> bb_heap) exec" where
  "backed_block_add_fill malloc bbl fill_val len block h = (case malloc h of
     None \<Rightarrow> Ret (- ENOMEM, bbl, h)
   | Some a \<Rightarrow> queue_bb bbl (Some a)
       (new_node a \<lparr>bb_block = block, bb_len = len, bb_backing = BB_Fill fill_val, bb_next = NULL\<rparr> h))"

definition backed_block_add_data ::
    "allocator \<Rightarrow> backed_block_list \<Rightarrow> u8 list \<Rightarrow> u32 \<Rightarrow> u32 \<Rightarrow> bb_heap \<Rightarrow> (int \<times> backed_block_list \<times> bb_heap) exec" where
  "backed_block_add_data malloc bbl data len block h = (case malloc h of
     None \<Rightarrow> Ret (- ENOMEM, bbl, h)
   | Some a \<Rightarrow> queue_bb bbl (Some a)
       (new_node a \<lparr>bb_block = block, bb_len = len, bb_backing = BB_Data data, bb_next = NULL\<rparr> h))"

definition backed_block_add_file ::
    "allocator \<Rightarrow> backed_block_list \<Rightarrow> string \<Rightarrow> i64 \<Rightarrow> u32 \<Rightarrow> u32 \<Rightarrow> bb_heap \<Rightarrow>
     (int \<times> backed_block_list \<times> bb_heap) exec" where
  "backed_block_add_file malloc bbl filename offset len block h = (case malloc h of
     None \<Rightarrow> Ret (- ENOMEM, bbl, h)
   | Some a \<Rightarrow>
       (let h = new_node a \<lparr>bb_block = block, bb_len = len, bb_backing = BB_File NULL 0, bb_next = NULL\<rparr> h;
            (f, h) = strdup_name malloc filename h
        in queue_bb bbl (Some a)
             (new_node a \<lparr>bb_block = block, bb_len = len, bb_backing = BB_File f offset, bb_next = NULL\<rparr> h)))"

definition backed_block_add_fd ::
    "allocator \<Rightarrow> backed_block_list \<Rightarrow> int \<Rightarrow> i64 \<Rightarrow> u32 \<Rightarrow> u32 \<Rightarrow> bb_heap \<Rightarrow>
     (int \<times> backed_block_list \<times> bb_heap) exec" where
  "backed_block_add_fd malloc bbl fd offset len block h = (case malloc h of
     None \<Rightarrow> Ret (- ENOMEM, bbl, h)
   | Some a \<Rightarrow> queue_bb bbl (Some a)
       (new_node a \<lparr>bb_block = block, bb_len = len, bb_backing = BB_Fd fd offset, bb_next = NULL\<rparr> h))"

text \<open>The second half of a split backing starts \<open>max_len\<close> bytes later.\<close>

fun advance_backing :: "u32 \<Rightarrow> backing \<Rightarrow> backing" where
  "advance_backing n (BB_Data d) = BB_Data (drop (unat n) d)"
| "advance_backing n (BB_File f off) = BB_File f (off + ucast n)"
| "advance_backing n (BB_Fd fd off) = BB_Fd fd (off + ucast n)"
| "advance_backing n (BB_Fill v) = BB_Fill v"

text \<open>After \<open>malloc\<close> the code tests \<open>bb\<close> and not \<open>new_bb\<close>: a failed allocation is dereferenced.\<close>

definition backed_block_split ::
    "allocator \<Rightarrow> backed_block_list \<Rightarrow> addr ptr \<Rightarrow> u32 \<Rightarrow> bb_heap \<Rightarrow> (int \<times> bb_heap) exec" where
  "backed_block_split malloc bbl p max_len0 h = do {
     max_len \<leftarrow> ALIGN_DOWN max_len0 (bbl_block_size bbl);
     bb \<leftarrow> deref h p;
     if bb_len bb \<le> max_len then Ret (0, h)
     else (case malloc h of
         None \<Rightarrow> Fault
       | Some a \<Rightarrow> do {
           q \<leftarrow> udiv max_len (bbl_block_size bbl);
           let h = new_node a \<lparr>bb_block = bb_block bb + q, bb_len = bb_len bb - max_len,
                               bb_backing = advance_backing max_len (bb_backing bb), bb_next = bb_next bb\<rparr> h;
           h \<leftarrow> assign p (\<lambda>n. n\<lparr>bb_next := Some a, bb_len := max_len\<rparr>) h;
           Ret (0, h) }) }"

section \<open>Lists in the heap\<close>

text \<open>
  The contents of a node without its link, and the heap holding a list of such extents from \<open>p\<close> to
  \<open>q\<close>. Elements carry their address, so that frame conditions can be stated.
\<close>

record extent =
  e_block :: u32
  e_len :: u32
  e_backing :: backing

type_synonym cell = "addr \<times> extent"

definition mk_bb :: "extent \<Rightarrow> addr ptr \<Rightarrow> backed_block" where
  "mk_bb e q = \<lparr>bb_block = e_block e, bb_len = e_len e, bb_backing = e_backing e, bb_next = q\<rparr>"

lemma mk_bb_sel [simp]:
  "bb_block (mk_bb e q) = e_block e" "bb_len (mk_bb e q) = e_len e"
  "bb_backing (mk_bb e q) = e_backing e" "bb_next (mk_bb e q) = q"
  by (simp_all add: mk_bb_def)

lemma mk_bb_next [simp]: "mk_bb e q\<lparr>bb_next := r\<rparr> = mk_bb e r"
  by (simp add: mk_bb_def)

lemma mk_bb_len [simp]: "mk_bb e q\<lparr>bb_len := l, bb_next := r\<rparr> = mk_bb (e\<lparr>e_len := l\<rparr>) r"
  by (simp add: mk_bb_def)

lemma mk_bb_len' [simp]: "mk_bb e q\<lparr>bb_next := r, bb_len := l\<rparr> = mk_bb (e\<lparr>e_len := l\<rparr>) r"
  by (simp add: mk_bb_def)

fun first :: "cell list \<Rightarrow> addr ptr \<Rightarrow> addr ptr" where
  "first [] q = q"
| "first ((a, _) # _) q = Some a"

fun path :: "(addr \<Rightarrow> backed_block option) \<Rightarrow> cell list \<Rightarrow> addr ptr \<Rightarrow> bool" where
  "path m [] q \<longleftrightarrow> True"
| "path m ((a, e) # xs) q \<longleftrightarrow> m a = Some (mk_bb e (first xs q)) \<and> path m xs q"

abbreviation addrs :: "cell list \<Rightarrow> addr set" where
  "addrs xs \<equiv> fst ` set xs"

lemma first_append [simp]: "first (xs @ ys) q = first xs (first ys q)"
  by (cases xs) auto

lemma path_append [simp]: "path m (xs @ ys) q \<longleftrightarrow> path m xs (first ys q) \<and> path m ys q"
  by (induction xs) auto

lemma first_Cons: "first (x # xs) q = Some (fst x)"
  by (cases x) simp

lemma first_NULL [simp]: "first xs NULL = NULL \<longleftrightarrow> xs = []"
  by (cases xs) (auto simp: first_Cons)

lemma path_frame: "\<forall>a \<in> addrs xs. m' a = m a \<Longrightarrow> path m' xs q = path m xs q"
  by (induction xs) auto

lemma path_upd [simp]: "a \<notin> addrs xs \<Longrightarrow> path (m(a := v)) xs q = path m xs q"
  by (rule path_frame) auto

lemma path_lookup: "path m xs q \<Longrightarrow> (a, e) \<in> set xs \<Longrightarrow> \<exists>r. m a = Some (mk_bb e r)"
  by (induction xs) auto

text \<open>Heap accesses in terms of the map of the nodes.\<close>

lemma deref_Some [simp]: "deref h (Some a) = nmap h a"
  by (simp add: deref_def)

definition upd :: "addr \<Rightarrow> backed_block \<Rightarrow> bb_heap \<Rightarrow> bb_heap" where
  "upd a n h = h\<lparr>nodes := AList.update a n (nodes h)\<rparr>"

definition del_node :: "addr \<Rightarrow> bb_heap \<Rightarrow> bb_heap" where
  "del_node a h = h\<lparr>nodes := AList.delete a (nodes h)\<rparr>"

lemma nmap_upd [simp]: "nmap (upd a n h) = (nmap h)(a \<mapsto> n)"
  by (simp add: upd_def update_conv')

lemma nmap_del_node [simp]: "nmap (del_node a h) = (nmap h)(a := None)"
  by (simp add: del_node_def delete_conv')

lemma names_upd [simp]: "names (upd a n h) = names h" "names (del_node a h) = names h"
  by (simp_all add: upd_def del_node_def)

lemma assign_run: "nmap h a = Some n \<Longrightarrow> assign (Some a) f h = Ret (upd a (f n) h)"
  by (simp add: assign_def upd_def)

lemma new_node_upd: "new_node a n h = upd a n h"
  by (simp add: new_node_def upd_def)

lemma free_node_run: "nmap h a = Some n \<Longrightarrow> free_node (Some a) h = Ret (del_node a h)"
  by (simp add: free_node_def del_node_def)

section \<open>The list function behind \<open>queue_bb\<close>\<close>

definition merge_ext :: "u32 \<Rightarrow> extent \<Rightarrow> extent \<Rightarrow> extent option" where
  "merge_ext bs a b =
     (if e_block a + e_len a div bs = e_block b \<and> merge_compatible (e_len a) (e_backing a) (e_backing b)
      then Some (a\<lparr>e_len := e_len a + e_len b\<rparr>) else None)"

definition merge_right :: "u32 \<Rightarrow> extent \<Rightarrow> extent list \<Rightarrow> extent list" where
  "merge_right bs e rs = (case rs of [] \<Rightarrow> [e]
     | r # rs' \<Rightarrow> (case merge_ext bs e r of None \<Rightarrow> e # rs | Some m \<Rightarrow> m # rs'))"

text \<open>Insertion in the order of the block numbers, merging with the successor, then with the
  predecessor; a new first block is not merged.\<close>

definition queue_spec :: "u32 \<Rightarrow> extent \<Rightarrow> extent list \<Rightarrow> extent list" where
  "queue_spec bs e es =
     (let ls = takeWhile (\<lambda>f. e_block f < e_block e) es; rs = dropWhile (\<lambda>f. e_block f < e_block e) es
      in if ls = [] then e # rs
         else butlast ls @ (case merge_right bs e rs of m # rs' \<Rightarrow> merge_right bs (last ls) (m # rs')))"

section \<open>Queueing refines the list function\<close>

definition bb_list :: "bb_heap \<Rightarrow> backed_block_list \<Rightarrow> cell list \<Rightarrow> bool" where
  "bb_list h bbl xs \<longleftrightarrow> path (nmap h) xs NULL \<and> distinct (map fst xs) \<and> data_blocks bbl = first xs NULL"

abbreviation sorted_ext :: "extent list \<Rightarrow> bool" where
  "sorted_ext \<equiv> sorted_wrt (\<lambda>a b. e_block a < e_block b)"

text \<open>No two blocks of a list own the same file name.\<close>

definition shared_name :: "extent \<Rightarrow> extent \<Rightarrow> bool" where
  "shared_name e f \<longleftrightarrow> (\<exists>n off off'. e_backing e = BB_File (Some n) off \<and> e_backing f = BB_File (Some n) off')"

lemma shared_name_sym: "shared_name e f = shared_name f e"
  by (auto simp: shared_name_def)

lemma merge_compatible_type: "merge_compatible l a b \<Longrightarrow> type_of a = type_of b"
  by (cases a; cases b) auto

lemma merge_ext_SomeD:
  "merge_ext bs e f = Some m \<Longrightarrow> m = e\<lparr>e_len := e_len e + e_len f\<rparr> \<and> e_block e + e_len e div bs = e_block f \<and>
     merge_compatible (e_len e) (e_backing e) (e_backing f)"
  by (auto simp: merge_ext_def split: if_splits)

lemma merge_bb_run:
  assumes "nmap h a = Some (mk_bb e (Some b))" "nmap h b = Some (mk_bb f r)" "a \<noteq> b"
    and "e_block e < e_block f" "bbl_block_size bbl \<noteq> 0" "\<not> shared_name e f"
  shows "merge_bb bbl (Some a) (Some b) h = Ret (case merge_ext (bbl_block_size bbl) e f of
           None \<Rightarrow> (- EINVAL, h) | Some m \<Rightarrow> (0, del_node b (upd a (mk_bb m r) h)))"
proof -
  have ty: "type_of (e_backing e) \<noteq> type_of (e_backing f) \<Longrightarrow> merge_ext (bbl_block_size bbl) e f = None"
    using merge_compatible_type by (force simp: merge_ext_def)
  have destroy: "backed_block_destroy (Some b) (upd a n h) = Ret (del_node b (upd a n h))"
    if "merge_compatible (e_len e) (e_backing e) (e_backing f)" for n
  proof -
    have "(case e_backing f of BB_File g off \<Rightarrow> free_name g (upd a n h) | _ \<Rightarrow> Ret (upd a n h)) = Ret (upd a n h)"
      using that assms(6)
      by (cases "(e_len e, e_backing e, e_backing f)" rule: merge_compatible.cases)
        (auto simp: shared_name_def free_name_def split: option.splits)
    then show ?thesis using assms by (simp add: backed_block_destroy_def free_node_run)
  qed
  show ?thesis
    using assms(1-5) ty destroy
    by (auto simp: merge_bb_def backed_block_type_def udiv_def merge_ext_def assign_run)
qed

lemma queue_loop_run:
  "path (nmap h) ((a, e) # xs) NULL \<Longrightarrow>
     queue_loop nb h (Some a) = Ret (Some (fst (last ((a, e) # takeWhile (\<lambda>c. e_block (snd c) < nb) xs))))"
proof (induction xs arbitrary: a e)
  case Nil
  then show ?case by (subst queue_loop.simps) simp
next
  case (Cons c xs)
  obtain b f where c: "c = (b, f)" by (cases c)
  from Cons.prems have "path (nmap h) ((b, f) # xs) NULL" by (simp add: c)
  from Cons.IH [OF this] Cons.prems show ?case
    by (subst queue_loop.simps) (auto simp: c)
qed

lemma bbl_sel: "bbl_block_size (bbl\<lparr>last_used := p\<rparr>) = bbl_block_size bbl"
  "data_blocks (bbl\<lparr>last_used := p\<rparr>) = data_blocks bbl"
  by simp_all

text \<open>Linking a new node behind the last one with a smaller number.\<close>

lemma link_run:
  assumes "path (nmap h) (ls @ (b, f) # rs) NULL" "nmap h new = Some (mk_bb e NULL)"
    and "new \<notin> addrs (ls @ (b, f) # rs)" "distinct (map fst (ls @ (b, f) # rs))"
  obtains h1 h2 where
    "(if first rs NULL = NULL then Ret h else assign (Some new) (bb_next_update (\<lambda>_. first rs NULL)) h) = Ret h1"
    "assign (Some b) (bb_next_update (\<lambda>_. Some new)) h1 = Ret h2"
    "path (nmap h2) (ls @ (b, f) # (new, e) # rs) NULL" "names h2 = names h"
    "\<forall>a. a \<noteq> new \<and> a \<noteq> b \<longrightarrow> nmap h2 a = nmap h a"
proof -
  define h1 where "h1 = (if rs = [] then h else upd new (mk_bb e (first rs NULL)) h)"
  have m1: "nmap h1 = (nmap h)(new \<mapsto> mk_bb e (first rs NULL))"
    using assms(2) by (auto simp: h1_def fun_eq_iff)
  have nb: "nmap h b = Some (mk_bb f (first rs NULL))" "new \<noteq> b" using assms by auto
  have *: "path (nmap h) ls (Some b)" "path (nmap h) rs NULL" using assms(1) by auto
  show ?thesis
  proof (rule that)
    show "(if first rs NULL = NULL then Ret h else assign (Some new) (bb_next_update (\<lambda>_. first rs NULL)) h) = Ret h1"
      using assms(2) by (simp add: h1_def assign_run)
    show "assign (Some b) (bb_next_update (\<lambda>_. Some new)) h1 = Ret (upd b (mk_bb f (Some new)) h1)"
      using nb by (simp add: assign_run m1)
    show "path (nmap (upd b (mk_bb f (Some new)) h1)) (ls @ (b, f) # (new, e) # rs) NULL"
      using * assms(3,4) nb by (auto simp: m1 image_Un)
    show "names (upd b (mk_bb f (Some new)) h1) = names h" by (simp add: h1_def)
    show "\<forall>a. a \<noteq> new \<and> a \<noteq> b \<longrightarrow> nmap (upd b (mk_bb f (Some new)) h1) a = nmap h a" by (simp add: m1)
  qed
qed

text \<open>Both merges behind the link, on a list with the new node in place.\<close>

definition merge_cells :: "u32 \<Rightarrow> cell \<Rightarrow> cell list \<Rightarrow> cell list" where
  "merge_cells bs c rs = (case rs of [] \<Rightarrow> [c] | (b, f) # rs' \<Rightarrow>
     (case merge_ext bs (snd c) f of None \<Rightarrow> c # rs | Some m \<Rightarrow> (fst c, m) # rs'))"

lemma merge_cells_snd: "map snd (merge_cells bs c rs) = merge_right bs (snd c) (map snd rs)"
  by (auto simp: merge_cells_def merge_right_def split: list.splits option.splits)

lemma merge_step:
  assumes "path (nmap h) (ls @ (a, e) # rs) NULL" "distinct (map fst (ls @ (a, e) # rs))"
    and "bbl_block_size bbl \<noteq> 0"
    and "\<forall>(b, f) \<in> set rs. e_block e < e_block f \<and> \<not> shared_name e f"
  obtains r h' where "merge_bb bbl (Some a) (first rs NULL) h = Ret (r, h')"
    "path (nmap h') (ls @ merge_cells (bbl_block_size bbl) (a, e) rs) NULL"
    "names h' = names h" "\<forall>x. x \<notin> addrs ((a, e) # rs) \<longrightarrow> nmap h' x = nmap h x"
    "\<forall>x. x \<in> addrs ((a, e) # rs) - addrs (merge_cells (bbl_block_size bbl) (a, e) rs) \<longrightarrow> nmap h' x = None"
proof (cases rs)
  case Nil
  then show thesis using assms(1) by (intro that) (auto simp: merge_bb_def merge_cells_def)
next
  case (Cons c rs')
  obtain b f where c: "c = (b, f)" by (cases c)
  have ab: "a \<noteq> b" "e_block e < e_block f" "\<not> shared_name e f" using assms(2,4) by (auto simp: Cons c)
  have n: "nmap h a = Some (mk_bb e (Some b))" "nmap h b = Some (mk_bb f (first rs' NULL))"
    using assms(1) by (auto simp: Cons c)
  note run = merge_bb_run [OF n ab(1,2) assms(3) ab(3)]
  show thesis
  proof (cases "merge_ext (bbl_block_size bbl) e f")
    case None
    show thesis by (rule that) (use assms(1) run None in \<open>auto simp: Cons c merge_cells_def\<close>)
  next
    case (Some m)
    have "path (nmap h) ls (Some a)" "path (nmap h) rs' NULL" using assms(1) by (auto simp: Cons c)
    then show thesis
      by (intro that [where h' = "del_node b (upd a (mk_bb m (first rs' NULL)) h)"])
        (use assms(2) run Some ab in \<open>auto simp: Cons c merge_cells_def\<close>)
  qed
qed

definition queue_cells :: "u32 \<Rightarrow> cell \<Rightarrow> cell list \<Rightarrow> cell list" where
  "queue_cells bs c xs =
     (let P = (\<lambda>d. e_block (snd d) < e_block (snd c)); ls = takeWhile P xs; rs = dropWhile P xs
      in if ls = [] then c # rs
         else butlast ls @ merge_cells bs (last ls) (merge_cells bs c rs))"

lemma merge_right_ne: "merge_right bs e rs \<noteq> []"
  by (auto simp: merge_right_def split: list.splits option.splits)

lemma queue_cells_snd: "map snd (queue_cells bs c xs) = queue_spec bs (snd c) (map snd xs)"
proof -
  let ?P = "\<lambda>f. e_block f < e_block (snd c)"
  have t: "takeWhile ?P (map snd xs) = map snd (takeWhile (?P \<circ> snd) xs)"
    "dropWhile ?P (map snd xs) = map snd (dropWhile (?P \<circ> snd) xs)"
    by (simp_all add: takeWhile_map dropWhile_map)
  show ?thesis
    using merge_right_ne [of bs "snd c" "map snd (dropWhile (?P \<circ> snd) xs)"]
    by (auto simp: queue_cells_def queue_spec_def t Let_def o_def merge_cells_snd map_butlast last_map
        split: list.splits)
qed

lemma addrs_merge_cells: "addrs (merge_cells bs c rs) \<subseteq> addrs (c # rs)"
  by (auto simp: merge_cells_def split: list.splits option.splits)

lemma distinct_merge_cells: "distinct (map fst (c # rs)) \<Longrightarrow> distinct (map fst (merge_cells bs c rs))"
  by (cases rs) (auto simp: merge_cells_def simp del: set_map simp flip: set_map split: option.splits)

lemma fst_merge_cells: "first (merge_cells bs c rs) NULL = Some (fst c)"
  by (cases c) (auto simp: merge_cells_def split: list.splits option.splits)

lemma merge_cells_Cons: "\<exists>m rs'. merge_cells bs c rs = (fst c, m) # rs' \<and> set rs' \<subseteq> set rs \<and>
    e_block m = e_block (snd c) \<and> (\<forall>g. shared_name g m \<longleftrightarrow> shared_name g (snd c))"
  by (cases c) (auto simp: merge_cells_def shared_name_def dest: merge_ext_SomeD split: list.splits option.splits)

lemma disjoint_sub: "A \<inter> B = {} \<Longrightarrow> M \<subseteq> B \<Longrightarrow> A \<inter> M = {}"
  by blast

lemma disjoint_insert_sub: "A \<inter> B = {} \<Longrightarrow> c \<notin> A \<Longrightarrow> M \<subseteq> insert c B \<Longrightarrow> A \<inter> M = {}"
  by blast

lemma distinct_queue_cells:
  assumes "distinct (map fst xs)" "fst c \<notin> addrs xs"
  shows "distinct (map fst (queue_cells bs c xs))"
proof -
  let ?P = "\<lambda>d. e_block (snd d) < e_block (snd c)"
  let ?m = "merge_cells bs c (dropWhile ?P xs)"
  have xs: "set (takeWhile ?P xs) \<subseteq> set xs" "set (dropWhile ?P xs) \<subseteq> set xs"
    by (auto dest: set_takeWhileD set_dropWhileD)
  have "distinct (map fst (takeWhile ?P xs @ dropWhile ?P xs))" using assms by simp
  then have t: "distinct (map fst (takeWhile ?P xs))" "distinct (map fst (dropWhile ?P xs))"
    "addrs (takeWhile ?P xs) \<inter> addrs (dropWhile ?P xs) = {}"
    by (simp_all only: map_append distinct_append set_map)
  have nc: "fst c \<notin> addrs (dropWhile ?P xs)" using assms(2) image_mono [OF xs(2), of fst] by blast
  then have m: "addrs ?m \<subseteq> insert (fst c) (addrs (dropWhile ?P xs))" "distinct (map fst ?m)"
    using addrs_merge_cells [of bs c "dropWhile ?P xs"] t(2) by (simp_all add: distinct_merge_cells)
  show ?thesis
  proof (cases "takeWhile ?P xs" rule: rev_cases)
    case Nil
    then have "queue_cells bs c xs = c # dropWhile ?P xs" by (simp add: queue_cells_def)
    then show ?thesis using t(2) nc by simp
  next
    case (snoc ls d)
    have "fst c \<notin> addrs (takeWhile ?P xs)" using assms(2) image_mono [OF xs(1), of fst] by blast
    then have "addrs (takeWhile ?P xs) \<inter> addrs ?m = {}"
      by (rule disjoint_insert_sub [OF t(3) _ m(1)])
    then have "fst d \<notin> addrs ?m" "addrs ls \<inter> addrs ?m = {}" unfolding snoc by auto
    moreover have "fst d \<notin> addrs ls" "distinct (map fst ls)" using t(1) unfolding snoc by simp_all
    ultimately have "distinct (map fst (d # ?m))" "addrs ls \<inter> addrs (d # ?m) = {}" "distinct (map fst ls)"
      using m(2) by simp_all
    moreover from this have "addrs ls \<inter> addrs (merge_cells bs d ?m) = {}"
      by (intro disjoint_sub [OF _ addrs_merge_cells])
    ultimately have "distinct (map fst (ls @ merge_cells bs d ?m))"
      using distinct_merge_cells [of d ?m bs] by simp
    then show ?thesis using snoc by (simp add: queue_cells_def)
  qed
qed

lemma addrs_queue_cells: "addrs (queue_cells bs c xs) \<subseteq> insert (fst c) (addrs xs)"
proof -
  let ?P = "\<lambda>d. e_block (snd d) < e_block (snd c)"
  define m where "m = merge_cells bs c (dropWhile ?P xs)"
  have xs: "addrs xs = addrs (takeWhile ?P xs) \<union> addrs (dropWhile ?P xs)"
    by (simp only: image_Un [symmetric] set_append [symmetric] takeWhile_dropWhile_id)
  have m: "addrs m \<subseteq> insert (fst c) (addrs (dropWhile ?P xs))"
    using addrs_merge_cells [of bs c "dropWhile ?P xs"] by (simp add: m_def)
  show ?thesis
  proof (cases "takeWhile ?P xs" rule: rev_cases)
    case Nil
    then have "queue_cells bs c xs = c # dropWhile ?P xs" by (simp add: queue_cells_def)
    then show ?thesis using xs by simp blast
  next
    case (snoc ls d)
    then have q: "queue_cells bs c xs = ls @ merge_cells bs d m" by (simp add: queue_cells_def m_def)
    have "addrs (merge_cells bs d m) \<subseteq> insert (fst d) (addrs m)" using addrs_merge_cells [of bs d m] by simp
    moreover have "addrs (takeWhile ?P xs) = insert (fst d) (addrs ls)" unfolding snoc by simp
    ultimately show ?thesis using m unfolding q xs set_append image_Un by blast
  qed
qed

text \<open>The search may start at any node of the list that lies before the new block.\<close>

lemma queue_start_run:
  assumes "path (nmap h) xs NULL" "sorted_ext (map snd xs)" "xs \<noteq> []"
    and "p = Some a" "(a, e) \<in> set xs" "distinct (map fst xs)"
    and "e_block e < nb"
  shows "queue_loop nb h p = Ret (Some (fst (last (takeWhile (\<lambda>c. e_block (snd c) < nb) xs))))"
proof -
  obtain xs1 xs2 where xs: "xs = xs1 @ (a, e) # xs2" using assms(5) by (meson split_list)
  have "\<forall>c \<in> set xs1. e_block (snd c) < nb"
    using assms(2,7) by (auto simp: xs sorted_wrt_append)
  then have "takeWhile (\<lambda>c. e_block (snd c) < nb) xs = xs1 @ (a, e) # takeWhile (\<lambda>c. e_block (snd c) < nb) xs2"
    using assms(7) by (simp add: xs takeWhile_append2)
  then show ?thesis using queue_loop_run [of h a e xs2 nb] assms(1,4) by (simp add: xs)
qed

text \<open>
  \<open>queue_bb\<close> runs without fault when \<open>last_used\<close> is null, in the list, or the new node itself (a freed
  address that the allocator returned again).
\<close>

definition last_used_ok :: "backed_block_list \<Rightarrow> cell list \<Rightarrow> addr \<Rightarrow> bool" where
  "last_used_ok bbl xs new \<longleftrightarrow> (case last_used bbl of None \<Rightarrow> True | Some a \<Rightarrow> a \<in> insert new (addrs xs))"

lemma queue_split:
  assumes srt: "sorted_ext (map snd xs)" and fresh: "e_block e \<notin> e_block ` snd ` set xs"
    and hd: "xs \<noteq> []" "e_block (snd (hd xs)) < e_block e"
  obtains ls b f rs where "takeWhile (\<lambda>d. e_block (snd d) < e_block e) xs = ls @ [(b, f)]"
    "dropWhile (\<lambda>d. e_block (snd d) < e_block e) xs = rs" "xs = ls @ (b, f) # rs"
    "e_block f < e_block e" "\<forall>(b, f) \<in> set rs. e_block e < e_block f"
proof -
  let ?P = "\<lambda>d. e_block (snd d) < e_block e"
  have ne: "takeWhile ?P xs \<noteq> []" using hd by (cases xs) auto
  then obtain ls b f where tw: "takeWhile ?P xs = ls @ [(b, f)]" by (metis rev_exhaust surj_pair)
  define rs where "rs = dropWhile ?P xs"
  have xs: "xs = ls @ (b, f) # rs" using takeWhile_dropWhile_id [of ?P xs] tw by (simp add: rs_def)
  have bf: "e_block f < e_block e" using tw set_takeWhileD [of "(b, f)" ?P xs] by simp
  have "\<forall>c \<in> set rs. e_block e < e_block (snd c)"
  proof (cases rs)
    case (Cons c rs')
    then have "\<not> ?P c" unfolding rs_def by (metis hd_dropWhile list.discI list.sel(1))
    moreover have "e_block (snd c) \<noteq> e_block e" using fresh by (force simp: xs Cons)
    ultimately have "e_block e < e_block (snd c)" by simp
    moreover have "\<forall>d \<in> set rs'. e_block (snd c) < e_block (snd d)"
      using srt by (auto simp: xs Cons sorted_wrt_append)
    ultimately show ?thesis by (auto simp: Cons intro: less_trans)
  qed simp
  then show thesis by (intro that [OF tw rs_def [symmetric] xs bf]) auto
qed

lemma queue_start:
  assumes path: "path (nmap h) xs NULL" and new: "nmap h new = Some (mk_bb e NULL)"
    and lu: "last_used_ok bbl xs new"
    and xs: "xs \<noteq> []" "e_block (snd (hd xs)) < e_block e" and db: "data_blocks bbl = first xs NULL"
  obtains a g where "(a, g) \<in> set xs" "e_block g < e_block e"
    "search_start bbl (e_block e) h = Ret (Some a)"
proof -
  obtain a0 e0 xs0 where xs0: "xs = (a0, e0) # xs0" using xs by (metis list.exhaust surj_pair)
  have e0: "(a0, e0) \<in> set xs" "e_block e0 < e_block e" "data_blocks bbl = Some a0"
    using xs db by (simp_all add: xs0)
  show thesis
  proof (cases "last_used bbl")
    case None
    with that [of a0 e0] e0 show ?thesis by (simp add: search_start_def)
  next
    case (Some l)
    then consider "l = new" | g where "(l, g) \<in> set xs" using lu by (auto simp: last_used_ok_def)
    then show ?thesis
    proof cases
      case 1
      with that [of a0 e0] e0 Some new show ?thesis by (simp add: search_start_def)
    next
      case 2
      from path_lookup [OF path this] obtain r where r: "nmap h l = Some (mk_bb g r)" by auto
      show ?thesis
        by (cases "e_block g < e_block e") (use that [of l g] that [of a0 e0] e0 Some r 2 in \<open>auto simp: search_start_def\<close>)
    qed
  qed
qed

lemma link_merge_run:
  assumes path: "path (nmap h) (ls @ (b, f) # rs) NULL" and new: "nmap h new = Some (mk_bb e NULL)"
    and out: "new \<notin> addrs (ls @ (b, f) # rs)" and dist: "distinct (map fst (ls @ (b, f) # rs))"
    and bs: "bbl_block_size bbl \<noteq> 0" and lt: "e_block f < e_block e" "\<forall>(b, g) \<in> set rs. e_block e < e_block g"
    and nm: "\<not> shared_name f e" "\<forall>(b, g) \<in> set rs. \<not> shared_name e g \<and> \<not> shared_name f g"
  obtains r3 r4 h1 h2 h3 h4 where
    "(if first rs NULL = NULL then Ret h else assign (Some new) (bb_next_update (\<lambda>_. first rs NULL)) h) = Ret h1"
    "assign (Some b) (bb_next_update (\<lambda>_. Some new)) h1 = Ret h2"
    "nmap h2 new = Some (mk_bb e (first rs NULL))"
    "merge_bb bbl (Some new) (first rs NULL) h2 = Ret (r3, h3)"
    "merge_bb bbl (Some b) (Some new) h3 = Ret (r4, h4)"
    "path (nmap h4) (ls @ merge_cells (bbl_block_size bbl) (b, f) (merge_cells (bbl_block_size bbl) (new, e) rs)) NULL"
    "names h4 = names h" "\<forall>x. x \<notin> addrs ((b, f) # (new, e) # rs) \<longrightarrow> nmap h4 x = nmap h x"
    "\<forall>x. x \<in> addrs ((b, f) # (new, e) # rs) -
       addrs (merge_cells (bbl_block_size bbl) (b, f) (merge_cells (bbl_block_size bbl) (new, e) rs)) \<longrightarrow> nmap h4 x = None"
proof -
  let ?bs = "bbl_block_size bbl"
  let ?m = "merge_cells ?bs (new, e) rs"
  obtain h1 h2 where h1: "(if first rs NULL = NULL then Ret h
         else assign (Some new) (bb_next_update (\<lambda>_. first rs NULL)) h) = Ret h1"
    and h2: "assign (Some b) (bb_next_update (\<lambda>_. Some new)) h1 = Ret h2"
      "path (nmap h2) (ls @ (b, f) # (new, e) # rs) NULL" "names h2 = names h"
      "\<forall>a. a \<noteq> new \<and> a \<noteq> b \<longrightarrow> nmap h2 a = nmap h a"
    by (rule link_run [OF path new out dist])
  have p2: "path (nmap h2) ((ls @ [(b, f)]) @ (new, e) # rs) NULL" using h2(2) by simp
  have d2: "distinct (map fst ((ls @ [(b, f)]) @ (new, e) # rs))" using dist out by (auto simp: image_iff)
  have "\<forall>(b, g) \<in> set rs. e_block e < e_block g \<and> \<not> shared_name e g" using lt nm by auto
  then obtain r3 h3 where h3: "merge_bb bbl (Some new) (first rs NULL) h2 = Ret (r3, h3)"
    "path (nmap h3) ((ls @ [(b, f)]) @ ?m) NULL" "names h3 = names h2"
    "\<forall>x. x \<notin> addrs ((new, e) # rs) \<longrightarrow> nmap h3 x = nmap h2 x"
    "\<forall>x. x \<in> addrs ((new, e) # rs) - addrs ?m \<longrightarrow> nmap h3 x = None"
    by (rule merge_step [OF p2 d2 bs])
  obtain m rs' where m: "?m = (new, m) # rs'" "set rs' \<subseteq> set rs" "e_block m = e_block e"
    "\<forall>g. shared_name g m \<longleftrightarrow> shared_name g e"
    using merge_cells_Cons [of ?bs "(new, e)" rs] by auto
  have sub: "addrs ?m \<subseteq> addrs ((new, e) # rs)" by (rule addrs_merge_cells)
  have p3: "path (nmap h3) (ls @ (b, f) # ?m) NULL" using h3(2) by simp
  have "addrs (ls @ [(b, f)]) \<inter> addrs ((new, e) # rs) = {}"
    using d2 by (simp only: map_append distinct_append set_map set_append image_Un)
  then have "addrs (ls @ [(b, f)]) \<inter> addrs ?m = {}" using sub by blast
  moreover have "distinct (map fst ?m)" using d2 by (intro distinct_merge_cells) simp
  ultimately have "distinct (map fst ((ls @ [(b, f)]) @ ?m))" 
    using d2 by (simp only: map_append distinct_append set_map set_append image_Un)
  then have d3: "distinct (map fst (ls @ (b, f) # ?m))" by simp
  have "\<forall>(b, g) \<in> set ?m. e_block f < e_block g \<and> \<not> shared_name f g"
  proof -
    have "\<not> shared_name f m" using m(4) nm(1) by blast
    moreover have "\<forall>(b, g) \<in> set rs'. e_block f < e_block g \<and> \<not> shared_name f g"
      using m(2) lt nm(2) less_trans [OF lt(1)] by fast
    ultimately show ?thesis using m(1,3) lt(1) by simp
  qed
  then obtain r4 h4 where h4: "merge_bb bbl (Some b) (first ?m NULL) h3 = Ret (r4, h4)"
    "path (nmap h4) (ls @ merge_cells ?bs (b, f) ?m) NULL" "names h4 = names h3"
    "\<forall>x. x \<notin> addrs ((b, f) # ?m) \<longrightarrow> nmap h4 x = nmap h3 x"
    "\<forall>x. x \<in> addrs ((b, f) # ?m) - addrs (merge_cells ?bs (b, f) ?m) \<longrightarrow> nmap h4 x = None"
    by (rule merge_step [OF p3 d3 bs])
  have dead: "nmap h4 x = None" if x: "x \<in> addrs ((b, f) # (new, e) # rs) - addrs (merge_cells ?bs (b, f) ?m)" for x
  proof (cases "x \<in> addrs ((b, f) # ?m)")
    case True
    with h4(5) [THEN spec, of x] x show ?thesis by (simp only: simp_thms Diff_iff)
  next
    case False
    then have "x \<in> addrs ((new, e) # rs) - addrs ?m" using x by auto
    then have "nmap h3 x = None" using h3(5) by (simp only: simp_thms)
    with h4(4) [THEN spec, of x] False show ?thesis by (simp only: simp_thms)
  qed
  show thesis
  proof (rule that [OF h1 h2(1) _ h3(1) _ h4(2)])
    show "nmap h2 new = Some (mk_bb e (first rs NULL))" using p2 by simp
    show "merge_bb bbl (Some b) (Some new) h3 = Ret (r4, h4)" using h4(1) by (simp add: m)
    show "names h4 = names h" using h4(3) h3(3) h2(3) by simp
    show "\<forall>x. x \<notin> addrs ((b, f) # (new, e) # rs) \<longrightarrow> nmap h4 x = nmap h x"
    proof (intro allI impI)
      fix x
      assume x: "x \<notin> addrs ((b, f) # (new, e) # rs)"
      then have "x \<notin> addrs ((b, f) # ?m)" "x \<notin> addrs ((new, e) # rs)" "x \<noteq> new \<and> x \<noteq> b" using sub by auto
      then show "nmap h4 x = nmap h x" using h4(4) h3(4) h2(4) by (simp only: simp_thms)
    qed
    show "\<forall>x. x \<in> addrs ((b, f) # (new, e) # rs) - addrs (merge_cells ?bs (b, f) ?m) \<longrightarrow> nmap h4 x = None"
      using dead by simp
  qed
qed

lemma queue_bb_run:
  assumes list: "bb_list h bbl xs" and new: "nmap h new = Some (mk_bb e NULL)" "new \<notin> addrs xs"
    and srt: "sorted_ext (map snd xs)" and fresh: "e_block e \<notin> e_block ` snd ` set xs"
    and bs: "bbl_block_size bbl \<noteq> 0" and lu: "last_used_ok bbl xs new"
    and nm: "\<forall>f \<in> snd ` set xs. \<not> shared_name f e" "sorted_wrt (\<lambda>e f. \<not> shared_name e f) (map snd xs)"
  obtains bbl' h' where "queue_bb bbl (Some new) h = Ret (0, bbl', h')"
    "bb_list h' bbl' (queue_cells (bbl_block_size bbl) (new, e) xs)" "names h' = names h"
    "\<forall>x. x \<notin> insert new (addrs xs) \<longrightarrow> nmap h' x = nmap h x"
    "\<forall>x. x \<in> insert new (addrs xs) - addrs (queue_cells (bbl_block_size bbl) (new, e) xs) \<longrightarrow> nmap h' x = None"
    "bbl_block_size bbl' = bbl_block_size bbl"
    "last_used bbl' = (if xs = [] \<or> e_block e < e_block (snd (hd xs)) then last_used bbl else Some new)"
proof (cases xs)
  case Nil
  then show thesis using list new
    by (intro that [where h' = h and bbl' = "bbl\<lparr>data_blocks := Some new\<rparr>"])
      (auto simp: queue_bb_def bb_list_def queue_cells_def)
next
  case (Cons c xs0)
  obtain a0 e0 where c: "c = (a0, e0)" by (cases c)
  have path: "path (nmap h) xs NULL" and dist: "distinct (map fst xs)" and db: "data_blocks bbl = Some a0"
    using list by (simp_all add: bb_list_def Cons c)
  have n0: "nmap h a0 = Some (mk_bb e0 (first xs0 NULL))" using path by (simp add: Cons c)
  show thesis
  proof (cases "e_block e < e_block e0")
    case True
    then have "\<not> e_block e0 < e_block e" by simp
    then show thesis using list new True n0
      by (intro that [where h' = "upd new (mk_bb e (Some a0)) h" and bbl' = "bbl\<lparr>data_blocks := Some new\<rparr>"])
        (auto simp: queue_bb_def bb_list_def queue_cells_def Cons c assign_run image_iff)
  next
    case False
    then have "e_block e0 < e_block e" using fresh by (auto simp: Cons c)
    then have hd: "xs \<noteq> []" "e_block (snd (hd xs)) < e_block e" by (simp_all add: Cons c)
    obtain ls b f rs where s: "takeWhile (\<lambda>d. e_block (snd d) < e_block e) xs = ls @ [(b, f)]"
      "dropWhile (\<lambda>d. e_block (snd d) < e_block e) xs = rs" "xs = ls @ (b, f) # rs"
      "e_block f < e_block e" "\<forall>(b, f) \<in> set rs. e_block e < e_block f"
      by (rule queue_split [OF srt fresh hd])
    obtain a g where st: "(a, g) \<in> set xs" "e_block g < e_block e"
      "search_start bbl (e_block e) h = Ret (Some a)"
      by (rule queue_start [OF path new(1) lu hd]) (simp_all add: db Cons c)
    have loop: "queue_loop (e_block e) h (Some a) = Ret (Some b)"
      using queue_start_run [OF path srt hd(1) refl st(1) dist st(2)] by (simp add: s(1))
    have nb: "nmap h b = Some (mk_bb f (first rs NULL))" using path by (simp add: s(3))
    let ?bbl = "bbl\<lparr>last_used := Some new\<rparr>"
    have sn: "\<not> shared_name f e" "\<forall>(b, g) \<in> set rs. \<not> shared_name e g \<and> \<not> shared_name f g"
      using nm by (auto simp: s(3) sorted_wrt_append shared_name_sym [of e] dest!: bspec [of _ _ "(_, _)"])
    have bs': "bbl_block_size ?bbl \<noteq> 0" using bs by simp
    obtain r3 r4 h1 h2 h3 h4 where r:
      "(if first rs NULL = NULL then Ret h else assign (Some new) (bb_next_update (\<lambda>_. first rs NULL)) h) = Ret h1"
      "assign (Some b) (bb_next_update (\<lambda>_. Some new)) h1 = Ret h2"
      "nmap h2 new = Some (mk_bb e (first rs NULL))"
      "merge_bb ?bbl (Some new) (first rs NULL) h2 = Ret (r3, h3)"
      "merge_bb ?bbl (Some b) (Some new) h3 = Ret (r4, h4)"
      "path (nmap h4) (ls @ merge_cells (bbl_block_size ?bbl) (b, f) (merge_cells (bbl_block_size ?bbl) (new, e) rs)) NULL"
      "names h4 = names h" "\<forall>x. x \<notin> addrs ((b, f) # (new, e) # rs) \<longrightarrow> nmap h4 x = nmap h x"
      "\<forall>x. x \<in> addrs ((b, f) # (new, e) # rs) -
         addrs (merge_cells (bbl_block_size ?bbl) (b, f) (merge_cells (bbl_block_size ?bbl) (new, e) rs)) \<longrightarrow> nmap h4 x = None"
      by (rule link_merge_run [OF path [unfolded s(3)] new(1) new(2) [unfolded s(3)] dist [unfolded s(3)] bs' s(4,5) sn])
    have q: "queue_cells (bbl_block_size bbl) (new, e) xs =
        ls @ merge_cells (bbl_block_size bbl) (b, f) (merge_cells (bbl_block_size bbl) (new, e) rs)"
      using s(1,2) by (simp add: queue_cells_def)
    have run: "queue_bb bbl (Some new) h = Ret (0, ?bbl, h4)"
      using False st(3) loop nb r(1-5) new(1) n0 by (cases "rs = []") (simp_all add: queue_bb_def db Let_def)
    have d: "distinct (map fst (queue_cells (bbl_block_size bbl) (new, e) xs))"
      by (rule distinct_queue_cells [OF dist]) (simp add: new(2))
    have fst: "first (queue_cells (bbl_block_size bbl) (new, e) xs) NULL = Some a0"
      unfolding q using s(3) by (cases ls) (auto simp: fst_merge_cells Cons c)
    show thesis
    proof (rule that [OF run])
      show "bb_list h4 ?bbl (queue_cells (bbl_block_size bbl) (new, e) xs)"
        using r(6) d fst db unfolding bb_list_def q by simp
      show "names h4 = names h" "bbl_block_size ?bbl = bbl_block_size bbl" using r(7) by simp_all
      show "\<forall>x. x \<notin> insert new (addrs xs) \<longrightarrow> nmap h4 x = nmap h x"
        using r(8) unfolding s(3) by (simp add: image_Un)
      show "\<forall>x. x \<in> insert new (addrs xs) - addrs (queue_cells (bbl_block_size bbl) (new, e) xs) \<longrightarrow> nmap h4 x = None"
        using r(9) [unfolded bbl_sel] unfolding q unfolding s(3) set_append image_Un by simp metis
      show "last_used ?bbl = (if xs = [] \<or> e_block e < e_block (snd (hd xs)) then last_used bbl else Some new)"
        using False by (simp add: Cons c)
    qed
  qed
qed

section \<open>The image a list stands for\<close>

text \<open>
  A list of extents maps block numbers to pieces of backing store, a piece being a backing with the
  number of its bytes that belong to the block. The last block of an extent may be partial.
\<close>

type_synonym piece = "backing \<times> nat"

definition nblocks :: "u32 \<Rightarrow> extent \<Rightarrow> nat" where
  "nblocks bs e = (unat (e_len e) + unat bs - 1) div unat bs"

definition piece_of :: "u32 \<Rightarrow> extent \<Rightarrow> nat \<Rightarrow> piece" where
  "piece_of bs e k =
     (advance_backing (of_nat (k * unat bs)) (e_backing e), min (unat bs) (unat (e_len e) - k * unat bs))"

definition ext_image :: "u32 \<Rightarrow> extent \<Rightarrow> nat \<rightharpoonup> piece" where
  "ext_image bs e n =
     (if unat (e_block e) \<le> n \<and> n < unat (e_block e) + nblocks bs e
      then Some (piece_of bs e (n - unat (e_block e))) else None)"

fun image_of :: "u32 \<Rightarrow> extent list \<Rightarrow> nat \<rightharpoonup> piece" where
  "image_of bs [] = Map.empty"
| "image_of bs (e # es) = ext_image bs e ++ image_of bs es"

definition before :: "u32 \<Rightarrow> extent \<Rightarrow> extent \<Rightarrow> bool" where
  "before bs a b \<longleftrightarrow> unat (e_block a) + nblocks bs a \<le> unat (e_block b)"

text \<open>Extents are not empty and end below four gigabytes, and a list holds them in order without overlap.\<close>

definition ext_ok :: "u32 \<Rightarrow> extent \<Rightarrow> bool" where
  "ext_ok bs e \<longleftrightarrow> 0 < unat (e_len e) \<and> unat (e_block e) * unat bs + unat (e_len e) < 2 ^ 32"

definition exts_ok :: "u32 \<Rightarrow> extent list \<Rightarrow> bool" where
  "exts_ok bs es \<longleftrightarrow> sorted_wrt (before bs) es \<and> (\<forall>e \<in> set es. ext_ok bs e)"

lemma image_of_append: "image_of bs (xs @ ys) = image_of bs xs ++ image_of bs ys"
  by (induction xs) auto

lemma div_round_up_bounds:
  assumes "0 < (b :: nat)"
  shows "n \<le> (n + b - 1) div b * b" "(n + b - 1) div b * b < n + b" "k < (n + b - 1) div b \<longleftrightarrow> k * b < n"
proof -
  have a: "(n + b - 1) div b * b + (n + b - 1) mod b = n + b - 1" by (rule div_mult_mod_eq)
  have m: "(n + b - 1) mod b < b" using assms by simp
  show "n \<le> (n + b - 1) div b * b" "(n + b - 1) div b * b < n + b" using a m assms by linarith+
  show "k < (n + b - 1) div b \<longleftrightarrow> k * b < n"
    using assms by (simp add: less_eq_div_iff_mult_less_eq Suc_le_eq [symmetric] add.commute) linarith
qed

lemma nblocks_pos: "bs \<noteq> 0 \<Longrightarrow> ext_ok bs e \<Longrightarrow> 0 < nblocks bs e"
  using div_round_up_bounds(3) [of "unat bs" 0 "unat (e_len e)"] by (simp add: nblocks_def ext_ok_def unat_gt_0)

lemma before_less: "bs \<noteq> 0 \<Longrightarrow> ext_ok bs a \<Longrightarrow> before bs a b \<Longrightarrow> e_block a < e_block b"
  using nblocks_pos [of bs a] by (simp add: before_def word_less_nat_alt)

lemma before_bytes:
  assumes "bs \<noteq> 0" "before bs a b"
  shows "unat (e_block a) * unat bs + unat (e_len a) \<le> unat (e_block b) * unat bs"
proof -
  have "unat (e_len a) \<le> nblocks bs a * unat bs"
    unfolding nblocks_def by (rule div_round_up_bounds(1)) (use assms in \<open>simp add: unat_gt_0\<close>)
  moreover have "(unat (e_block a) + nblocks bs a) * unat bs \<le> unat (e_block b) * unat bs"
    using assms by (intro mult_right_mono) (simp_all add: before_def)
  ultimately show ?thesis by (simp add: distrib_right)
qed

lemma before_sorted: "bs \<noteq> 0 \<Longrightarrow> exts_ok bs es \<Longrightarrow> sorted_ext es"
  by (induction es) (auto simp: exts_ok_def before_less)

lemma dom_ext_image: "dom (ext_image bs e) = {unat (e_block e) ..< unat (e_block e) + nblocks bs e}"
  by (auto simp: ext_image_def dom_def)

lemma dom_image_of: "dom (image_of bs es) = (\<Union>e \<in> set es. dom (ext_image bs e))"
  by (induction es) auto

lemma before_disjoint: "before bs a b \<Longrightarrow> dom (ext_image bs a) \<inter> dom (ext_image bs b) = {}"
  by (auto simp: dom_ext_image before_def)

lemma merge_ext_aligned:
  assumes "bs \<noteq> 0" "before bs a b" "merge_ext bs a b = Some m" "ext_ok bs b"
  shows "unat (e_len a) = nblocks bs a * unat bs" "unat (e_block b) = unat (e_block a) + nblocks bs a"
    "unat (e_len m) = unat (e_len a) + unat (e_len b)" "nblocks bs m = nblocks bs a + nblocks bs b"
proof -
  have b0: "0 < unat bs" using assms(1) by (simp add: unat_gt_0)
  have m: "m = a\<lparr>e_len := e_len a + e_len b\<rparr>" "e_block a + e_len a div bs = e_block b"
    using merge_ext_SomeD [OF assms(3)] by auto
  have fl: "unat (e_len a div bs) = unat (e_len a) div unat bs" by (rule unat_div)
  have le: "unat (e_len a) div unat bs \<le> nblocks bs a" unfolding nblocks_def by (rule div_le_mono) (use b0 in simp)
  have "unat (e_block a) + unat (e_len a) div unat bs < 2 ^ 32"
    using assms(2) le unat_less_u32 [of "e_block b"] by (simp add: before_def)
  then have blk: "unat (e_block b) = unat (e_block a) + unat (e_len a) div unat bs"
    using m(2) fl unat_add_u32 [of "e_block a" "e_len a div bs"] by simp
  then have eq: "nblocks bs a = unat (e_len a) div unat bs" using assms(2) le by (simp add: before_def)
  show al: "unat (e_len a) = nblocks bs a * unat bs"
    using div_round_up_bounds(1) [OF b0, of "unat (e_len a)"] eq
    by (metis div_times_less_eq_dividend le_antisym nblocks_def)
  show "unat (e_block b) = unat (e_block a) + nblocks bs a" using blk eq by simp
  have "unat (e_len a) + unat (e_len b) < 2 ^ 32"
    using before_bytes [OF assms(1,2)] assms(4) by (simp add: ext_ok_def)
  then show len: "unat (e_len m) = unat (e_len a) + unat (e_len b)" by (simp add: m unat_add_u32)
  have "(nblocks bs a * unat bs + unat (e_len b) + unat bs - 1) div unat bs =
      (nblocks bs a * unat bs + (unat (e_len b) + unat bs - 1)) div unat bs"
    using b0 by (intro arg_cong [where f = "\<lambda>x. x div unat bs"]) simp
  also have "\<dots> = nblocks bs a + nblocks bs b" unfolding nblocks_def [of bs b] by (rule div_mult_self3) (use b0 in simp)
  finally show "nblocks bs m = nblocks bs a + nblocks bs b"
    unfolding nblocks_def [of bs m] len by (simp add: al add.assoc)
qed

lemma advance_compatible:
  assumes "merge_compatible l a b" "unat l \<le> n" "n < 2 ^ 32"
  shows "advance_backing (of_nat n) a = advance_backing (of_nat (n - unat l)) b"
proof -
  have u: "(ucast (of_nat k :: u32) :: i64) = of_nat k" if "k < 2 ^ 32" for k
    using that by (simp add: unsigned_of_nat take_bit_nat_eq_self)
  have "(ucast l :: i64) = of_nat (unat l)" using u [OF unat_less_u32 [of l]] by simp
  then have "(ucast (of_nat n :: u32) :: i64) = ucast l + ucast (of_nat (n - unat l) :: u32)"
    using assms(2,3) u [of n] u [of "n - unat l"] by (simp flip: of_nat_add)
  then show ?thesis using assms(1) by (cases "(l, a, b)" rule: merge_compatible.cases) auto
qed

text \<open>Two extents one after the other, the first a whole number of blocks, make up one.\<close>

lemma join_image:
  assumes "bs \<noteq> 0" and m: "e_block m = e_block a" "e_backing m = e_backing a"
    and al: "unat (e_len a) = nblocks bs a * unat bs" "unat (e_block b) = unat (e_block a) + nblocks bs a"
      "unat (e_len m) = unat (e_len a) + unat (e_len b)" "nblocks bs m = nblocks bs a + nblocks bs b"
    and adv: "\<And>k. k < unat (e_len b) \<Longrightarrow>
      advance_backing (of_nat (unat (e_len a) + k)) (e_backing a) = advance_backing (of_nat k) (e_backing b)"
  shows "ext_image bs m = ext_image bs a ++ ext_image bs b"
proof
  fix n
  have b0: "0 < unat bs" using assms(1) by (simp add: unat_gt_0)
  have low: "piece_of bs m k = piece_of bs a k" if "k < nblocks bs a" for k
  proof -
    have "Suc k * unat bs \<le> nblocks bs a * unat bs" using that by (intro mult_right_mono) simp_all
    then have "k * unat bs + unat bs \<le> unat (e_len a)" using al(1) by simp
    then show ?thesis by (simp add: piece_of_def m al(3))
  qed
  have high: "piece_of bs m (nblocks bs a + k) = piece_of bs b k" if "k < nblocks bs b" for k
  proof -
    have "k * unat bs < unat (e_len b)" using that div_round_up_bounds(3) [OF b0] by (simp add: nblocks_def)
    from adv [OF this] show ?thesis by (simp add: piece_of_def m al(3) distrib_right flip: al(1))
  qed
  consider "n < unat (e_block a)" | k where "n = unat (e_block a) + k" "k < nblocks bs a"
    | k where "n = unat (e_block a) + (nblocks bs a + k)" "k < nblocks bs b"
    | "unat (e_block a) + (nblocks bs a + nblocks bs b) \<le> n"
    by (metis add_less_cancel_left le_Suc_ex linorder_not_le)
  then show "ext_image bs m n = (ext_image bs a ++ ext_image bs b) n"
    by cases (simp_all add: ext_image_def map_add_def al(2,4) m low high)
qed

lemma merge_ext_image:
  assumes "bs \<noteq> 0" "before bs a b" "merge_ext bs a b = Some m" "ext_ok bs a" "ext_ok bs b"
  shows "ext_image bs m = ext_image bs a ++ ext_image bs b"
proof (rule join_image [OF assms(1) _ _ merge_ext_aligned [OF assms(1-3,5)]])
  have m: "e_block m = e_block a" "e_backing m = e_backing a"
      "merge_compatible (e_len a) (e_backing a) (e_backing b)"
    using merge_ext_SomeD [OF assms(3)] by auto
  then show "e_block m = e_block a" "e_backing m = e_backing a" by simp_all
  fix k
  assume "k < unat (e_len b)"
  then have "unat (e_len a) + k < 2 ^ 32" using before_bytes [OF assms(1,2)] assms(5) by (simp add: ext_ok_def)
  then show "advance_backing (of_nat (unat (e_len a) + k)) (e_backing a) = advance_backing (of_nat k) (e_backing b)"
    using advance_compatible [OF m(3), of "unat (e_len a) + k"] by simp
qed

lemma merge_ext_ok:
  assumes "bs \<noteq> 0" "before bs a b" "merge_ext bs a b = Some m" "ext_ok bs a" "ext_ok bs b"
  shows "ext_ok bs m"
  using merge_ext_aligned [OF assms(1-3,5)] assms(4,5) merge_ext_SomeD [OF assms(3)]
  by (simp add: ext_ok_def distrib_right)

lemma merge_right_image:
  assumes "bs \<noteq> 0" "exts_ok bs (ls @ e # rs)"
  shows "exts_ok bs (ls @ merge_right bs e rs) \<and> image_of bs (merge_right bs e rs) = image_of bs (e # rs)"
proof (cases rs)
  case Nil
  then show ?thesis using assms by (simp add: merge_right_def)
next
  case (Cons r rs')
  show ?thesis
  proof (cases "merge_ext bs e r")
    case None
    then show ?thesis using assms by (simp add: merge_right_def Cons)
  next
    case (Some m)
    have ok: "before bs e r" "ext_ok bs e" "ext_ok bs r" using assms(2) by (auto simp: exts_ok_def Cons sorted_wrt_append)
    note al = merge_ext_aligned [OF assms(1) ok(1) Some ok(3)]
    have blk: "e_block m = e_block e" using merge_ext_SomeD [OF Some] by simp
    have "before bs m x" if "before bs r x" for x using that al(2,4) by (simp add: before_def blk)
    moreover have "before bs x m" if "before bs x e" for x using that by (simp add: before_def blk)
    ultimately have "exts_ok bs (ls @ m # rs')"
      using assms(2) merge_ext_ok [OF assms(1) ok(1) Some ok(2,3)] by (auto simp: exts_ok_def Cons sorted_wrt_append)
    then show ?thesis
      using merge_ext_image [OF assms(1) ok(1) Some ok(2,3)] by (simp add: merge_right_def Cons Some)
  qed
qed

lemma queue_spec_split:
  assumes "bs \<noteq> 0" "exts_ok bs es" "ext_ok bs e" "\<forall>f \<in> set es. before bs f e \<or> before bs e f"
  defines "ls \<equiv> takeWhile (\<lambda>f. e_block f < e_block e) es" and "rs \<equiv> dropWhile (\<lambda>f. e_block f < e_block e) es"
  shows "es = ls @ rs" "exts_ok bs (ls @ e # rs)"
proof -
  show es: "es = ls @ rs" by (simp add: ls_def rs_def)
  have ls: "before bs f e" if "f \<in> set ls" for f
  proof -
    have "f \<in> set es" "e_block f < e_block e" using that unfolding ls_def by (auto dest: set_takeWhileD)
    then show ?thesis using assms(4) before_less [OF assms(1,3), of f] by auto
  qed
  have rs: "before bs e f" if f: "f \<in> set rs" for f
  proof -
    have "rs \<noteq> []" using f by auto
    then have "\<not> e_block (hd rs) < e_block e" unfolding rs_def by (rule hd_dropWhile)
    moreover have "f = hd rs \<or> e_block (hd rs) < e_block f"
      using before_sorted [OF assms(1,2)] f unfolding es by (cases rs) (auto simp: sorted_wrt_append)
    ultimately have "\<not> e_block f < e_block e" by auto
    moreover have "ext_ok bs f" "before bs f e \<or> before bs e f"
      using f assms(2,4) unfolding es by (auto simp: exts_ok_def)
    ultimately show ?thesis using before_less [OF assms(1)] by blast
  qed
  show "exts_ok bs (ls @ e # rs)"
    using assms(2,3) ls rs unfolding es exts_ok_def by (auto simp: sorted_wrt_append)
qed

lemma queue_spec_image:
  assumes "bs \<noteq> 0" "exts_ok bs es" "ext_ok bs e" "\<forall>f \<in> set es. before bs f e \<or> before bs e f"
  shows "exts_ok bs (queue_spec bs e es) \<and> image_of bs (queue_spec bs e es) = image_of bs es ++ ext_image bs e"
proof -
  define ls where "ls = takeWhile (\<lambda>f. e_block f < e_block e) es"
  define rs where "rs = dropWhile (\<lambda>f. e_block f < e_block e) es"
  have es: "es = ls @ rs" and ok: "exts_ok bs (ls @ e # rs)"
    unfolding ls_def rs_def by (rule queue_spec_split [OF assms])+
  have "dom (ext_image bs e) \<inter> dom (image_of bs rs) = {}"
    using ok before_disjoint [of bs e] by (auto simp: dom_image_of exts_ok_def sorted_wrt_append)
  then have com: "ext_image bs e ++ image_of bs rs = image_of bs rs ++ ext_image bs e" by (rule map_add_comm)
  have q: "queue_spec bs e es = (if ls = [] then e # rs
      else butlast ls @ (case merge_right bs e rs of m # rs' \<Rightarrow> merge_right bs (last ls) (m # rs')))"
    by (simp only: queue_spec_def Let_def ls_def rs_def)
  have im: "image_of bs (ls @ e # rs) = image_of bs es ++ ext_image bs e"
    unfolding es by (simp add: image_of_append com)
  show ?thesis
  proof (cases ls rule: rev_cases)
    case Nil
    then show ?thesis using ok im q by simp
  next
    case (snoc ls' l)
    obtain m rs' where m: "merge_right bs e rs = m # rs'" using merge_right_ne by (meson neq_Nil_conv)
    have r1: "exts_ok bs (ls' @ l # m # rs') \<and> image_of bs (m # rs') = image_of bs (e # rs)"
      using merge_right_image [OF assms(1) ok] by (simp add: m snoc)
    then have r2: "exts_ok bs (ls' @ merge_right bs l (m # rs')) \<and>
        image_of bs (merge_right bs l (m # rs')) = image_of bs (l # m # rs')"
      using merge_right_image [OF assms(1), of ls' l "m # rs'"] by blast
    have "image_of bs (queue_spec bs e es) = image_of bs (ls @ e # rs)"
      using r1 r2 by (simp add: q snoc m image_of_append)
    then show ?thesis using r2 im by (simp add: q snoc m)
  qed
qed

section \<open>The invariant of a block list\<close>

abbreviation unshared :: "extent list \<Rightarrow> bool" where
  "unshared \<equiv> sorted_wrt (\<lambda>e f. \<not> shared_name e f)"

definition names_ok :: "bb_heap \<Rightarrow> extent \<Rightarrow> bool" where
  "names_ok h e \<longleftrightarrow> (\<forall>n off. e_backing e = BB_File (Some n) off \<longrightarrow> n \<in> dom (map_of (names h)))"

definition bbl_inv :: "bb_heap \<Rightarrow> backed_block_list \<Rightarrow> cell list \<Rightarrow> bool" where
  "bbl_inv h bbl xs \<longleftrightarrow> bb_list h bbl xs \<and> bbl_block_size bbl \<noteq> 0 \<and>
     exts_ok (bbl_block_size bbl) (map snd xs) \<and> unshared (map snd xs) \<and> (\<forall>e \<in> snd ` set xs. names_ok h e)"

lemma merge_right_unshared:
  assumes "unshared (ls @ e # rs)"
  shows "unshared (ls @ merge_right bs e rs)"
proof -
  have "shared_name m x = shared_name e x" "shared_name x m = shared_name x e"
    if "merge_ext bs e r = Some m" for m r x
    using merge_ext_SomeD [OF that] by (simp_all add: shared_name_def)
  then show ?thesis
    using assms by (auto simp: merge_right_def sorted_wrt_append split: list.splits option.splits)
qed

lemma queue_spec_unshared:
  assumes "unshared es" "\<forall>f \<in> set es. \<not> shared_name f e"
  shows "unshared (queue_spec bs e es)"
proof -
  define ls where "ls = takeWhile (\<lambda>f. e_block f < e_block e) es"
  define rs where "rs = dropWhile (\<lambda>f. e_block f < e_block e) es"
  have q: "queue_spec bs e es = (if ls = [] then e # rs
      else butlast ls @ (case merge_right bs e rs of m # rs' \<Rightarrow> merge_right bs (last ls) (m # rs')))"
    by (simp only: queue_spec_def Let_def ls_def rs_def)
  have es: "es = ls @ rs" by (simp add: ls_def rs_def)
  have "\<forall>f \<in> set rs. \<not> shared_name e f" using assms(2) unfolding es by (auto simp: shared_name_sym [of e])
  then have ins: "unshared (ls @ e # rs)" using assms unfolding es by (auto simp: sorted_wrt_append)
  show ?thesis
  proof (cases ls rule: rev_cases)
    case Nil
    then show ?thesis using ins q by simp
  next
    case (snoc ls' l)
    obtain m rs' where m: "merge_right bs e rs = m # rs'" using merge_right_ne by (meson neq_Nil_conv)
    have "unshared (ls' @ l # m # rs')" using merge_right_unshared [OF ins, of bs] by (simp add: m snoc)
    then show ?thesis using merge_right_unshared [of ls' l "m # rs'" bs] by (simp add: q snoc m)
  qed
qed

lemma merge_right_backing: "f \<in> set (merge_right bs e rs) \<Longrightarrow> \<exists>g \<in> set (e # rs). e_backing f = e_backing g"
  by (auto simp: merge_right_def dest: merge_ext_SomeD split: list.splits option.splits)

lemma queue_spec_backing:
  assumes "f \<in> set (queue_spec bs e es)"
  shows "\<exists>g \<in> insert e (set es). e_backing f = e_backing g"
proof -
  define ls where "ls = takeWhile (\<lambda>f. e_block f < e_block e) es"
  define rs where "rs = dropWhile (\<lambda>f. e_block f < e_block e) es"
  have q: "queue_spec bs e es = (if ls = [] then e # rs
      else butlast ls @ (case merge_right bs e rs of m # rs' \<Rightarrow> merge_right bs (last ls) (m # rs')))"
    by (simp only: queue_spec_def Let_def ls_def rs_def)
  have es: "set es = set ls \<union> set rs" by (simp only: ls_def rs_def set_append [symmetric] takeWhile_dropWhile_id)
  show ?thesis
  proof (cases ls rule: rev_cases)
    case Nil
    then show ?thesis using assms by (auto simp: q es)
  next
    case (snoc ls' l)
    obtain m rs' where m: "merge_right bs e rs = m # rs'" using merge_right_ne by (meson neq_Nil_conv)
    have "f \<in> set ls' \<or> f \<in> set (merge_right bs l (m # rs'))" using assms by (simp add: q snoc m)
    then obtain g where g: "e_backing f = e_backing g" "g \<in> set (ls' @ [l]) \<or> g \<in> set (m # rs')"
      using merge_right_backing [of f bs l "m # rs'"] by auto
    then have "\<exists>g'. e_backing g = e_backing g' \<and> (g' \<in> set (ls' @ [l]) \<or> g' \<in> set (e # rs))"
      using merge_right_backing [of g bs e rs] unfolding m by blast
    then show ?thesis using g(1) by (auto simp: es snoc)
  qed
qed

lemma add_run:
  assumes inv: "bbl_inv h bbl xs" and a: "a \<notin> addrs xs" and lu: "last_used_ok bbl xs a"
    and e: "ext_ok (bbl_block_size bbl) e" "\<forall>f \<in> snd ` set xs. before (bbl_block_size bbl) f e \<or> before (bbl_block_size bbl) e f"
    and nm: "\<forall>f \<in> snd ` set xs. \<not> shared_name f e" "names_ok h e"
  obtains bbl' h' xs' where "queue_bb bbl (Some a) (new_node a (mk_bb e NULL) h) = Ret (0, bbl', h')"
    "bbl_inv h' bbl' xs'" "map snd xs' = queue_spec (bbl_block_size bbl) e (map snd xs)"
    "image_of (bbl_block_size bbl) (map snd xs') = image_of (bbl_block_size bbl) (map snd xs) ++ ext_image (bbl_block_size bbl) e"
    "addrs xs' \<subseteq> insert a (addrs xs)" "names h' = names h" "bbl_block_size bbl' = bbl_block_size bbl"
    "\<forall>x. x \<notin> insert a (addrs xs) \<longrightarrow> nmap h' x = nmap h x"
    "\<forall>x. x \<in> insert a (addrs xs) - addrs xs' \<longrightarrow> nmap h' x = None"
    "last_used bbl' = (if xs = [] \<or> e_block e < e_block (snd (hd xs)) then last_used bbl else Some a)"
    "xs' = queue_cells (bbl_block_size bbl) (a, e) xs"
proof -
  let ?h = "new_node a (mk_bb e NULL) h"
  let ?bs = "bbl_block_size bbl"
  have bs: "?bs \<noteq> 0" and ok: "exts_ok ?bs (map snd xs)" and un: "unshared (map snd xs)"
    and names: "\<forall>e \<in> snd ` set xs. names_ok h e" and bb: "bb_list h bbl xs"
    using inv by (auto simp: bbl_inv_def)
  have l: "bb_list ?h bbl xs" using bb a by (simp add: bb_list_def new_node_upd)
  have new: "nmap ?h a = Some (mk_bb e NULL)" by (simp add: new_node_upd)
  have fresh: "e_block e \<notin> e_block ` snd ` set xs"
  proof
    assume "e_block e \<in> e_block ` snd ` set xs"
    then obtain f where f: "f \<in> snd ` set xs" "e_block e = e_block f" by (rule imageE)
    then have "ext_ok ?bs f" using ok by (auto simp: exts_ok_def)
    then show False using e(1) bspec [OF e(2) f(1)] f(2) before_less [OF bs, of e f] before_less [OF bs, of f e] by auto
  qed
  obtain bbl' h' where r: "queue_bb bbl (Some a) ?h = Ret (0, bbl', h')"
    "bb_list h' bbl' (queue_cells ?bs (a, e) xs)" "names h' = names ?h"
    "\<forall>x. x \<notin> insert a (addrs xs) \<longrightarrow> nmap h' x = nmap ?h x"
    "\<forall>x. x \<in> insert a (addrs xs) - addrs (queue_cells ?bs (a, e) xs) \<longrightarrow> nmap h' x = None"
    "bbl_block_size bbl' = ?bs"
    "last_used bbl' = (if xs = [] \<or> e_block e < e_block (snd (hd xs)) then last_used bbl else Some a)"
    by (rule queue_bb_run [OF l new a before_sorted [OF bs ok] fresh bs lu nm(1) un])
  let ?xs' = "queue_cells ?bs (a, e) xs"
  have snd': "map snd ?xs' = queue_spec ?bs e (map snd xs)" by (simp add: queue_cells_snd)
  have q: "exts_ok ?bs (queue_spec ?bs e (map snd xs)) \<and>
      image_of ?bs (queue_spec ?bs e (map snd xs)) = image_of ?bs (map snd xs) ++ ext_image ?bs e"
    by (rule queue_spec_image [OF bs ok e(1)]) (use e(2) in simp)
  have nh: "names h' = names h" using r(3) by (simp add: new_node_upd)
  have "names_ok h' f" if "f \<in> snd ` set ?xs'" for f
  proof -
    have "f \<in> set (queue_spec ?bs e (map snd xs))" using that snd' by (metis set_map)
    then obtain g where "g \<in> insert e (snd ` set xs)" "e_backing f = e_backing g"
      using queue_spec_backing [of f ?bs e "map snd xs"] by auto
    then show ?thesis using names nm(2) nh unfolding names_ok_def by (metis insertE)
  qed
  then have "bbl_inv h' bbl' ?xs'"
    using r(2,6) q bs queue_spec_unshared [OF un] nm(1) by (simp add: bbl_inv_def snd')
  then show thesis
    using r(1,4-7) that [of bbl' h' ?xs'] q nh snd' addrs_queue_cells [of ?bs "(a, e)" xs] by (simp add: new_node_upd)
qed

section \<open>Adding a block\<close>

text \<open>What the four adding functions promise: the block becomes a part of the image.\<close>

definition adds_block ::
    "backed_block_list \<Rightarrow> bb_heap \<Rightarrow> cell list \<Rightarrow> extent \<Rightarrow> addr ptr \<Rightarrow>
     (int \<times> backed_block_list \<times> bb_heap) exec \<Rightarrow> bool" where
  "adds_block bbl h xs e mem result \<longleftrightarrow>
     (case mem of None \<Rightarrow> result = Ret (- ENOMEM, bbl, h)
      | Some a \<Rightarrow> \<exists>bbl' h' xs'. result = Ret (0, bbl', h') \<and> bbl_inv h' bbl' xs' \<and>
          bbl_block_size bbl' = bbl_block_size bbl \<and> addrs xs' \<subseteq> insert a (addrs xs) \<and>
          image_of (bbl_block_size bbl) (map snd xs') =
            image_of (bbl_block_size bbl) (map snd xs) ++ ext_image (bbl_block_size bbl) e \<and>
          (\<forall>x. x \<notin> insert a (addrs xs) \<longrightarrow> nmap h' x = nmap h x))"

text \<open>The calls that add an extent with backing \<open>b\<close>.\<close>

inductive add_call ::
    "allocator \<Rightarrow> backed_block_list \<Rightarrow> u32 \<Rightarrow> u32 \<Rightarrow> bb_heap \<Rightarrow> backing \<Rightarrow>
     (int \<times> backed_block_list \<times> bb_heap) exec \<Rightarrow> bool"
  for malloc bbl block len h where
  fill_block: "add_call malloc bbl block len h (BB_Fill v) (backed_block_add_fill malloc bbl v len block h)"
| data_block: "add_call malloc bbl block len h (BB_Data d) (backed_block_add_data malloc bbl d len block h)"
| fd_block: "add_call malloc bbl block len h (BB_Fd fd off) (backed_block_add_fd malloc bbl fd off len block h)"
| file_block: "add_call malloc bbl block len h
    (BB_File (fst (strdup_name malloc s (new_node (the (malloc h))
       \<lparr>bb_block = block, bb_len = len, bb_backing = BB_File NULL 0, bb_next = NULL\<rparr> h))) off)
    (backed_block_add_file malloc bbl s off len block h)"

lemma adds_blockI:
  assumes "bbl_inv h bbl xs" "a \<notin> addrs xs" "last_used_ok bbl xs a"
    and "ext_ok (bbl_block_size bbl) e" "\<forall>f \<in> snd ` set xs. before (bbl_block_size bbl) f e \<or> before (bbl_block_size bbl) e f"
    and "\<forall>f \<in> snd ` set xs. \<not> shared_name f e" "names_ok h e"
    and "\<forall>x. x \<noteq> a \<longrightarrow> nmap h x = nmap h0 x"
  shows "adds_block bbl h0 xs e (Some a) (queue_bb bbl (Some a) (new_node a (mk_bb e NULL) h))"
  by (rule add_run [OF assms(1-7)]) (use assms(8) in \<open>auto simp: adds_block_def\<close>)

lemma malloc_fresh:
  assumes "malloc_contract malloc" "bbl_inv h bbl xs" "malloc h = Some a"
  shows "a \<notin> addrs xs"
proof
  assume "a \<in> addrs xs"
  then obtain e where "(a, e) \<in> set xs" by auto
  moreover have "path (nmap h) xs NULL" using assms(2) by (simp add: bbl_inv_def bb_list_def)
  ultimately show False using path_lookup [of "nmap h" xs NULL a e] assms(1,3) by (auto simp: malloc_contract_def)
qed

text \<open>The name of a file block is a fresh copy, so it is not shared with another block.\<close>

lemma strdup_fresh:
  assumes "malloc_contract malloc" "\<forall>e \<in> snd ` set xs. names_ok h e" "strdup_name malloc s h = (f, h')"
  shows "\<forall>g \<in> snd ` set xs. \<not> shared_name g \<lparr>e_block = b, e_len = l, e_backing = BB_File f off\<rparr>"
    "names_ok h' \<lparr>e_block = b, e_len = l, e_backing = BB_File f off\<rparr>" "nmap h' = nmap h"
    "\<forall>e \<in> snd ` set xs. names_ok h' e"
  using assms
  by (auto simp: strdup_name_def names_ok_def shared_name_def malloc_contract_def update_conv' dom_def
      split: option.splits)

text \<open>
  C11. Queueing a fill, data, file or descriptor block into a well-formed block list fails with
  \<open>-ENOMEM\<close> and changes nothing when the allocator returns null; otherwise it succeeds, the list stays
  in order, free of overlaps and null terminated, only nodes of the list and the new one are touched,
  and the image of the list gains exactly the blocks of the new extent, whether the code inserted
  the block or merged it with its neighbours. The block must not overlap the list and end below four
  gigabytes, and \<open>last_used\<close> must be null, in the list, or the address just allocated.\<close>

theorem add_block_correct:
  assumes "malloc_contract malloc" "bbl_inv h bbl xs"
    and "\<forall>a. malloc h = Some a \<longrightarrow> last_used_ok bbl xs a"
    and "ext_ok (bbl_block_size bbl) \<lparr>e_block = block, e_len = len, e_backing = b\<rparr>"
    and "\<forall>f \<in> snd ` set xs. before (bbl_block_size bbl) f \<lparr>e_block = block, e_len = len, e_backing = b\<rparr> \<or>
           before (bbl_block_size bbl) \<lparr>e_block = block, e_len = len, e_backing = b\<rparr> f"
    and "add_call malloc bbl block len h b result"
  shows "adds_block bbl h xs \<lparr>e_block = block, e_len = len, e_backing = b\<rparr> (malloc h) result"
proof (cases "malloc h")
  case None
  from assms(6) None show ?thesis
    by cases (auto simp: adds_block_def backed_block_add_fill_def backed_block_add_data_def
        backed_block_add_fd_def backed_block_add_file_def)
next
  case (Some a)
  let ?e = "\<lambda>b. \<lparr>e_block = block, e_len = len, e_backing = b\<rparr>"
  have a: "a \<notin> addrs xs" by (rule malloc_fresh [OF assms(1,2) Some])
  have lu: "last_used_ok bbl xs a" using assms(3) Some by simp
  have mk: "\<lparr>bb_block = block, bb_len = len, bb_backing = c, bb_next = NULL\<rparr> = mk_bb (?e c) NULL" for c
    by (simp add: mk_bb_def)
  note add = adds_blockI [OF _ a lu assms(4,5)]
  from assms(6) show ?thesis
  proof cases
    case (file_block s off)
    define h1 where "h1 = new_node a (mk_bb (?e (BB_File NULL 0)) NULL) h"
    obtain f h2 where sd: "strdup_name malloc s h1 = (f, h2)" by fastforce
    have inv1: "bbl_inv h1 bbl xs" using assms(2) a by (simp add: h1_def bbl_inv_def bb_list_def new_node_upd names_ok_def)
    then have "\<forall>e \<in> snd ` set xs. names_ok h1 e" by (simp add: bbl_inv_def)
    note sf = strdup_fresh [OF assms(1) this sd]
    have inv2: "bbl_inv h2 bbl xs" using inv1 sf(3,4) by (simp add: bbl_inv_def bb_list_def)
    have b: "b = BB_File f off" "result = queue_bb bbl (Some a) (new_node a (mk_bb (?e b) NULL) h2)"
      using file_block Some sd by (simp_all add: backed_block_add_file_def Let_def mk h1_def)
    show ?thesis unfolding Some b(2)
      by (rule add [OF inv2]) (use sf in \<open>auto simp: b(1) h1_def new_node_upd\<close>)
  qed (use add [OF assms(2)] Some in \<open>auto simp: mk backed_block_add_fill_def backed_block_add_data_def
      backed_block_add_fd_def shared_name_def names_ok_def\<close>)
qed

text \<open>Two allocators that keep the contract: the first address above those in use, and one that leaves
  a gap and so does not return a freed address at once.\<close>

definition top_addr :: "bb_heap \<Rightarrow> addr" where
  "top_addr h = foldr max (map fst (nodes h) @ map fst (names h)) 0"

definition bump_alloc :: allocator where
  "bump_alloc h = Some (Suc (top_addr h))"

definition gap_alloc :: allocator where
  "gap_alloc h = Some (Suc (top_addr h + sum_list (map (unat \<circ> bb_len \<circ> snd) (nodes h))))"

lemma foldr_max_le: "(x :: nat) \<in> set xs \<Longrightarrow> x \<le> foldr max xs 0"
  by (induction xs) auto

lemma top_addr_fresh: "top_addr h < a \<Longrightarrow> nmap h a = None \<and> map_of (names h) a = None"
  using foldr_max_le [of a "map fst (nodes h) @ map fst (names h)"]
  by (auto simp: top_addr_def map_of_eq_None_iff simp del: foldr_append)

lemma alloc_contracts: "malloc_contract bump_alloc" "malloc_contract gap_alloc"
  by (simp_all add: malloc_contract_def bump_alloc_def gap_alloc_def top_addr_fresh)

definition demo_bbl :: backed_block_list where
  "demo_bbl = \<lparr>data_blocks = Some 1, last_used = NULL, bbl_block_size = 4096\<rparr>"

definition demo_ext :: extent where
  "demo_ext = \<lparr>e_block = 0, e_len = 8192, e_backing = BB_Fill 7\<rparr>"

definition demo_heap :: bb_heap where
  "demo_heap = \<lparr>nodes = [(1, mk_bb demo_ext NULL)], names = []\<rparr>"

lemma demo_inv: "bbl_inv demo_heap demo_bbl [(1, demo_ext)]"
  by (simp add: bbl_inv_def bb_list_def demo_heap_def demo_bbl_def exts_ok_def ext_ok_def demo_ext_def names_ok_def)

theorem add_block_correct_witness:
  "adds_block demo_bbl demo_heap [(1, demo_ext)] \<lparr>e_block = 2, e_len = 4096, e_backing = BB_Fill 7\<rparr> (Some 2)
     (backed_block_add_fill bump_alloc demo_bbl 7 4096 2 demo_heap)"
proof -
  have m: "bump_alloc demo_heap = Some 2" by (simp add: bump_alloc_def top_addr_def demo_heap_def)
  show ?thesis
    using add_block_correct [OF alloc_contracts(1) demo_inv _ _ _ fill_block, of 2 4096 7]
    by (simp add: m last_used_ok_def demo_bbl_def ext_ok_def before_def nblocks_def demo_ext_def)
qed

text \<open>Queueing three equal fill blocks, as a reader of an image with three equal blocks does.\<close>

definition three_fills :: "allocator \<Rightarrow> u32 \<Rightarrow> (int \<times> backed_block_list \<times> bb_heap) exec" where
  "three_fills malloc len = do {
     bbl \<leftarrow> backed_block_list_new True 4096;
     (_, bbl, h) \<leftarrow> backed_block_add_fill malloc bbl 7 len 0 \<lparr>nodes = [], names = []\<rparr>;
     (_, bbl, h) \<leftarrow> backed_block_add_fill malloc bbl 7 len (len div 4096) h;
     backed_block_add_fill malloc bbl 7 len (2 * (len div 4096)) h }"


section \<open>Splitting a block\<close>

lemma ucast_of_nat_64: "k < 2 ^ 32 \<Longrightarrow> (ucast (of_nat k :: u32) :: i64) = of_nat k"
  by (simp add: unsigned_of_nat take_bit_nat_eq_self)

lemma advance_advance:
  assumes "unat l + k < 2 ^ 32"
  shows "advance_backing (of_nat (unat l + k)) b = advance_backing (of_nat k) (advance_backing l b)"
proof -
  have k: "k < 2 ^ 32" using assms by simp
  have "(ucast l :: i64) = of_nat (unat l)" using ucast_of_nat_64 [OF unat_less_u32 [of l]] by simp
  then have "(ucast (of_nat (unat l + k) :: u32) :: i64) = ucast l + ucast (of_nat k :: u32)"
    unfolding ucast_of_nat_64 [OF assms] ucast_of_nat_64 [OF k] by simp
  moreover have "unat (of_nat (unat l + k) :: u32) = unat l + k" "unat (of_nat k :: u32) = k"
    using assms k by (simp_all add: unat_of_nat del: of_nat_add)
  ultimately show ?thesis by (cases b) (simp_all add: add.commute add.left_commute)
qed

definition split_first :: "u32 \<Rightarrow> extent \<Rightarrow> extent" where
  "split_first q e = e\<lparr>e_len := q\<rparr>"

definition split_second :: "u32 \<Rightarrow> u32 \<Rightarrow> extent \<Rightarrow> extent" where
  "split_second bs q e = \<lparr>e_block = e_block e + q div bs, e_len = e_len e - q, e_backing = advance_backing q (e_backing e)\<rparr>"

lemma split_image:
  assumes "bs \<noteq> 0" "ext_ok bs e" "q < e_len e" "unat bs dvd unat q"
  shows "ext_image bs e = ext_image bs (split_first q e) ++ ext_image bs (split_second bs q e)"
    "unat (e_block (split_second bs q e)) = unat (e_block e) + nblocks bs (split_first q e)"
    "nblocks bs e = nblocks bs (split_first q e) + nblocks bs (split_second bs q e)"
    "unat q = nblocks bs (split_first q e) * unat bs"
proof -
  have b0: "0 < unat bs" using assms(1) by (simp add: unat_gt_0)
  obtain k where k: "unat q = unat bs * k" using assms(4) by (elim dvdE)
  have "nblocks bs (split_first q e) = (unat bs - 1 + k * unat bs) div unat bs"
    using b0 by (simp add: nblocks_def split_first_def k algebra_simps)
  also have "\<dots> = k + (unat bs - 1) div unat bs" using b0 by (intro div_mult_self1) simp
  finally have n1: "nblocks bs (split_first q e) = k" using b0 by simp
  show q: "unat q = nblocks bs (split_first q e) * unat bs" by (simp add: n1 k)
  have ql: "unat q < unat (e_len e)" using assms(3) by (simp add: word_less_nat_alt)
  have dq: "unat (q div bs) = k" using b0 by (simp add: unat_div k)
  have "k \<le> unat q" "unat (e_block e) \<le> unat (e_block e) * unat bs" using b0 by (simp_all add: k)
  then have "unat (e_block e) + k < 2 ^ 32"
    using assms(2) ql unfolding ext_ok_def by linarith
  then show blk: "unat (e_block (split_second bs q e)) = unat (e_block e) + nblocks bs (split_first q e)"
    using unat_add_u32 [of "e_block e" "q div bs"] by (simp add: split_second_def n1 dq)
  have l2: "unat (e_len (split_second bs q e)) = unat (e_len e) - unat q"
    using ql by (simp add: split_second_def unat_sub_u32)
  have "unat (e_len e) + unat bs - 1 = k * unat bs + (unat (e_len e) - unat q + unat bs - 1)"
    using ql b0 by (simp add: k algebra_simps)
  then have "nblocks bs e = (k * unat bs + (unat (e_len e) - unat q + unat bs - 1)) div unat bs"
    unfolding nblocks_def by (rule arg_cong)
  also have "\<dots> = k + nblocks bs (split_second bs q e)"
    unfolding nblocks_def l2 by (rule div_mult_self3) (use b0 in simp)
  finally show nb: "nblocks bs e = nblocks bs (split_first q e) + nblocks bs (split_second bs q e)" by (simp add: n1)
  show "ext_image bs e = ext_image bs (split_first q e) ++ ext_image bs (split_second bs q e)"
  proof (rule join_image [OF assms(1)])
    fix k
    assume "k < unat (e_len (split_second bs q e))"
    then have "unat q + k < 2 ^ 32" using l2 unat_less_u32 [of "e_len e"] by simp
    then show "advance_backing (of_nat (unat (e_len (split_first q e)) + k)) (e_backing (split_first q e)) =
        advance_backing (of_nat k) (e_backing (split_second bs q e))"
      using advance_advance [of q k] by (simp add: split_first_def split_second_def)
  qed (use q l2 ql blk nb in \<open>simp_all add: split_first_def\<close>)
qed

lemma ALIGN_DOWN_run:
  assumes "bs \<noteq> 0"
  obtains q where "ALIGN_DOWN x bs = Ret q" "unat q = unat bs * (unat x div unat bs)" "unat bs dvd unat q"
    "q \<le> x" "udiv q bs = Ret (q div bs)"
proof -
  have "unat bs * (unat x div unat bs) \<le> unat x" by simp
  then have "unat bs * (unat x div unat bs) < 2 ^ 32" using unat_less_u32 [of x] by linarith
  then have "unat (bs * (x div bs)) = unat bs * (unat x div unat bs)"
    using unat_mult_u32 [of bs "x div bs"] by (simp add: unat_div)
  with that [of "bs * (x div bs)"] assms show thesis by (simp add: ALIGN_DOWN_def udiv_def word_le_nat_alt)
qed

lemma exts_ok_split:
  assumes "bs \<noteq> 0" "exts_ok bs (ls @ e # rs)" "0 < q" "q < e_len e" "unat bs dvd unat q"
  shows "exts_ok bs (ls @ split_first q e # split_second bs q e # rs) \<and>
    image_of bs (ls @ split_first q e # split_second bs q e # rs) = image_of bs (ls @ e # rs)"
proof -
  have ok: "ext_ok bs e" using assms(2) by (simp add: exts_ok_def)
  note sp = split_image [OF assms(1) ok assms(4,5)]
  have ql: "unat q < unat (e_len e)" using assms(4) by (simp add: word_less_nat_alt)
  have l2: "unat (e_len (split_second bs q e)) = unat (e_len e) - unat q"
    using ql by (simp add: split_second_def unat_sub_u32)
  have f: "e_block (split_first q e) = e_block e" "e_len (split_first q e) = q" by (simp_all add: split_first_def)
  have "before bs x (split_first q e)" "before bs x (split_second bs q e)" if "before bs x e" for x
    using that sp(2) by (simp_all add: before_def f)
  moreover have "before bs (split_first q e) x" "before bs (split_second bs q e) x" if "before bs e x" for x
    using that sp(2,3) by (simp_all add: before_def f)
  moreover have "before bs (split_first q e) (split_second bs q e)" using sp(2) by (simp add: before_def f)
  moreover have "ext_ok bs (split_first q e)" using ok assms(3) ql by (simp add: ext_ok_def f unat_gt_0)
  moreover have "ext_ok bs (split_second bs q e)"
    using ok ql sp(4) by (simp add: ext_ok_def l2 sp(2) distrib_right)
  ultimately have "exts_ok bs (ls @ split_first q e # split_second bs q e # rs)"
    using assms(2) by (auto simp: exts_ok_def sorted_wrt_append)
  then show ?thesis by (simp add: image_of_append sp(1))
qed

lemma split_run:
  assumes bb: "bb_list h bbl (ls @ (p, e) # rs)" and bs: "bbl_block_size bbl \<noteq> 0"
    and a: "malloc h = Some a" "a \<notin> addrs (ls @ (p, e) # rs)"
    and q: "ALIGN_DOWN max_len (bbl_block_size bbl) = Ret q" "q < e_len e"
  obtains h' where "backed_block_split malloc bbl (Some p) max_len h = Ret (0, h')"
    "bb_list h' bbl (ls @ (p, split_first q e) # (a, split_second (bbl_block_size bbl) q e) # rs)" "names h' = names h"
    "\<forall>x. x \<noteq> a \<and> x \<noteq> p \<longrightarrow> nmap h' x = nmap h x"
proof -
  let ?n2 = "mk_bb (split_second (bbl_block_size bbl) q e) (first rs NULL)"
  let ?h' = "upd p (mk_bb (split_first q e) (Some a)) (upd a ?n2 h)"
  have path: "path (nmap h) ls (Some p)" "nmap h p = Some (mk_bb e (first rs NULL))" "path (nmap h) rs NULL"
    and dist: "distinct (map fst (ls @ (p, e) # rs))" and db: "data_blocks bbl = first (ls @ (p, e) # rs) NULL"
    using bb by (simp_all add: bb_list_def)
  have n2: "\<lparr>bb_block = e_block e + q div bbl_block_size bbl, bb_len = e_len e - q,
      bb_backing = advance_backing q (e_backing e), bb_next = first rs NULL\<rparr> = ?n2"
    by (simp add: split_second_def mk_bb_def)
  have pa: "p \<noteq> a" using a(2) by auto
  have as: "assign (Some p) (\<lambda>n. n\<lparr>bb_next := Some a, bb_len := q\<rparr>) (upd a ?n2 h) = Ret ?h'"
    using path(2) pa by (subst assign_run [where n = "mk_bb e (first rs NULL)"]) (simp_all add: split_first_def mk_bb_def)
  have run: "backed_block_split malloc bbl (Some p) max_len h = Ret (0, ?h')"
    using q path(2) a(1) as bs by (simp add: backed_block_split_def udiv_def new_node_upd n2)
  have "bb_list ?h' bbl (ls @ (p, split_first q e) # (a, split_second (bbl_block_size bbl) q e) # rs)"
    using path dist a(2) pa db by (auto simp: bb_list_def image_Un)
  with run show thesis by (rule that) simp_all
qed

text \<open>
  C29. Splitting a block of a well-formed list at \<open>max_len\<close> bytes keeps the list well formed and the
  image the list stands for; the first part is then at most \<open>max_len\<close> bytes long and ends on a block
  boundary. A block that already fits is left alone. \<open>max_len\<close> must hold at least one block, and the
  allocation must succeed: the code tests the wrong pointer after \<open>malloc\<close>.\<close>

theorem backed_block_split_correct:
  assumes "malloc_contract malloc" "malloc h = Some a"
    and "bbl_inv h bbl (ls @ (p, e) # rs)" "bbl_block_size bbl \<le> max_len"
  shows "\<exists>h' xs' e1. backed_block_split malloc bbl (Some p) max_len h = Ret (0, h') \<and>
    bb_list h' bbl (ls @ (p, e1) # xs') \<and> exts_ok (bbl_block_size bbl) (map snd (ls @ (p, e1) # xs')) \<and>
    image_of (bbl_block_size bbl) (map snd (ls @ (p, e1) # xs')) =
      image_of (bbl_block_size bbl) (map snd (ls @ (p, e) # rs)) \<and>
    e_block e1 = e_block e \<and> e_len e1 = min (e_len e) (max_len - max_len mod bbl_block_size bbl)"
proof -
  let ?bs = "bbl_block_size bbl"
  have bb: "bb_list h bbl (ls @ (p, e) # rs)" and bs: "?bs \<noteq> 0" and ok: "exts_ok ?bs (map snd (ls @ (p, e) # rs))"
    using assms(3) by (simp_all add: bbl_inv_def)
  obtain q where q: "ALIGN_DOWN max_len ?bs = Ret q" "unat q = unat ?bs * (unat max_len div unat ?bs)"
    "unat ?bs dvd unat q" "q \<le> max_len" "udiv q ?bs = Ret (q div ?bs)"
    by (rule ALIGN_DOWN_run [OF bs])
  have qm: "q = max_len - max_len mod ?bs"
    using q(1) bs by (simp add: ALIGN_DOWN_def udiv_def minus_mod_eq_mult_div)
  have "0 < unat max_len div unat ?bs"
    using assms(4) bs by (simp add: div_greater_zero_iff word_le_nat_alt unat_gt_0)
  then have q0: "0 < q" using bs q(2) by (simp add: word_less_nat_alt unat_gt_0)
  show ?thesis
  proof (cases "e_len e \<le> q")
    case True
    have "nmap h p = Some (mk_bb e (first rs NULL))" using bb by (simp add: bb_list_def)
    then have "backed_block_split malloc bbl (Some p) max_len h = Ret (0, h)"
      using q(1) True by (simp add: backed_block_split_def)
    then show ?thesis using bb ok True by (intro exI [of _ h] exI [of _ rs] exI [of _ e]) (simp add: qm [symmetric])
  next
    case False
    then have lt: "q < e_len e" by simp
    have a: "a \<notin> addrs (ls @ (p, e) # rs)" by (rule malloc_fresh [OF assms(1,3,2)])
    obtain h' where h': "backed_block_split malloc bbl (Some p) max_len h = Ret (0, h')"
      "bb_list h' bbl (ls @ (p, split_first q e) # (a, split_second ?bs q e) # rs)"
      by (rule split_run [where malloc = malloc, OF bb bs assms(2) a q(1) lt])
    have "exts_ok ?bs (map snd ls @ split_first q e # split_second ?bs q e # map snd rs) \<and>
        image_of ?bs (map snd ls @ split_first q e # split_second ?bs q e # map snd rs) = image_of ?bs (map snd ls @ e # map snd rs)"
      by (rule exts_ok_split [OF bs _ q0 lt q(3)]) (use ok in simp)
    then show ?thesis
      using h' lt by (intro exI [of _ h'] exI [of _ "(a, split_second ?bs q e) # rs"] exI [of _ "split_first q e"])
        (simp add: qm [symmetric] split_first_def)
  qed
qed

theorem backed_block_split_correct_witness:
  "\<exists>h' xs' e1. backed_block_split bump_alloc demo_bbl (Some 1) 5000 demo_heap = Ret (0, h') \<and>
    bb_list h' demo_bbl ([] @ (1, e1) # xs') \<and> e_len e1 = 4096"
  using backed_block_split_correct [of bump_alloc demo_heap 2 demo_bbl "[]" 1 demo_ext "[]" 5000]
    alloc_contracts(1) demo_inv
  by (fastforce simp: bump_alloc_def top_addr_def demo_heap_def demo_bbl_def demo_ext_def)

section \<open>Moving and destroying\<close>

lemma last_loop_run: "path (nmap h) ((a, e) # xs) NULL \<Longrightarrow> last_loop h (Some a) = Ret (Some (fst (last ((a, e) # xs))))"
proof (induction xs arbitrary: a e)
  case Nil
  then show ?case by (subst last_loop.simps) simp
next
  case (Cons c xs)
  obtain b f where c: "c = (b, f)" by (cases c)
  from Cons.prems have "path (nmap h) ((b, f) # xs) NULL" by (simp add: c)
  from Cons.IH [OF this] Cons.prems show ?case by (subst last_loop.simps) (auto simp: c)
qed

lemma path_relink:
  assumes "path m (xs @ [(a, e)]) q" "distinct (map fst (xs @ [(a, e)]))"
  shows "path (m(a \<mapsto> mk_bb e r)) (xs @ [(a, e)]) r"
  using assms by simp

text \<open>The predecessor of \<open>start\<close> is linked to what follows the moved part.\<close>

lemma unlink_run:
  assumes "path (nmap h) (xs @ [(b, f)]) (Some s)" "distinct (map fst (xs @ [(b, f)]))" "s \<notin> addrs (xs @ [(b, f)])"
  shows "unlink_loop (Some s) r (first (xs @ [(b, f)]) NULL) h = Ret (upd b (mk_bb f r) h)"
  using assms
proof (induction xs)
  case Nil
  then show ?case by (subst unlink_loop.simps) (simp add: assign_run)
next
  case (Cons c xs)
  obtain a e where c: "c = (a, e)" by (cases c)
  have "nmap h a = Some (mk_bb e (first (xs @ [(b, f)]) (Some s)))" using Cons.prems(1) by (simp add: c)
  moreover have "first (xs @ [(b, f)]) (Some s) = first (xs @ [(b, f)]) NULL" by (cases xs) (auto simp: first_Cons)
  moreover have "first (xs @ [(b, f)]) NULL \<noteq> Some s" using Cons.prems(3) by (cases xs) (auto simp: first_Cons)
  ultimately show ?case using Cons by (subst unlink_loop.simps) (simp add: c)
qed

lemma insert_run:
  fixes sb :: u32
  assumes "path (nmap h) ((a, e) # ys) NULL" "nmap h t = Some (mk_bb g r)" "t \<notin> addrs ((a, e) # ys)"
  defines "P \<equiv> (\<lambda>c. e_block (snd c) \<le> sb)"
  obtains b f where "last ((a, e) # takeWhile P ys) = (b, f)"
    "insert_loop s (Some t) sb (Some a) h =
       Ret (upd b (mk_bb f s) (upd t (mk_bb g (first (dropWhile P ys) NULL)) h))"
proof -
  have "\<exists>b f. last ((a, e) # takeWhile P ys) = (b, f) \<and> insert_loop s (Some t) sb (Some a) h =
       Ret (upd b (mk_bb f s) (upd t (mk_bb g (first (dropWhile P ys) NULL)) h))"
    using assms(1,3)
  proof (induction ys arbitrary: a e)
    case Nil
    then show ?case using assms(2) by (subst insert_loop.simps) (simp add: assign_run)
  next
    case (Cons c ys)
    obtain b f where c: "c = (b, f)" by (cases c)
    have n: "nmap h a = Some (mk_bb e (Some b))" "nmap h b = Some (mk_bb f (first ys NULL))" "t \<noteq> a"
      "path (nmap h) ((b, f) # ys) NULL" "t \<notin> addrs ((b, f) # ys)"
      using Cons.prems by (auto simp: c)
    show ?case
    proof (cases "e_block f > sb")
      case True
      then show ?thesis using n assms(2) by (subst insert_loop.simps) (auto simp: c P_def assign_run)
    next
      case False
      then show ?thesis using Cons.IH [OF n(4,5)] n by (subst insert_loop.simps) (auto simp: c P_def)
    qed
  qed
  then show thesis using that by blast
qed

definition insert_cells :: "cell list \<Rightarrow> cell list \<Rightarrow> cell list" where
  "insert_cells ms ys = (case ys of [] \<Rightarrow> ms
     | y # ys' \<Rightarrow> y # takeWhile (\<lambda>c. e_block (snd c) \<le> e_block (snd (hd ms))) ys' @ ms @
                   dropWhile (\<lambda>c. e_block (snd c) \<le> e_block (snd (hd ms))) ys')"

lemma move_insert_run:
  assumes "path (nmap h) (ms @ [(t, g)]) r" "path (nmap h) ys NULL"
    and "distinct (map fst (ms @ [(t, g)]))" "distinct (map fst ys)" "addrs (ms @ [(t, g)]) \<inter> addrs ys = {}"
  defines "s \<equiv> first (ms @ [(t, g)]) NULL"
  shows "\<exists>h'. (if first ys NULL = NULL then do { h \<leftarrow> assign (Some t) (bb_next_update (\<lambda>_. NULL)) h; Ret (s, h) }
      else do { st \<leftarrow> deref h s; h \<leftarrow> insert_loop s (Some t) (bb_block st) (first ys NULL) h; Ret (first ys NULL, h) }) =
      Ret (first (insert_cells (ms @ [(t, g)]) ys) NULL, h') \<and>
    path (nmap h') (insert_cells (ms @ [(t, g)]) ys) NULL \<and> names h' = names h \<and>
    (\<forall>x. x \<notin> addrs (ms @ [(t, g)]) \<union> addrs ys \<longrightarrow> nmap h' x = nmap h x)"
proof (cases ys)
  case Nil
  have "nmap h t = Some (mk_bb g r)" using assms(1) by simp
  then show ?thesis
    using path_relink [OF assms(1,3), of NULL] by (auto simp: Nil insert_cells_def assign_run s_def)
next
  case (Cons y ys')
  obtain a e where y: "y = (a, e)" by (cases y)
  define sb where "sb = e_block (snd (hd (ms @ [(t, g)])))"
  define P where "P = (\<lambda>c :: cell. e_block (snd c) \<le> sb)"
  have t: "nmap h t = Some (mk_bb g r)" "t \<notin> addrs ((a, e) # ys')" using assms(1,5) by (auto simp: Cons y)
  have pys: "path (nmap h) ((a, e) # ys') NULL" using assms(2) by (simp add: Cons y)
  have st: "\<exists>st. deref h s = Ret st \<and> bb_block st = sb"
    using assms(1) by (cases ms) (auto simp: s_def sb_def first_Cons)
  obtain b f where b: "last ((a, e) # takeWhile P ys') = (b, f)"
    and run: "insert_loop s (Some t) sb (Some a) h =
       Ret (upd b (mk_bb f s) (upd t (mk_bb g (first (dropWhile P ys') NULL)) h))"
    using insert_run [OF pys t, of sb s] unfolding P_def by blast
  define pre where "pre = butlast ((a, e) # takeWhile P ys')"
  define d where "d = dropWhile P ys'"
  have pre: "(a, e) # takeWhile P ys' = pre @ [(b, f)]"
    using append_butlast_last_id [of "(a, e) # takeWhile P ys'"] b by (simp add: pre_def)
  moreover have "ys = ((a, e) # takeWhile P ys') @ d" by (simp add: Cons y d_def)
  ultimately have ys: "ys = pre @ (b, f) # d" by simp
  have ic: "insert_cells (ms @ [(t, g)]) ys = pre @ (b, f) # (ms @ [(t, g)]) @ d"
    using pre by (simp add: insert_cells_def Cons y P_def sb_def d_def flip: append_Cons)
  let ?m = "(nmap h)(t \<mapsto> mk_bb g (first d NULL))"
  have "path ?m (ms @ [(t, g)]) (first d NULL)" by (rule path_relink [OF assms(1,3)])
  moreover have "b \<notin> addrs (ms @ [(t, g)])" "t \<notin> addrs pre" "t \<notin> addrs d" "t \<noteq> b" "b \<notin> addrs pre" "b \<notin> addrs d"
    using assms(4,5) by (auto simp: ys)
  moreover have "path (nmap h) pre (Some b)" "path (nmap h) d NULL" using assms(2) by (auto simp: ys)
  moreover have "s = first ((ms @ [(t, g)]) @ d) NULL" by (cases ms) (auto simp: s_def first_Cons)
  ultimately have "path (?m(b \<mapsto> mk_bb f s)) (insert_cells (ms @ [(t, g)]) ys) NULL"
    unfolding ic by simp
  moreover have "first (insert_cells (ms @ [(t, g)]) ys) NULL = first ys NULL" by (simp add: insert_cells_def Cons y)
  moreover have "addrs ys = addrs pre \<union> insert b (addrs d)" by (auto simp: ys)
  ultimately show ?thesis using st run by (auto simp: Cons y d_def)
qed

text \<open>Unlinking the moved part: afterwards the list it came from ends where the part began.\<close>

lemma move_unlink_run:
  assumes "path (nmap h) (ls @ ms @ rs) NULL" "distinct (map fst (ls @ ms @ rs))" "ms \<noteq> []"
    and "s = first ms NULL" "data_blocks from = first (ls @ ms) NULL"
  shows "\<exists>from' h'. (if data_blocks from = s then Ret (from\<lparr>data_blocks := first rs NULL\<rparr>, h)
      else do { h \<leftarrow> unlink_loop s (first rs NULL) (data_blocks from) h; Ret (from, h) }) = Ret (from', h') \<and>
    path (nmap h') (ls @ rs) NULL \<and> path (nmap h') ms (first rs NULL) \<and> data_blocks from' = first (ls @ rs) NULL \<and>
    from' = from\<lparr>data_blocks := data_blocks from'\<rparr> \<and> names h' = names h \<and>
    (\<forall>x. x \<notin> addrs ls \<longrightarrow> nmap h' x = nmap h x)"
proof (cases ls rule: rev_cases)
  case Nil
  then show ?thesis using assms(1,4,5) by simp
next
  case (snoc ls' c)
  obtain b f where c: "c = (b, f)" by (cases c)
  obtain a e ms' where ms: "ms = (a, e) # ms'" using assms(3) by (metis list.exhaust surj_pair)
  have s: "s = Some a" by (simp add: assms(4) ms)
  have ls: "ls = ls' @ [(b, f)]" by (simp add: snoc c)
  have ne: "data_blocks from = first ls NULL" "first ls NULL \<noteq> s"
    using assms(2,5) by (cases ls'; auto simp: ls s ms first_Cons)+
  have "a \<notin> addrs ls" using assms(2) by (auto simp: ms)
  moreover have pl: "path (nmap h) ls (Some a)" "path (nmap h) ms (first rs NULL)" "path (nmap h) rs NULL"
    using assms(1) by (auto simp: ms)
  ultimately have u: "unlink_loop s (first rs NULL) (data_blocks from) h = Ret (upd b (mk_bb f (first rs NULL)) h)"
    using unlink_run [of h ls' b f a] assms(2) unfolding ne(1) s ls by simp
  have d: "distinct (map fst (ls' @ [(b, f)]))" "b \<notin> addrs ms" "b \<notin> addrs rs"
    using assms(2) by (auto simp: ls)
  then have "path (nmap (upd b (mk_bb f (first rs NULL)) h)) (ls @ rs) NULL"
    using pl path_relink [of "nmap h" ls' b f "Some a" "first rs NULL"] by (simp add: ls)
  then show ?thesis
    using u ne d pl by (intro exI [of _ "from"] exI [of _ "upd b (mk_bb f (first rs NULL)) h"]) (auto simp: ls)
qed


lemma distinct_insert_cells:
  assumes "distinct (map fst ms)" "distinct (map fst ys)" "addrs ms \<inter> addrs ys = {}"
  shows "distinct (map fst (insert_cells ms ys))"
proof (cases ys)
  case (Cons y ys')
  let ?P = "\<lambda>c. e_block (snd c) \<le> e_block (snd (hd ms))"
  have "distinct (map fst (y # takeWhile ?P ys' @ dropWhile ?P ys'))"
    "addrs ms \<inter> addrs (y # takeWhile ?P ys' @ dropWhile ?P ys') = {}"
    using assms(2,3) by (simp_all only: takeWhile_dropWhile_id Cons)
  then show ?thesis using assms(1) by (auto simp: insert_cells_def Cons image_Un simp del: takeWhile_dropWhile_id)
qed (use assms in \<open>simp add: insert_cells_def\<close>)

lemma move_run:
  assumes f: "bb_list h from (ls @ ms @ rs)" and t: "bb_list h to ys" and ms: "ms \<noteq> []"
    and disj: "addrs (ls @ ms @ rs) \<inter> addrs ys = {}"
    and st: "start = first ms NULL \<or> start = NULL \<and> ls = []"
    and en: "end_bb = Some (fst (last ms)) \<or> end_bb = NULL \<and> rs = []"
  shows "\<exists>from' to' h'. backed_block_list_move from to start end_bb h = Ret (from', to', h') \<and>
    bb_list h' from' (ls @ rs) \<and> bb_list h' to' (insert_cells ms ys) \<and> names h' = names h \<and>
    last_used from' = NULL \<and> last_used to' = NULL \<and>
    bbl_block_size from' = bbl_block_size from \<and> bbl_block_size to' = bbl_block_size to \<and>
    (\<forall>x. x \<notin> addrs (ls @ ms) \<union> addrs ys \<longrightarrow> nmap h' x = nmap h x)"
proof -
  obtain ms' b g where msl: "ms = ms' @ [(b, g)]" using ms by (metis rev_exhaust surj_pair)
  define s where "s = first ms NULL"
  have pf: "path (nmap h) (ls @ ms @ rs) NULL" and df: "distinct (map fst (ls @ ms @ rs))"
    and bf: "data_blocks from = first (ls @ ms) NULL"
    using f ms by (simp_all add: bb_list_def) (cases ms; simp add: first_Cons)
  have py: "path (nmap h) ys NULL" and dy: "distinct (map fst ys)" and dt: "data_blocks to = first ys NULL"
    using t by (simp_all add: bb_list_def)
  have s1: "(if start = NULL then data_blocks from else start) = s" "s \<noteq> NULL"
    using st bf ms by (auto simp: s_def)
  obtain a e ms0 where ms0: "ms = (a, e) # ms0" using ms by (metis list.exhaust surj_pair)
  have sa: "s = Some a" by (simp add: s_def ms0)
  have lb: "fst (last ((a, e) # ms0)) = b" unfolding ms0 [symmetric] by (simp add: msl)
  have ll: "rs = [] \<Longrightarrow> last_loop h s = Ret (Some b)"
    unfolding sa lb [symmetric] using pf by (intro last_loop_run) (simp add: ms0)
  have e1: "(if end_bb = NULL then last_loop h s else Ret end_bb) = Ret (Some b)"
    using en ll by (auto simp: msl)
  have fs: "first (ms @ rs) NULL = s" by (simp add: sa ms0)
  obtain from1 h1 where h1: "(if data_blocks from = s then Ret (from\<lparr>last_used := NULL, data_blocks := first rs NULL\<rparr>, h)
      else do { h \<leftarrow> unlink_loop s (first rs NULL) (data_blocks from) h; Ret (from\<lparr>last_used := NULL\<rparr>, h) }) = Ret (from1, h1)"
    "path (nmap h1) (ls @ rs) NULL" "path (nmap h1) ms (first rs NULL)" "data_blocks from1 = first (ls @ rs) NULL"
    "from1 = from\<lparr>last_used := NULL, data_blocks := data_blocks from1\<rparr>" "names h1 = names h"
    "\<forall>x. x \<notin> addrs ls \<longrightarrow> nmap h1 x = nmap h x"
    using move_unlink_run [OF pf df ms s_def, of "from\<lparr>last_used := NULL\<rparr>", unfolded bbl_sel, OF bf] by blast
  have d1: "distinct (map fst ms)" "addrs ms \<inter> addrs ys = {}" "addrs ls \<inter> addrs ys = {}"
    "addrs rs \<inter> (addrs ms \<union> addrs ys) = {}" "addrs ls \<inter> addrs ms = {}" "distinct (map fst (ls @ rs))"
    using df disj by (auto simp: image_Un)
  have py1: "path (nmap h1) ys NULL" using py h1(7) d1(3) by (subst path_frame [of ys _ "nmap h"]) auto
  obtain h2 where h2: "(if first ys NULL = NULL then do { h \<leftarrow> assign (Some b) (bb_next_update (\<lambda>_. NULL)) h1; Ret (s, h) }
      else do { st \<leftarrow> deref h1 s; h \<leftarrow> insert_loop s (Some b) (bb_block st) (first ys NULL) h1; Ret (first ys NULL, h) }) =
      Ret (first (insert_cells ms ys) NULL, h2)"
    "path (nmap h2) (insert_cells ms ys) NULL" "names h2 = names h1"
    "\<forall>x. x \<notin> addrs ms \<union> addrs ys \<longrightarrow> nmap h2 x = nmap h1 x"
    using move_insert_run [of h1 ms' b g "first rs NULL" ys, folded msl, folded s_def, OF h1(3) py1 d1(1) dy d1(2)] by blast
  have nb: "nmap h b = Some (mk_bb g (first rs NULL))" using pf by (simp add: msl)
  define to1 where "to1 = to\<lparr>last_used := NULL, data_blocks := first (insert_cells ms ys) NULL\<rparr>"
  have run: "backed_block_list_move from to start end_bb h = Ret (from1, to1, h2)"
    unfolding backed_block_list_move_def Let_def s1(1)
    using e1 s1(2) nb h1(1) h2(1) dt by (cases "ys = []") (auto simp: to1_def bind_eq_Some_conv insert_cells_def)
  have dj: "addrs (ls @ rs) \<inter> (addrs ms \<union> addrs ys) = {}"
    using d1(3-5) by (simp add: image_Un Int_Un_distrib Int_Un_distrib2)
  have "path (nmap h2) (ls @ rs) NULL = path (nmap h1) (ls @ rs) NULL"
    by (rule path_frame) (use dj h2(4) in blast)
  then have "bb_list h2 from1 (ls @ rs)" using h1(2,4) d1(6) by (simp add: bb_list_def)
  moreover have "bb_list h2 to1 (insert_cells ms ys)"
    using h2(2) d1(1,2) dy distinct_insert_cells [of ms ys] by (simp add: bb_list_def to1_def)
  moreover have "last_used from1 = NULL" "bbl_block_size from1 = bbl_block_size from" by (subst h1(5), simp)+
  ultimately show ?thesis using run h1(6,7) h2(3,4) by (auto simp: to1_def image_Un)
qed

lemma insert_cells_image:
  assumes "bs \<noteq> 0" "ms \<noteq> []" "exts_ok bs (map snd ys)" "exts_ok bs (map snd ms)"
    and sep: "\<forall>y \<in> snd ` set ys. (\<forall>m \<in> snd ` set ms. before bs y m) \<or> (\<forall>m \<in> snd ` set ms. before bs m y)"
    and hd: "ys \<noteq> [] \<longrightarrow> before bs (snd (hd ys)) (snd (hd ms))"
  shows "exts_ok bs (map snd (insert_cells ms ys)) \<and>
    image_of bs (map snd (insert_cells ms ys)) = image_of bs (map snd ys) ++ image_of bs (map snd ms)"
proof (cases ys)
  case Nil
  then show ?thesis using assms(4) by (simp add: insert_cells_def)
next
  case (Cons y ys')
  define P where "P = (\<lambda>c :: cell. e_block (snd c) \<le> e_block (snd (hd ms)))"
  define ps where "ps = y # takeWhile P ys'"
  define ds where "ds = dropWhile P ys'"
  have ys: "ys = ps @ ds" by (simp add: ps_def ds_def Cons)
  have ic: "insert_cells ms ys = ps @ ms @ ds" by (simp add: insert_cells_def Cons P_def ps_def ds_def)
  have m0: "snd (hd ms) \<in> snd ` set ms" "ext_ok bs (snd (hd ms))"
    using assms(2,4) by (auto simp: exts_ok_def)
  have okb: "ext_ok bs (snd c)" if "c \<in> set ys" for c using assms(3) that by (simp add: exts_ok_def)
  have ps: "\<forall>m \<in> snd ` set ms. before bs (snd c) m" if c: "c \<in> set ps" for c
  proof -
    have cy: "c \<in> set ys" using c by (simp add: ys)
    have "e_block (snd c) \<le> e_block (snd (hd ms))"
      using c hd before_less [OF assms(1) okb, of y] unfolding ps_def
      by (auto simp: Cons P_def less_imp_le dest!: set_takeWhileD)
    then have "\<not> before bs (snd (hd ms)) (snd c)" using before_less [OF assms(1) m0(2)] by (metis linorder_not_less)
    then show ?thesis using bspec [OF sep, of "snd c"] cy m0(1) by blast
  qed
  have ds: "\<forall>m \<in> snd ` set ms. before bs m (snd c)" if c: "c \<in> set ds" for c
  proof -
    have cy: "c \<in> set ys" using c by (simp add: ys)
    have ne: "ds \<noteq> []" using c by auto
    then have "\<not> P (hd ds)" unfolding ds_def by (rule hd_dropWhile)
    moreover have "c = hd ds \<or> e_block (snd (hd ds)) < e_block (snd c)"
      using before_sorted [OF assms(1,3)] c unfolding ys by (cases ds) (auto simp: sorted_wrt_append)
    ultimately have "\<not> e_block (snd c) < e_block (snd (hd ms))" unfolding P_def by auto
    then have "\<not> before bs (snd c) (snd (hd ms))" using before_less [OF assms(1) okb [OF cy]] by blast
    then show ?thesis using bspec [OF sep, of "snd c"] cy m0(1) by blast
  qed
  have ok: "exts_ok bs (map snd (ps @ ms @ ds))"
    using assms(3,4) ps ds unfolding ys by (auto simp: exts_ok_def sorted_wrt_append)
  have "dom (image_of bs (map snd ms)) \<inter> dom (image_of bs (map snd ds)) = {}"
  proof -
    have "dom (ext_image bs m) \<inter> dom (ext_image bs d) = {}" if "m \<in> snd ` set ms" "d \<in> snd ` set ds" for m d
      using that ds by (intro before_disjoint) auto
    then show ?thesis unfolding dom_image_of set_map by blast
  qed
  then have "image_of bs (map snd ms) ++ image_of bs (map snd ds) = image_of bs (map snd ds) ++ image_of bs (map snd ms)"
    by (rule map_add_comm)
  then show ?thesis using ok unfolding ic unfolding ys by (simp add: image_of_append)
qed

text \<open>
  C30. \<open>backed_block_list_move\<close> takes a stretch of one list and puts it into another one: the stretch
  disappears from the first list and stands, unchanged and in order, behind the blocks of the second
  list that do not come after it. Both \<open>last_used\<close> pointers are cleared, no other node changes, and the
  second list stays ordered when the stretch does not begin before its first block; the images of
  the two lists together are what they were.\<close>

theorem backed_block_list_move_correct:
  assumes "bb_list h from (ls @ ms @ rs)" "bb_list h to ys" "ms \<noteq> []" "addrs (ls @ ms @ rs) \<inter> addrs ys = {}"
    and "start = first ms NULL \<or> start = NULL \<and> ls = []"
    and "end_bb = Some (fst (last ms)) \<or> end_bb = NULL \<and> rs = []"
    and "bs \<noteq> 0" "exts_ok bs (map snd (ls @ ms @ rs))" "exts_ok bs (map snd ys)"
    and "\<forall>y \<in> snd ` set ys. (\<forall>m \<in> snd ` set ms. before bs y m) \<or> (\<forall>m \<in> snd ` set ms. before bs m y)"
    and "ys \<noteq> [] \<longrightarrow> before bs (snd (hd ys)) (snd (hd ms))"
  shows "\<exists>from' to' h'. backed_block_list_move from to start end_bb h = Ret (from', to', h') \<and>
    bb_list h' from' (ls @ rs) \<and> bb_list h' to' (insert_cells ms ys) \<and>
    last_used from' = NULL \<and> last_used to' = NULL \<and>
    exts_ok bs (map snd (ls @ rs)) \<and> exts_ok bs (map snd (insert_cells ms ys)) \<and>
    image_of bs (map snd (insert_cells ms ys)) = image_of bs (map snd ys) ++ image_of bs (map snd ms) \<and>
    (\<forall>x. x \<notin> addrs (ls @ ms) \<union> addrs ys \<longrightarrow> nmap h' x = nmap h x)"
proof -
  have ok: "exts_ok bs (map snd (ls @ rs))" "exts_ok bs (map snd ms)"
    using assms(8) by (auto simp: exts_ok_def sorted_wrt_append)
  note ins = insert_cells_image [OF assms(7,3,9) ok(2) assms(10,11)]
  obtain from' to' h' where r: "backed_block_list_move from to start end_bb h = Ret (from', to', h')"
    "bb_list h' from' (ls @ rs)" "bb_list h' to' (insert_cells ms ys)"
    "last_used from' = NULL" "last_used to' = NULL"
    "\<forall>x. x \<notin> addrs (ls @ ms) \<union> addrs ys \<longrightarrow> nmap h' x = nmap h x"
    using move_run [OF assms(1-6)] by blast
  with ins ok(1) show ?thesis by blast
qed

definition demo_to :: backed_block_list where
  "demo_to = \<lparr>data_blocks = NULL, last_used = Some 9, bbl_block_size = 4096\<rparr>"

theorem backed_block_list_move_correct_witness:
  "\<exists>from' to' h'. backed_block_list_move demo_bbl demo_to NULL NULL demo_heap = Ret (from', to', h') \<and>
    bb_list h' from' [] \<and> bb_list h' to' [(1, demo_ext)] \<and> last_used to' = NULL"
proof -
  have "bb_list demo_heap demo_bbl ([] @ [(1, demo_ext)] @ [])" "bb_list demo_heap demo_to []"
    "exts_ok 4096 (map snd ([] @ [(1 :: addr, demo_ext)] @ []))"
    using demo_inv by (simp_all add: bbl_inv_def bb_list_def demo_to_def demo_bbl_def)
  from backed_block_list_move_correct [OF this(1,2) _ _ _ _ _ this(3), of NULL NULL]
  show ?thesis by (fastforce simp: insert_cells_def exts_ok_def)
qed

definition file_names :: "cell list \<Rightarrow> addr set" where
  "file_names xs = {n. \<exists>e \<in> snd ` set xs. \<exists>off. e_backing e = BB_File (Some n) off}"

lemma destroy_node_run:
  assumes "nmap h a = Some (mk_bb e q)" "names_ok h e"
  shows "\<exists>h'. backed_block_destroy (Some a) h = Ret h' \<and> nmap h' = (nmap h)(a := None) \<and>
    map_of (names h') = map_of (names h) |` (- file_names [(a, e)])"
  using assms
  by (auto simp: backed_block_destroy_def free_name_def free_node_def delete_conv' names_ok_def file_names_def
      restrict_map_def fun_eq_iff split: backing.splits option.splits)

lemma destroy_loop_run:
  assumes "path (nmap h) xs NULL" "distinct (map fst xs)" "unshared (map snd xs)" "\<forall>e \<in> snd ` set xs. names_ok h e"
  shows "\<exists>h'. destroy_loop (first xs NULL) h = Ret h' \<and> nmap h' = nmap h |` (- addrs xs) \<and>
    map_of (names h') = map_of (names h) |` (- file_names xs)"
  using assms
proof (induction xs arbitrary: h)
  case Nil
  then show ?case by (subst destroy_loop.simps) (simp add: file_names_def restrict_map_def)
next
  case (Cons c xs)
  obtain a e where c: "c = (a, e)" by (cases c)
  have a: "nmap h a = Some (mk_bb e (first xs NULL))" "names_ok h e" "a \<notin> addrs xs"
    using Cons.prems by (auto simp: c)
  obtain h1 where h1: "backed_block_destroy (Some a) h = Ret h1" "nmap h1 = (nmap h)(a := None)"
    "map_of (names h1) = map_of (names h) |` (- file_names [(a, e)])"
    using destroy_node_run [OF a(1,2)] by blast
  have "names_ok h1 f" if f: "f \<in> snd ` set xs" for f
  proof -
    have "names_ok h f" "\<not> shared_name e f" using Cons.prems(3,4) f by (auto simp: c)
    then show ?thesis by (auto simp: names_ok_def h1(3) file_names_def shared_name_def restrict_map_def)
  qed
  moreover have "path (nmap h1) xs NULL" "distinct (map fst xs)" "unshared (map snd xs)"
    using Cons.prems(1-3) a(3) unfolding h1(2) by (simp_all add: c)
  ultimately obtain h2 where h2: "destroy_loop (first xs NULL) h1 = Ret h2" "nmap h2 = nmap h1 |` (- addrs xs)"
    "map_of (names h2) = map_of (names h1) |` (- file_names xs)"
    using Cons.IH [of h1] by blast
  have "file_names (c # xs) = file_names [(a, e)] \<union> file_names xs" by (auto simp: file_names_def c)
  then have "nmap h2 = nmap h |` (- addrs (c # xs)) \<and> map_of (names h2) = map_of (names h) |` (- file_names (c # xs))"
    by (auto simp: h2(2,3) h1(2,3) c restrict_map_def fun_eq_iff)
  moreover have "destroy_loop (first (c # xs) NULL) h = Ret h2"
    using a(1) h1(1) h2(1) by (subst destroy_loop.simps) (simp add: c)
  ultimately show ?case by blast
qed

text \<open>
  C31. Destroying a well-formed list returns without fault: every node and every file name the list owns
  is freed exactly once, and nothing else is freed.\<close>

theorem backed_block_list_destroy_correct:
  assumes "bbl_inv h bbl xs"
  shows "\<exists>h'. backed_block_list_destroy bbl h = Ret h' \<and> nmap h' = nmap h |` (- addrs xs) \<and>
    map_of (names h') = map_of (names h) |` (- file_names xs)"
  using destroy_loop_run [of h xs] assms by (simp add: backed_block_list_destroy_def bbl_inv_def bb_list_def)

theorem backed_block_list_destroy_correct_witness:
  "\<exists>h'. backed_block_list_destroy demo_bbl demo_heap = Ret h' \<and> nmap h' = nmap demo_heap |` (- {1})"
  using backed_block_list_destroy_correct [OF demo_inv] by auto

text \<open>Queueing a file block, splitting it, and destroying the list.\<close>

definition split_file_block :: "bb_heap exec" where
  "split_file_block = do {
     bbl \<leftarrow> backed_block_list_new True 4096;
     (_, bbl, h) \<leftarrow> backed_block_add_file bump_alloc bbl ''system.img'' 0 12288 0 \<lparr>nodes = [], names = []\<rparr>;
     (_, h) \<leftarrow> backed_block_split bump_alloc bbl (data_blocks bbl) 4096 h;
     backed_block_list_destroy bbl h }"


end
