(* ===== verification/Sparse_Crc.thy ===== *)
theory Sparse_Crc
  imports C_Memory
begin

text \<open>
  The checksum of sparse images, \<open>core/libsparse/sparse_crc32.c\<close>: the table-driven CRC-32
  and its equivalence with the bit-serial definition for the polynomial \<open>0xEDB88320\<close>.
\<close>

unbundle bit_operations_syntax

definition crc32_tab :: "u32 list" where
  "crc32_tab = [
     0x00000000, 0x77073096, 0xee0e612c, 0x990951ba, 0x076dc419, 0x706af48f, 0xe963a535, 0x9e6495a3,
     0x0edb8832, 0x79dcb8a4, 0xe0d5e91e, 0x97d2d988, 0x09b64c2b, 0x7eb17cbd, 0xe7b82d07, 0x90bf1d91,
     0x1db71064, 0x6ab020f2, 0xf3b97148, 0x84be41de, 0x1adad47d, 0x6ddde4eb, 0xf4d4b551, 0x83d385c7,
     0x136c9856, 0x646ba8c0, 0xfd62f97a, 0x8a65c9ec, 0x14015c4f, 0x63066cd9, 0xfa0f3d63, 0x8d080df5,
     0x3b6e20c8, 0x4c69105e, 0xd56041e4, 0xa2677172, 0x3c03e4d1, 0x4b04d447, 0xd20d85fd, 0xa50ab56b,
     0x35b5a8fa, 0x42b2986c, 0xdbbbc9d6, 0xacbcf940, 0x32d86ce3, 0x45df5c75, 0xdcd60dcf, 0xabd13d59,
     0x26d930ac, 0x51de003a, 0xc8d75180, 0xbfd06116, 0x21b4f4b5, 0x56b3c423, 0xcfba9599, 0xb8bda50f,
     0x2802b89e, 0x5f058808, 0xc60cd9b2, 0xb10be924, 0x2f6f7c87, 0x58684c11, 0xc1611dab, 0xb6662d3d,
     0x76dc4190, 0x01db7106, 0x98d220bc, 0xefd5102a, 0x71b18589, 0x06b6b51f, 0x9fbfe4a5, 0xe8b8d433,
     0x7807c9a2, 0x0f00f934, 0x9609a88e, 0xe10e9818, 0x7f6a0dbb, 0x086d3d2d, 0x91646c97, 0xe6635c01,
     0x6b6b51f4, 0x1c6c6162, 0x856530d8, 0xf262004e, 0x6c0695ed, 0x1b01a57b, 0x8208f4c1, 0xf50fc457,
     0x65b0d9c6, 0x12b7e950, 0x8bbeb8ea, 0xfcb9887c, 0x62dd1ddf, 0x15da2d49, 0x8cd37cf3, 0xfbd44c65,
     0x4db26158, 0x3ab551ce, 0xa3bc0074, 0xd4bb30e2, 0x4adfa541, 0x3dd895d7, 0xa4d1c46d, 0xd3d6f4fb,
     0x4369e96a, 0x346ed9fc, 0xad678846, 0xda60b8d0, 0x44042d73, 0x33031de5, 0xaa0a4c5f, 0xdd0d7cc9,
     0x5005713c, 0x270241aa, 0xbe0b1010, 0xc90c2086, 0x5768b525, 0x206f85b3, 0xb966d409, 0xce61e49f,
     0x5edef90e, 0x29d9c998, 0xb0d09822, 0xc7d7a8b4, 0x59b33d17, 0x2eb40d81, 0xb7bd5c3b, 0xc0ba6cad,
     0xedb88320, 0x9abfb3b6, 0x03b6e20c, 0x74b1d29a, 0xead54739, 0x9dd277af, 0x04db2615, 0x73dc1683,
     0xe3630b12, 0x94643b84, 0x0d6d6a3e, 0x7a6a5aa8, 0xe40ecf0b, 0x9309ff9d, 0x0a00ae27, 0x7d079eb1,
     0xf00f9344, 0x8708a3d2, 0x1e01f268, 0x6906c2fe, 0xf762575d, 0x806567cb, 0x196c3671, 0x6e6b06e7,
     0xfed41b76, 0x89d32be0, 0x10da7a5a, 0x67dd4acc, 0xf9b9df6f, 0x8ebeeff9, 0x17b7be43, 0x60b08ed5,
     0xd6d6a3e8, 0xa1d1937e, 0x38d8c2c4, 0x4fdff252, 0xd1bb67f1, 0xa6bc5767, 0x3fb506dd, 0x48b2364b,
     0xd80d2bda, 0xaf0a1b4c, 0x36034af6, 0x41047a60, 0xdf60efc3, 0xa867df55, 0x316e8eef, 0x4669be79,
     0xcb61b38c, 0xbc66831a, 0x256fd2a0, 0x5268e236, 0xcc0c7795, 0xbb0b4703, 0x220216b9, 0x5505262f,
     0xc5ba3bbe, 0xb2bd0b28, 0x2bb45a92, 0x5cb36a04, 0xc2d7ffa7, 0xb5d0cf31, 0x2cd99e8b, 0x5bdeae1d,
     0x9b64c2b0, 0xec63f226, 0x756aa39c, 0x026d930a, 0x9c0906a9, 0xeb0e363f, 0x72076785, 0x05005713,
     0x95bf4a82, 0xe2b87a14, 0x7bb12bae, 0x0cb61b38, 0x92d28e9b, 0xe5d5be0d, 0x7cdcefb7, 0x0bdbdf21,
     0x86d3d2d4, 0xf1d4e242, 0x68ddb3f8, 0x1fda836e, 0x81be16cd, 0xf6b9265b, 0x6fb077e1, 0x18b74777,
     0x88085ae6, 0xff0f6a70, 0x66063bca, 0x11010b5c, 0x8f659eff, 0xf862ae69, 0x616bffd3, 0x166ccf45,
     0xa00ae278, 0xd70dd2ee, 0x4e048354, 0x3903b3c2, 0xa7672661, 0xd06016f7, 0x4969474d, 0x3e6e77db,
     0xaed16a4a, 0xd9d65adc, 0x40df0b66, 0x37d83bf0, 0xa9bcae53, 0xdebb9ec5, 0x47b2cf7f, 0x30b5ffe9,
     0xbdbdf21c, 0xcabac28a, 0x53b39330, 0x24b4a3a6, 0xbad03605, 0xcdd70693, 0x54de5729, 0x23d967bf,
     0xb3667a2e, 0xc4614ab8, 0x5d681b02, 0x2a6f2b94, 0xb40bbe37, 0xc30c8ea1, 0x5a05df1b, 0x2d02ef8d]"

text \<open>One turn of the loop of \<open>sparse_crc32\<close>, and the function.\<close>

definition crc32_step :: "u8 \<Rightarrow> u32 \<Rightarrow> u32" where
  "crc32_step p crc = crc32_tab ! unat ((crc XOR ucast p) AND 0xFF) XOR drop_bit 8 crc"

definition sparse_crc32 :: "u32 \<Rightarrow> u8 list \<Rightarrow> u32" where
  "sparse_crc32 crc_in buf = fold crc32_step buf (crc_in XOR NOT 0) XOR NOT 0"

section \<open>The bit-serial reference\<close>

definition crc_bit :: "u32 \<Rightarrow> u32" where
  "crc_bit c = (if bit c 0 then drop_bit 1 c XOR 0xEDB88320 else drop_bit 1 c)"

definition crc_byte :: "u8 \<Rightarrow> u32 \<Rightarrow> u32" where
  "crc_byte b c = (crc_bit ^^ 8) (c XOR ucast b)"

definition crc32_spec :: "u32 \<Rightarrow> u8 list \<Rightarrow> u32" where
  "crc32_spec crc_in buf = fold crc_byte buf (crc_in XOR NOT 0) XOR NOT 0"

lemma length_crc32_tab [simp]: "length crc32_tab = 256"
  by (simp add: crc32_tab_def)

section \<open>The table\<close>

text \<open>The CRC register is linear over exclusive or, so the table follows from its entries at the powers of two.\<close>

lemma crc_bit_xor: "crc_bit (a XOR b) = crc_bit a XOR crc_bit b"
  by (rule bit_word_eqI) (auto simp: crc_bit_def bit_simps)

lemma crc_bits_xor: "(crc_bit ^^ n) (a XOR b) = (crc_bit ^^ n) a XOR (crc_bit ^^ n) b"
  by (induction n) (simp_all add: crc_bit_xor)

fun span :: "u32 list \<Rightarrow> u32 list" where
  "span [] = [0]"
| "span (b # bs) = span bs @ map (\<lambda>t. t XOR b) (span bs)"

lemma crc32_tab_span:
  "crc32_tab = span [0xedb88320, 0x76dc4190, 0x3b6e20c8, 0x1db71064, 0x0edb8832, 0x076dc419, 0xee0e612c, 0x77073096]"
  by (simp add: crc32_tab_def)

lemma length_span: "length (span bs) = 2 ^ length bs"
  by (induction bs) simp_all

text \<open>Reading the basis from its last element: entry \<open>k\<close> belongs to bit \<open>k\<close>.\<close>

definition basis_ok :: "u32 list \<Rightarrow> bool" where
  "basis_ok bs \<longleftrightarrow> (\<forall>k < length bs. rev bs ! k = (crc_bit ^^ 8) (2 ^ k))"

lemma of_nat_add_power:
  assumes "i < 2 ^ k" "k < 32"
  shows "(of_nat (2 ^ k + i) :: u32) = of_nat i XOR 2 ^ k"
proof -
  have b: "bit (of_nat i :: u32) n \<longleftrightarrow> n < 32 \<and> bit i n" for n
    by (simp add: bit_simps)
  have hi: "\<not> bit i k" using assms(1) by (metis bit_take_bit_iff less_irrefl take_bit_nat_eq_self)
  have "(of_nat i :: u32) AND 2 ^ k = 0"
    by (rule bit_word_eqI) (use hi in \<open>auto simp: bit_simps b\<close>)
  then have "(of_nat i :: u32) + 2 ^ k = of_nat i XOR 2 ^ k" by (simp add: disjunctive_add_eq_xor)
  then show ?thesis by (simp add: add.commute)
qed

lemma span_nth:
  "basis_ok bs \<Longrightarrow> length bs \<le> 31 \<Longrightarrow> i < 2 ^ length bs \<Longrightarrow> span bs ! i = (crc_bit ^^ 8) (of_nat i)"
proof (induction bs arbitrary: i)
  case Nil
  have z: "(crc_bit ^^ n) 0 = 0" for n by (induction n) (simp_all add: crc_bit_def)
  from Nil z show ?case by simp
next
  case (Cons b bs)
  have ok: "basis_ok bs" using Cons.prems(1)
    by (auto simp: basis_ok_def nth_append) (metis less_SucI)
  have b: "b = (crc_bit ^^ 8) (2 ^ length bs)"
    using Cons.prems(1) by (auto simp: basis_ok_def nth_append dest: spec [of _ "length bs"])
  show ?case
  proof (cases "i < 2 ^ length bs")
    case True
    with Cons ok show ?thesis by (simp add: nth_append length_span)
  next
    case False
    define j where "j = i - 2 ^ length bs"
    have j: "j < 2 ^ length bs" "i = 2 ^ length bs + j" using False Cons.prems(3) by (simp_all add: j_def)
    have "span (b # bs) ! i = (crc_bit ^^ 8) (of_nat j) XOR b"
      using j Cons.IH [OF ok _ j(1)] Cons.prems(2) by (simp add: nth_append length_span)
    also have "\<dots> = (crc_bit ^^ 8) (of_nat j XOR 2 ^ length bs)" unfolding b by (simp add: crc_bits_xor)
    finally show ?thesis using of_nat_add_power [of j "length bs"] j Cons.prems(2) by simp
  qed
qed

lemma crc32_basis_ok:
  "basis_ok [0xedb88320, 0x76dc4190, 0x3b6e20c8, 0x1db71064, 0x0edb8832, 0x076dc419, 0xee0e612c, 0x77073096]"
proof -
  have "rev [0xedb88320, 0x76dc4190, 0x3b6e20c8, 0x1db71064, 0x0edb8832, 0x076dc419, 0xee0e612c, 0x77073096] =
      map (\<lambda>k. (crc_bit ^^ 8) (2 ^ k)) [0..<8]"
    by code_simp
  then show ?thesis by (simp add: basis_ok_def list_eq_iff_nth_eq del: rev.simps)
qed

lemma crc32_tab_nth: "i < 256 \<Longrightarrow> crc32_tab ! i = (crc_bit ^^ 8) (of_nat i)"
  unfolding crc32_tab_span using span_nth [OF crc32_basis_ok, of i] by simp

text \<open>Eight shifts of a register whose low byte is clear are a shift by eight.\<close>

lemma crc_bits_shift: "take_bit n c = 0 \<Longrightarrow> (crc_bit ^^ n) c = drop_bit n c"
proof (induction n arbitrary: c)
  case 0
  then show ?case by simp
next
  case (Suc n)
  have "bit (take_bit (Suc n) c) 0 \<longleftrightarrow> bit c 0" by (simp only: bit_take_bit_iff) simp
  then have "\<not> bit c 0" using Suc.prems by simp
  then have "crc_bit c = drop_bit 1 c" by (simp add: crc_bit_def bit_0)
  moreover have "take_bit n (drop_bit 1 c) = 0"
    using Suc.prems by (metis Suc_eq_plus1 drop_bit_0 drop_bit_take_bit diff_add_inverse2 drop_bit_of_0)
  ultimately show ?case using Suc.IH [of "drop_bit 1 c"] by (simp add: funpow_Suc_right del: funpow.simps)
qed

lemma crc32_step_byte: "crc32_step p crc = crc_byte p crc"
proof -
  define c where "c = crc XOR ucast p"
  define hi where "hi = c AND NOT 0xFF"
  define lo where "lo = c AND 0xFF"
  have m: "(0xFF :: u32) = mask 8" by (simp add: mask_eq_exp_minus_1)
  have c: "c = lo XOR hi" by (rule bit_word_eqI) (auto simp: lo_def hi_def bit_simps)
  have "unat lo = take_bit 8 (unat c)" by (simp add: lo_def m unsigned_take_bit_eq flip: take_bit_eq_mask)
  then have "unat lo < 256" using take_bit_nat_less_exp [of 8 "unat c"] by simp
  then have tab: "crc32_tab ! unat lo = (crc_bit ^^ 8) lo" by (simp add: crc32_tab_nth)
  have "take_bit 8 hi = 0" by (rule bit_word_eqI) (auto simp: hi_def m bit_simps)
  then have "(crc_bit ^^ 8) hi = drop_bit 8 hi" by (rule crc_bits_shift)
  also have "drop_bit 8 hi = drop_bit 8 crc"
    by (rule bit_word_eqI) (auto simp: hi_def c_def m bit_simps dest: bit_imp_le_length)
  finally show ?thesis
    by (simp add: crc32_step_def crc_byte_def crc_bits_xor tab flip: c_def lo_def) (simp add: c crc_bits_xor)
qed

lemma sparse_crc32_append: "sparse_crc32 crc (as @ bs) = sparse_crc32 (sparse_crc32 crc as) bs"
  by (simp add: sparse_crc32_def xor.assoc)

text \<open>
  C27. The table driven CRC of \<open>sparse_crc32\<close> computes the bit-serial reflected CRC-32 with polynomial
  0xEDB88320 for every initial value and every buffer, and it can be computed piecewise: the checksum
  of a concatenation is the checksum of the second part started from the checksum of the first one.\<close>

theorem sparse_crc32_correct:
  "sparse_crc32 crc buf = crc32_spec crc buf \<and>
   sparse_crc32 crc (as @ bs) = sparse_crc32 (sparse_crc32 crc as) bs"
proof -
  have "crc32_step = crc_byte" by (intro ext) (rule crc32_step_byte)
  then show ?thesis by (simp add: sparse_crc32_append) (simp add: sparse_crc32_def crc32_spec_def)
qed

end
