(* ===== verification/Output_File.thy ===== *)
theory Output_File
  imports Backed_Block Sparse_Crc "HOL-Library.Signed_Division"
begin

text \<open>
  The writer of sparse and of plain images, \<open>core/libsparse/output_file.c\<close>, and the layout of
  \<open>sparse_format.h\<close>. An output file has two tables of functions: the operations of the medium
  (descriptor, gzip stream or callback), which are the argument \<open>ops\<close> of the writer, and the format
  (sparse or plain). System calls and zlib are parameters. Quantities of type \<open>int64_t\<close> are integers,
  32-bit ones are words.
\<close>

section \<open>The format\<close>

record sparse_header =
  magic :: u32
  major_version :: u16
  minor_version :: u16
  file_hdr_sz :: u16
  chunk_hdr_sz :: u16
  blk_sz :: u32
  total_blks :: u32
  total_chunks :: u32
  image_checksum :: u32

record chunk_header =
  chunk_type :: u16
  reserved1 :: u16
  chunk_sz :: u32
  total_sz :: u32

definition SPARSE_HEADER_MAGIC :: u32 where
  "SPARSE_HEADER_MAGIC = 0xed26ff3a"

definition CHUNK_TYPE_RAW :: u16 where
  "CHUNK_TYPE_RAW = 0xCAC1"

definition CHUNK_TYPE_FILL :: u16 where
  "CHUNK_TYPE_FILL = 0xCAC2"

definition CHUNK_TYPE_DONT_CARE :: u16 where
  "CHUNK_TYPE_DONT_CARE = 0xCAC3"

definition CHUNK_TYPE_CRC32 :: u16 where
  "CHUNK_TYPE_CRC32 = 0xCAC4"

definition SPARSE_HEADER_MAJOR_VER :: u16 where
  "SPARSE_HEADER_MAJOR_VER = 1"

definition SPARSE_HEADER_MINOR_VER :: u16 where
  "SPARSE_HEADER_MINOR_VER = 0"

definition SPARSE_HEADER_LEN :: nat where
  "SPARSE_HEADER_LEN = 28"

definition CHUNK_HEADER_LEN :: nat where
  "CHUNK_HEADER_LEN = 12"

text \<open>The memory image of the headers.\<close>

definition sparse_header_bytes :: "sparse_header \<Rightarrow> u8 list" where
  "sparse_header_bytes s = le32 (magic s) @ le16 (major_version s) @ le16 (minor_version s) @
     le16 (file_hdr_sz s) @ le16 (chunk_hdr_sz s) @ le32 (blk_sz s) @ le32 (total_blks s) @
     le32 (total_chunks s) @ le32 (image_checksum s)"

definition sparse_header_of :: "u8 list \<Rightarrow> sparse_header" where
  "sparse_header_of bs = \<lparr>magic = of_le32 bs, major_version = of_le16 (drop 4 bs), minor_version = of_le16 (drop 6 bs),
     file_hdr_sz = of_le16 (drop 8 bs), chunk_hdr_sz = of_le16 (drop 10 bs), blk_sz = of_le32 (drop 12 bs),
     total_blks = of_le32 (drop 16 bs), total_chunks = of_le32 (drop 20 bs), image_checksum = of_le32 (drop 24 bs)\<rparr>"

definition chunk_header_bytes :: "chunk_header \<Rightarrow> u8 list" where
  "chunk_header_bytes c = le16 (chunk_type c) @ le16 (reserved1 c) @ le32 (chunk_sz c) @ le32 (total_sz c)"

definition chunk_header_of :: "u8 list \<Rightarrow> chunk_header" where
  "chunk_header_of bs = \<lparr>chunk_type = of_le16 bs, reserved1 = of_le16 (drop 2 bs), chunk_sz = of_le32 (drop 4 bs),
     total_sz = of_le32 (drop 8 bs)\<rparr>"

lemma length_sparse_header_bytes [simp]: "length (sparse_header_bytes s) = 28"
  by (simp add: sparse_header_bytes_def)

lemma length_chunk_header_bytes [simp]: "length (chunk_header_bytes c) = 12"
  by (simp add: chunk_header_bytes_def)

lemma sparse_header_of_bytes [simp]: "sparse_header_of (sparse_header_bytes s) = s"
  by (simp add: sparse_header_of_def sparse_header_bytes_def drop_append)

lemma chunk_header_of_bytes [simp]: "chunk_header_of (chunk_header_bytes c) = c"
  by (simp add: chunk_header_of_def chunk_header_bytes_def drop_append)

section \<open>Media\<close>

record 's output_file_ops =
  ops_skip :: "int \<Rightarrow> 's \<Rightarrow> int \<times> 's"
  ops_pad :: "int \<Rightarrow> 's \<Rightarrow> int \<times> 's"
  ops_write :: "u8 list \<Rightarrow> 's \<Rightarrow> int \<times> 's"

text \<open>The length argument of the \<open>write\<close> operations has type \<open>int\<close>.\<close>

definition int_len :: "u8 list \<Rightarrow> int" where
  "int_len data = sint (of_nat (length data) :: u32)"

text \<open>System calls on the open descriptor: \<open>lseek64\<close> with \<open>SEEK_CUR\<close>, \<open>ftruncate64\<close>, \<open>write\<close> and \<open>errno\<close>.\<close>

record 's os_calls =
  os_lseek :: "int \<Rightarrow> 's \<Rightarrow> int \<times> 's"
  os_ftruncate :: "int \<Rightarrow> 's \<Rightarrow> int \<times> 's"
  os_write :: "u8 list \<Rightarrow> 's \<Rightarrow> int \<times> 's"
  os_errno :: "'s \<Rightarrow> int"

definition file_skip :: "'s os_calls \<Rightarrow> int \<Rightarrow> 's \<Rightarrow> int \<times> 's" where
  "file_skip os cnt s = (let (ret, s) = os_lseek os cnt s in if ret < 0 then (-1, s) else (0, s))"

definition file_pad :: "'s os_calls \<Rightarrow> int \<Rightarrow> 's \<Rightarrow> int \<times> 's" where
  "file_pad os len s = (let (ret, s) = os_ftruncate os len s in if ret < 0 then (- os_errno os s, s) else (0, s))"

definition file_write :: "'s os_calls \<Rightarrow> u8 list \<Rightarrow> 's \<Rightarrow> int \<times> 's" where
  "file_write os data s =
     (let (ret, s) = os_write os data s
      in if ret < 0 then (-1, s) else if ret < int_len data then (-1, s) else (0, s))"

definition file_ops :: "'s os_calls \<Rightarrow> 's output_file_ops" where
  "file_ops os = \<lparr>ops_skip = file_skip os, ops_pad = file_pad os, ops_write = file_write os\<rparr>"

text \<open>The functions of zlib: \<open>gzseek\<close> from the current position and from the start, \<open>gztell\<close>, \<open>gzwrite\<close>.\<close>

record 's zlib =
  gzseek_cur :: "int \<Rightarrow> 's \<Rightarrow> int \<times> 's"
  gzseek_set :: "int \<Rightarrow> 's \<Rightarrow> int \<times> 's"
  gztell :: "'s \<Rightarrow> int"
  gzwrite :: "u8 list \<Rightarrow> 's \<Rightarrow> int \<times> 's"

definition gz_file_skip :: "'s zlib \<Rightarrow> int \<Rightarrow> 's \<Rightarrow> int \<times> 's" where
  "gz_file_skip z cnt s = (let (ret, s) = gzseek_cur z cnt s in if ret < 0 then (-1, s) else (0, s))"

definition gz_file_pad :: "'s zlib \<Rightarrow> int \<Rightarrow> 's \<Rightarrow> int \<times> 's" where
  "gz_file_pad z len s =
     (let ret = gztell z s
      in if ret < 0 then (-1, s)
         else if ret \<ge> len then (0, s)
         else (let (ret, s) = gzseek_set z (len - 1) s
               in if ret < 0 then (-1, s) else (let (_, s) = gzwrite z [0] s in (0, s))))"

definition gz_file_write :: "'s zlib \<Rightarrow> u8 list \<Rightarrow> 's \<Rightarrow> int \<times> 's" where
  "gz_file_write z data s =
     (let (ret, s) = gzwrite z data s
      in if ret < 0 then (-1, s) else if ret < int_len data then (-1, s) else (0, s))"

definition gz_file_ops :: "'s zlib \<Rightarrow> 's output_file_ops" where
  "gz_file_ops z = \<lparr>ops_skip = gz_file_skip z, ops_pad = gz_file_pad z, ops_write = gz_file_write z\<rparr>"

text \<open>A callback gets the bytes, or \<open>NULL\<close> for a range that is skipped, and the length.\<close>

type_synonym 's write_callback = "u8 list ptr \<Rightarrow> int \<Rightarrow> 's \<Rightarrow> int \<times> 's"

definition INT_MAX :: int where
  "INT_MAX = 2147483647"

function callback_file_skip :: "'s write_callback \<Rightarrow> int \<Rightarrow> 's \<Rightarrow> int \<times> 's" where
  "callback_file_skip cb off s =
     (if off > 0 then
        (let to_write = min off INT_MAX; (ret, s) = cb NULL to_write s
         in if ret < 0 then (ret, s) else callback_file_skip cb (off - to_write) s)
      else (0, s))"
  by auto
termination
  by (relation "measure (\<lambda>(cb, off, s). nat off)") (auto simp: INT_MAX_def)

definition callback_file_pad :: "int \<Rightarrow> 's \<Rightarrow> int \<times> 's" where
  "callback_file_pad len s = (-1, s)"

definition callback_file_write :: "'s write_callback \<Rightarrow> u8 list \<Rightarrow> 's \<Rightarrow> int \<times> 's" where
  "callback_file_write cb data s = cb (Some data) (int_len data) s"

definition callback_file_ops :: "'s write_callback \<Rightarrow> 's output_file_ops" where
  "callback_file_ops cb = \<lparr>ops_skip = callback_file_skip cb, ops_pad = callback_file_pad, ops_write = callback_file_write cb\<rparr>"

declare callback_file_skip.simps [simp del]

section \<open>Output files\<close>

datatype sparse_file_ops = sparse_ops | normal_ops

record 's output_file =
  cur_out_ptr :: int
  chunk_cnt :: u32
  crc32 :: u32
  sparse_format :: sparse_file_ops
  use_crc :: bool
  out_block_size :: u32
  out_len :: int
  zero_buf :: "u8 list"
  fill_buf :: "u8 list"
  sink :: 's

text \<open>\<open>out->ops->write(out, data, len)\<close>: the bytes handed over must lie in the buffer.\<close>

definition out_write ::
    "'s output_file_ops \<Rightarrow> u8 list \<Rightarrow> u32 \<Rightarrow> 's output_file \<Rightarrow> (int \<times> 's output_file) exec" where
  "out_write ops data len out = do {
     bytes \<leftarrow> read_at 0 (unat len) data;
     let (ret, s) = ops_write ops bytes (sink out);
     Ret (ret, out\<lparr>sink := s\<rparr>) }"

definition out_skip :: "'s output_file_ops \<Rightarrow> int \<Rightarrow> 's output_file \<Rightarrow> int \<times> 's output_file" where
  "out_skip ops len out = (let (ret, s) = ops_skip ops len (sink out) in (ret, out\<lparr>sink := s\<rparr>))"

section \<open>Chunks of sparse images\<close>

definition write_sparse_skip_chunk ::
    "'s output_file_ops \<Rightarrow> int \<Rightarrow> 's output_file \<Rightarrow> (int \<times> 's output_file) exec" where
  "write_sparse_skip_chunk ops skip_len out =
     (if out_block_size out = 0 then Fault
      else if skip_len smod uint (out_block_size out) \<noteq> 0 then Ret (-1, out)
      else do {
        let hdr = \<lparr>chunk_type = CHUNK_TYPE_DONT_CARE, reserved1 = 0,
                   chunk_sz = of_int (skip_len sdiv uint (out_block_size out)), total_sz = of_nat CHUNK_HEADER_LEN\<rparr>;
        (ret, out) \<leftarrow> out_write ops (chunk_header_bytes hdr) 12 out;
        if ret < 0 then Ret (-1, out)
        else Ret (0, out\<lparr>cur_out_ptr := cur_out_ptr out + skip_len, chunk_cnt := chunk_cnt out + 1\<rparr>) })"

text \<open>The checksum of a fill chunk: \<open>block_size / 4\<close> copies of the value, whatever the length of the chunk.\<close>

definition fill_crc :: "u32 \<Rightarrow> u32 \<Rightarrow> u32 \<Rightarrow> u32" where
  "fill_crc block_size fill_val crc =
     ((\<lambda>c. sparse_crc32 c (le32 fill_val)) ^^ unat (block_size div 4)) crc"

definition write_sparse_fill_chunk ::
    "'s output_file_ops \<Rightarrow> u32 \<Rightarrow> u32 \<Rightarrow> 's output_file \<Rightarrow> (int \<times> 's output_file) exec" where
  "write_sparse_fill_chunk ops len fill_val out = do {
     rnd_up_len \<leftarrow> ALIGN len (out_block_size out);
     sz \<leftarrow> udiv rnd_up_len (out_block_size out);
     let hdr = \<lparr>chunk_type = CHUNK_TYPE_FILL, reserved1 = 0, chunk_sz = sz, total_sz = of_nat CHUNK_HEADER_LEN + 4\<rparr>;
     (ret, out) \<leftarrow> out_write ops (chunk_header_bytes hdr) 12 out;
     if ret < 0 then Ret (-1, out)
     else do {
       (ret, out) \<leftarrow> out_write ops (le32 fill_val) 4 out;
       if ret < 0 then Ret (-1, out)
       else do {
         let out = (if use_crc out then out\<lparr>crc32 := fill_crc (out_block_size out) fill_val (crc32 out)\<rparr> else out);
         Ret (0, out\<lparr>cur_out_ptr := cur_out_ptr out + sint rnd_up_len, chunk_cnt := chunk_cnt out + 1\<rparr>) } } }"

definition write_sparse_data_chunk ::
    "'s output_file_ops \<Rightarrow> u32 \<Rightarrow> u8 list \<Rightarrow> 's output_file \<Rightarrow> (int \<times> 's output_file) exec" where
  "write_sparse_data_chunk ops len data out = do {
     rnd_up_len \<leftarrow> ALIGN len (out_block_size out);
     let zero_len = rnd_up_len - len;
     sz \<leftarrow> udiv rnd_up_len (out_block_size out);
     let hdr = \<lparr>chunk_type = CHUNK_TYPE_RAW, reserved1 = 0, chunk_sz = sz, total_sz = of_nat CHUNK_HEADER_LEN + rnd_up_len\<rparr>;
     (ret, out) \<leftarrow> out_write ops (chunk_header_bytes hdr) 12 out;
     if ret < 0 then Ret (-1, out)
     else do {
       (ret, out) \<leftarrow> out_write ops data len out;
       if ret < 0 then Ret (-1, out)
       else do {
         (ret, out) \<leftarrow> (if zero_len \<noteq> 0 then out_write ops (zero_buf out) zero_len out else Ret (0, out));
         if ret < 0 then Ret (-1, out)
         else do {
           out \<leftarrow> (if use_crc out then do {
                     d \<leftarrow> read_at 0 (unat len) data;
                     z \<leftarrow> read_at 0 (unat zero_len) (zero_buf out);
                     let crc = sparse_crc32 (crc32 out) d;
                     Ret (out\<lparr>crc32 := (if zero_len \<noteq> 0 then sparse_crc32 crc z else crc)\<rparr>) }
                   else Ret out);
           Ret (0, out\<lparr>cur_out_ptr := cur_out_ptr out + sint rnd_up_len, chunk_cnt := chunk_cnt out + 1\<rparr>) } } } }"

text \<open>The result of the second write of the end chunk is not looked at.\<close>

definition write_sparse_end_chunk :: "'s output_file_ops \<Rightarrow> 's output_file \<Rightarrow> (int \<times> 's output_file) exec" where
  "write_sparse_end_chunk ops out =
     (if use_crc out then do {
        let hdr = \<lparr>chunk_type = CHUNK_TYPE_CRC32, reserved1 = 0, chunk_sz = 0, total_sz = of_nat CHUNK_HEADER_LEN + 4\<rparr>;
        (ret, out) \<leftarrow> out_write ops (chunk_header_bytes hdr) 12 out;
        if ret < 0 then Ret (ret, out)
        else do {
          (_, out) \<leftarrow> out_write ops (le32 (crc32 out)) 4 out;
          Ret (0, out\<lparr>chunk_cnt := chunk_cnt out + 1\<rparr>) } }
      else Ret (0, out))"

section \<open>Plain images\<close>

definition write_normal_data_chunk ::
    "'s output_file_ops \<Rightarrow> u32 \<Rightarrow> u8 list \<Rightarrow> 's output_file \<Rightarrow> (int \<times> 's output_file) exec" where
  "write_normal_data_chunk ops len data out = do {
     rnd_up_len \<leftarrow> ALIGN len (out_block_size out);
     (ret, out) \<leftarrow> out_write ops data len out;
     if ret < 0 then Ret (ret, out)
     else if rnd_up_len > len then Ret (out_skip ops (uint (rnd_up_len - len)) out)
     else Ret (ret, out) }"

partial_function (option) normal_fill_loop ::
    "'s output_file_ops \<Rightarrow> u32 \<Rightarrow> 's output_file \<Rightarrow> (int \<times> 's output_file) exec" where
  [code]: "normal_fill_loop ops len out =
     (if len = 0 then Ret (0, out)
      else do {
        let write_len = min len (out_block_size out);
        (ret, out) \<leftarrow> out_write ops (fill_buf out) write_len out;
        if ret < 0 then Ret (ret, out) else normal_fill_loop ops (len - write_len) out })"

definition write_normal_fill_chunk ::
    "'s output_file_ops \<Rightarrow> u32 \<Rightarrow> u32 \<Rightarrow> 's output_file \<Rightarrow> (int \<times> 's output_file) exec" where
  "write_normal_fill_chunk ops len fill_val out = do {
     buf \<leftarrow> write_at 0 (concat (replicate (unat (out_block_size out div 4)) (le32 fill_val))) (fill_buf out);
     normal_fill_loop ops len (out\<lparr>fill_buf := buf\<rparr>) }"

definition write_normal_skip_chunk ::
    "'s output_file_ops \<Rightarrow> int \<Rightarrow> 's output_file \<Rightarrow> (int \<times> 's output_file) exec" where
  "write_normal_skip_chunk ops len out = Ret (out_skip ops len out)"

definition write_normal_end_chunk :: "'s output_file_ops \<Rightarrow> 's output_file \<Rightarrow> (int \<times> 's output_file) exec" where
  "write_normal_end_chunk ops out = (let (ret, s) = ops_pad ops (out_len out) (sink out) in Ret (ret, out\<lparr>sink := s\<rparr>))"

section \<open>Opening and closing\<close>

text \<open>\<open>mem_ok\<close> tells whether \<open>calloc\<close> gives the two buffers. \<open>out->len / out->block_size\<close> is a division of
  64-bit values cut to 32 bits.\<close>

definition output_file_init ::
    "'s output_file_ops \<Rightarrow> bool \<Rightarrow> bool \<Rightarrow> 's \<Rightarrow> u32 \<Rightarrow> int \<Rightarrow> bool \<Rightarrow> u32 \<Rightarrow> bool \<Rightarrow> (int \<times> 's output_file ptr) exec" where
  "output_file_init ops zero_ok fill_ok s block_size len sparse chunks crc =
     (if \<not> zero_ok \<or> \<not> fill_ok then Ret (- ENOMEM, NULL)
      else do {
        let out = \<lparr>cur_out_ptr = 0, chunk_cnt = 0, crc32 = 0, sparse_format = (if sparse then sparse_ops else normal_ops),
                   use_crc = crc, out_block_size = block_size, out_len = len,
                   zero_buf = replicate (unat block_size) 0, fill_buf = replicate (unat block_size) 0, sink = s\<rparr>;
        if sparse then do {
          if block_size = 0 then Fault
          else do {
            let hdr = \<lparr>magic = SPARSE_HEADER_MAGIC, major_version = SPARSE_HEADER_MAJOR_VER,
                       minor_version = SPARSE_HEADER_MINOR_VER, file_hdr_sz = of_nat SPARSE_HEADER_LEN,
                       chunk_hdr_sz = of_nat CHUNK_HEADER_LEN, blk_sz = block_size,
                       total_blks = of_int (len sdiv uint block_size),
                       total_chunks = (if crc then chunks + 1 else chunks), image_checksum = 0\<rparr>;
            (ret, out) \<leftarrow> out_write ops (sparse_header_bytes hdr) 28 out;
            if ret < 0 then Ret (ret, NULL) else Ret (0, Some out) } }
        else Ret (0, Some out) })"

text \<open>The allocation outcomes of \<open>output_file_open_callback\<close>: the structure and the two buffers.\<close>

definition output_file_open_callback ::
    "bool \<times> bool \<times> bool \<Rightarrow> 's write_callback \<Rightarrow> 's \<Rightarrow> u32 \<Rightarrow> int \<Rightarrow> bool \<Rightarrow> u32 \<Rightarrow> bool \<Rightarrow> 's output_file ptr exec" where
  "output_file_open_callback mem cb priv block_size len sparse chunks crc =
     (let (outc_ok, zero_ok, fill_ok) = mem
      in if \<not> outc_ok then Ret NULL
         else do {
           (ret, out) \<leftarrow> output_file_init (callback_file_ops cb) zero_ok fill_ok priv block_size len sparse chunks crc;
           Ret (if ret < 0 then NULL else out) })"

text \<open>Neither the allocation of the structure nor the result of \<open>open\<close> is checked here: a failed
  allocation faults.\<close>

definition output_file_open_fd ::
    "bool \<times> bool \<times> bool \<Rightarrow> 's output_file_ops \<Rightarrow> 's \<Rightarrow> u32 \<Rightarrow> int \<Rightarrow> bool \<Rightarrow> u32 \<Rightarrow> bool \<Rightarrow> 's output_file ptr exec" where
  "output_file_open_fd mem ops fd block_size len sparse chunks crc =
     (let (out_ok, zero_ok, fill_ok) = mem
      in if \<not> out_ok then Fault
         else do {
           (ret, out) \<leftarrow> output_file_init ops zero_ok fill_ok fd block_size len sparse chunks crc;
           Ret (if ret < 0 then NULL else out) })"

section \<open>Dispatch on the format\<close>

definition write_data_chunk ::
    "'s output_file_ops \<Rightarrow> u32 \<Rightarrow> u8 list \<Rightarrow> 's output_file \<Rightarrow> (int \<times> 's output_file) exec" where
  "write_data_chunk ops len data out = (case sparse_format out of
     sparse_ops \<Rightarrow> write_sparse_data_chunk ops len data out
   | normal_ops \<Rightarrow> write_normal_data_chunk ops len data out)"

definition write_fill_chunk ::
    "'s output_file_ops \<Rightarrow> u32 \<Rightarrow> u32 \<Rightarrow> 's output_file \<Rightarrow> (int \<times> 's output_file) exec" where
  "write_fill_chunk ops len fill_val out = (case sparse_format out of
     sparse_ops \<Rightarrow> write_sparse_fill_chunk ops len fill_val out
   | normal_ops \<Rightarrow> write_normal_fill_chunk ops len fill_val out)"

definition write_skip_chunk ::
    "'s output_file_ops \<Rightarrow> int \<Rightarrow> 's output_file \<Rightarrow> (int \<times> 's output_file) exec" where
  "write_skip_chunk ops len out = (case sparse_format out of
     sparse_ops \<Rightarrow> write_sparse_skip_chunk ops len out
   | normal_ops \<Rightarrow> write_normal_skip_chunk ops len out)"

definition output_file_close :: "'s output_file_ops \<Rightarrow> 's output_file \<Rightarrow> 's exec" where
  "output_file_close ops out = do {
     (_, out) \<leftarrow> (case sparse_format out of
        sparse_ops \<Rightarrow> write_sparse_end_chunk ops out
      | normal_ops \<Rightarrow> write_normal_end_chunk ops out);
     Ret (sink out) }"

text \<open>
  Files that blocks refer to: the contents of the open descriptors, the descriptors \<open>open\<close> gives for
  path names, and the error number of a failed call. \<open>mmap64\<close> gives the bytes from the offset on,
  filled up with zeros to the end of a page; reading past that is a fault.
\<close>

record file_env =
  fd_content :: "int \<Rightarrow> u8 list option"
  path_open :: "string \<Rightarrow> int option"
  env_errno :: int

definition page_fill :: "u8 list \<Rightarrow> u8 list" where
  "page_fill c = c @ replicate ((4096 - length c mod 4096) mod 4096) 0"

definition mmap64 :: "file_env \<Rightarrow> u32 \<Rightarrow> int \<Rightarrow> i64 \<Rightarrow> u8 list option" where
  "mmap64 env n fd off = (case fd_content env fd of
     None \<Rightarrow> None
   | Some c \<Rightarrow> (if n = 0 \<or> sint off < 0 then None else Some (drop (unat off) (page_fill c))))"

definition write_fd_chunk ::
    "'s output_file_ops \<Rightarrow> file_env \<Rightarrow> u32 \<Rightarrow> int \<Rightarrow> i64 \<Rightarrow> 's output_file \<Rightarrow> (int \<times> 's output_file) exec" where
  "write_fd_chunk ops env len fd offset out =
     (let aligned_offset = offset AND NOT (4096 - 1);
          aligned_diff = ucast (offset - aligned_offset) :: u32;
          buffer_size = len + aligned_diff
      in case mmap64 env buffer_size fd aligned_offset of
           None \<Rightarrow> Ret (- env_errno env, out)
         | Some data \<Rightarrow> write_data_chunk ops len (drop (unat aligned_diff) data) out)"

definition write_file_chunk ::
    "'s output_file_ops \<Rightarrow> file_env \<Rightarrow> u32 \<Rightarrow> string ptr \<Rightarrow> i64 \<Rightarrow> 's output_file \<Rightarrow> (int \<times> 's output_file) exec" where
  "write_file_chunk ops env len file offset out =
     (case Option.bind file (path_open env) of
        None \<Rightarrow> Ret (- env_errno env, out)
      | Some fd \<Rightarrow> write_fd_chunk ops env len fd offset out)"

section \<open>Sinks\<close>

text \<open>
  What the writer relies on: a medium that accepts every write and whose observable contents change
  by the bytes written. The observation may be the contents or only their length.
\<close>

locale write_sink =
  fixes ops :: "'s output_file_ops"
    and good :: "'s \<Rightarrow> bool"
    and obs :: "'s \<Rightarrow> 'o"
    and step :: "u8 list \<Rightarrow> 'o \<Rightarrow> 'o"
  assumes accepts: "good s \<Longrightarrow> length d < 2 ^ 31 \<Longrightarrow> \<exists>s'. ops_write ops d s = (0, s') \<and> good s' \<and> obs s' = step d (obs s)"
    and step_append: "step (a @ b) v = step b (step a v)"
    and step_Nil: "step [] v = v"

lemma round_up_run:
  assumes "bs \<noteq> 0" "unat len + unat bs < 2 ^ 32"
  obtains n where "DIV_ROUND_UP len bs = Ret n" "ALIGN len bs = Ret (bs * n)" "udiv (bs * n) bs = Ret n"
    "unat n = (unat len + unat bs - 1) div unat bs" "unat (bs * n) = unat n * unat bs" "unat len \<le> unat (bs * n)"
    "unat (bs * n) < unat len + unat bs"
proof -
  have b0: "0 < unat bs" using assms(1) by (simp add: unat_gt_0)
  have one: "unat (1 :: u32) \<le> unat (len + bs)" using assms b0 by (simp add: unat_add_u32)
  have "unat (len + bs - 1) = unat len + unat bs - 1"
    using assms b0 one by (simp add: unat_sub_u32 unat_add_u32)
  then have n: "unat ((len + bs - 1) div bs) = (unat len + unat bs - 1) div unat bs" by (simp add: unat_div)
  define n where "n = (len + bs - 1) div bs"
  note d = div_round_up_bounds [OF b0, of "unat len"]
  have u: "unat (bs * n) = unat n * unat bs"
    using d(2) assms(2) by (simp add: unat_mult_u32 n_def n mult.commute)
  then have "unat (bs * n div bs) = unat n" using b0 by (simp add: unat_div)
  then have "bs * n div bs = n" by (simp add: word_unat_eq_iff)
  then show thesis
    using assms(1) d n u by (intro that [of n]) (simp_all add: DIV_ROUND_UP_def ALIGN_def udiv_def n_def)
qed

lemma uint_pos: "bs \<noteq> 0 \<Longrightarrow> 0 < uint (bs :: u32)"
  using word_less_def [of 0 bs] by (simp add: word_gt_0)

lemma sdiv_nonneg: "0 \<le> a \<Longrightarrow> 0 < b \<Longrightarrow> (a :: int) sdiv b = a div b"
  by (simp add: signed_divide_int_def sgn_if)

text \<open>The bytes of the chunks.\<close>

definition skip_chunk_bytes :: "nat \<Rightarrow> u8 list" where
  "skip_chunk_bytes n = chunk_header_bytes \<lparr>chunk_type = CHUNK_TYPE_DONT_CARE, reserved1 = 0, chunk_sz = of_nat n, total_sz = 12\<rparr>"

definition fill_chunk_bytes :: "nat \<Rightarrow> u32 \<Rightarrow> u8 list" where
  "fill_chunk_bytes n v = chunk_header_bytes \<lparr>chunk_type = CHUNK_TYPE_FILL, reserved1 = 0, chunk_sz = of_nat n, total_sz = 16\<rparr> @ le32 v"

definition raw_chunk_bytes :: "nat \<Rightarrow> u8 list \<Rightarrow> u8 list" where
  "raw_chunk_bytes n d = chunk_header_bytes \<lparr>chunk_type = CHUNK_TYPE_RAW, reserved1 = 0, chunk_sz = of_nat n,
     total_sz = 12 + of_nat (length d)\<rparr> @ d"

definition crc_chunk_bytes :: "u32 \<Rightarrow> u8 list" where
  "crc_chunk_bytes c = chunk_header_bytes \<lparr>chunk_type = CHUNK_TYPE_CRC32, reserved1 = 0, chunk_sz = 0, total_sz = 16\<rparr> @ le32 c"

definition image_header :: "u32 \<Rightarrow> int \<Rightarrow> u32 \<Rightarrow> sparse_header" where
  "image_header bs len chunks = \<lparr>magic = SPARSE_HEADER_MAGIC, major_version = 1, minor_version = 0, file_hdr_sz = 28,
     chunk_hdr_sz = 12, blk_sz = bs, total_blks = of_int (len sdiv uint bs), total_chunks = chunks, image_checksum = 0\<rparr>"

text \<open>What a chunk leaves unchanged.\<close>

definition same_conf :: "'s output_file \<Rightarrow> 's output_file \<Rightarrow> bool" where
  "same_conf out out' \<longleftrightarrow> sparse_format out' = sparse_format out \<and> use_crc out' = use_crc out \<and>
     out_block_size out' = out_block_size out \<and> out_len out' = out_len out \<and> zero_buf out' = zero_buf out"

definition writer_ok :: "u32 \<Rightarrow> 's output_file \<Rightarrow> bool" where
  "writer_ok bs out \<longleftrightarrow> bs \<noteq> 0 \<and> out_block_size out = bs \<and> zero_buf out = replicate (unat bs) 0 \<and> sparse_format out = sparse_ops"

lemma writer_ok_conf: "writer_ok bs out \<Longrightarrow> same_conf out out' \<Longrightarrow> writer_ok bs out'"
  by (simp add: writer_ok_def same_conf_def)

lemma same_conf_trans: "same_conf a b \<Longrightarrow> same_conf b c \<Longrightarrow> same_conf a c"
  by (simp add: same_conf_def)

context write_sink
begin

text \<open>What a successful operation of the writer does with the medium.\<close>

definition emits :: "u8 list \<Rightarrow> 's output_file \<Rightarrow> 's output_file \<Rightarrow> bool" where
  "emits bytes out out' \<longleftrightarrow> same_conf out out' \<and> good (sink out') \<and> obs (sink out') = step bytes (obs (sink out))"

lemma emits_trans: "emits a x y \<Longrightarrow> emits b y z \<Longrightarrow> emits (a @ b) x z"
  by (auto simp: emits_def step_append intro: same_conf_trans)

lemma out_write_run:
  assumes "good (sink out)" "unat len \<le> length data" "unat len < 2 ^ 31"
  obtains s' where "out_write ops data len out = Ret (0, out\<lparr>sink := s'\<rparr>)"
    "good s'" "obs s' = step (take (unat len) data) (obs (sink out))"
proof -
  have "length (take (unat len) data) < 2 ^ 31" using assms by simp
  from accepts [OF assms(1) this] obtain s' where
    "ops_write ops (take (unat len) data) (sink out) = (0, s')" "good s'"
    "obs s' = step (take (unat len) data) (obs (sink out))" by auto
  with assms(2) show thesis by (intro that [of s']) (simp_all add: out_write_def read_at_def)
qed

lemma skip_run:
  assumes "good (sink out)" "writer_ok bs out" "n < 2 ^ 32"
  shows "\<exists>out'. write_skip_chunk ops (int n * uint bs) out = Ret (0, out') \<and> emits (skip_chunk_bytes n) out out' \<and>
    chunk_cnt out' = chunk_cnt out + 1 \<and> crc32 out' = crc32 out"
proof -
  have bs: "bs \<noteq> 0" "out_block_size out = bs" using assms(2) by (simp_all add: writer_ok_def)
  have sd: "int n * uint bs sdiv uint bs = int n" "int n * uint bs smod uint bs = 0"
    using uint_pos [OF bs(1)] by (simp_all add: signed_divide_int_def signed_modulo_int_def sgn_if abs_mult)
  obtain s' where s': "out_write ops (chunk_header_bytes \<lparr>chunk_type = CHUNK_TYPE_DONT_CARE, reserved1 = 0,
      chunk_sz = of_nat n, total_sz = 12\<rparr>) 12 out = Ret (0, out\<lparr>sink := s'\<rparr>)"
    "good s'" "obs s' = step (skip_chunk_bytes n) (obs (sink out))"
    by (rule out_write_run [OF assms(1), of 12 "skip_chunk_bytes n"]) (simp_all add: skip_chunk_bytes_def)
  then show ?thesis
    using assms(2) sd bs
    by (simp add: write_skip_chunk_def writer_ok_def write_sparse_skip_chunk_def CHUNK_HEADER_LEN_def emits_def same_conf_def)
qed

lemma fill_run:
  assumes "good (sink out)" "writer_ok bs out" "unat len + unat bs < 2 ^ 32" "n = (unat len + unat bs - 1) div unat bs"
  shows "\<exists>out'. write_fill_chunk ops len v out = Ret (0, out') \<and> emits (fill_chunk_bytes n v) out out' \<and>
    chunk_cnt out' = chunk_cnt out + 1 \<and> crc32 out' = (if use_crc out then fill_crc bs v (crc32 out) else crc32 out)"
proof -
  have bs: "bs \<noteq> 0" "out_block_size out = bs" using assms(2) by (simp_all add: writer_ok_def)
  obtain m where m: "ALIGN len bs = Ret (bs * m)" "udiv (bs * m) bs = Ret m" "m = of_nat n"
  proof (rule round_up_run [OF bs(1) assms(3)])
    fix m
    assume m: "ALIGN len bs = Ret (bs * m)" "udiv (bs * m) bs = Ret m" "unat m = (unat len + unat bs - 1) div unat bs"
    have "of_nat n = m" unfolding assms(4) m(3) [symmetric] by simp
    then show thesis using that [OF m(1,2)] by simp
  qed
  define hdr where "hdr = \<lparr>chunk_type = CHUNK_TYPE_FILL, reserved1 = 0, chunk_sz = of_nat n, total_sz = 16\<rparr>"
  obtain s1 where s1: "out_write ops (chunk_header_bytes hdr) 12 out = Ret (0, out\<lparr>sink := s1\<rparr>)"
    "good s1" "obs s1 = step (chunk_header_bytes hdr) (obs (sink out))"
    by (rule out_write_run [OF assms(1), of 12 "chunk_header_bytes hdr"]) simp_all
  have "good (sink (out\<lparr>sink := s1\<rparr>))" using s1(2) by simp
  then obtain s2 where s2: "out_write ops (le32 v) 4 (out\<lparr>sink := s1\<rparr>) = Ret (0, out\<lparr>sink := s1, sink := s2\<rparr>)"
    "good s2" "obs s2 = step (le32 v) (obs s1)"
    by (rule out_write_run [of _ 4 "le32 v"]) simp_all
  have fb: "fill_chunk_bytes n v = chunk_header_bytes hdr @ le32 v" by (simp add: fill_chunk_bytes_def hdr_def)
  show ?thesis
    using assms(2) m s1 s2 bs
    by (auto simp: write_fill_chunk_def writer_ok_def write_sparse_fill_chunk_def CHUNK_HEADER_LEN_def emits_def
        same_conf_def fb step_append Let_def simp flip: hdr_def)
qed

lemma raw_run:
  assumes "good (sink out)" "writer_ok bs out" "unat len + unat bs < 2 ^ 31" "n = (unat len + unat bs - 1) div unat bs"
    and "unat len \<le> length data"
  defines "d \<equiv> take (unat len) data @ replicate (n * unat bs - unat len) 0"
  shows "\<exists>out'. write_data_chunk ops len data out = Ret (0, out') \<and> emits (raw_chunk_bytes n d) out out' \<and>
    chunk_cnt out' = chunk_cnt out + 1 \<and> crc32 out' = (if use_crc out then sparse_crc32 (crc32 out) d else crc32 out)"
proof -
  have bs: "bs \<noteq> 0" "out_block_size out = bs" and z: "zero_buf out = replicate (unat bs) 0"
    using assms(2) by (simp_all add: writer_ok_def)
  have lt: "unat len + unat bs < 2 ^ 32" using assms(3) by simp
  obtain m where m: "ALIGN len bs = Ret (bs * m)" "udiv (bs * m) bs = Ret m" "m = of_nat n"
    "unat (bs * m) = n * unat bs" "unat len \<le> n * unat bs" "n * unat bs < unat len + unat bs"
  proof (rule round_up_run [OF bs(1) lt])
    fix m
    assume m: "ALIGN len bs = Ret (bs * m)" "udiv (bs * m) bs = Ret m" "unat m = (unat len + unat bs - 1) div unat bs"
      "unat (bs * m) = unat m * unat bs" "unat len \<le> unat (bs * m)" "unat (bs * m) < unat len + unat bs"
    have "of_nat n = m" "unat m = n" unfolding assms(4) m(3) [symmetric] by simp_all
    then show thesis using that [OF m(1,2)] m(4-6) by simp
  qed
  define zl where "zl = bs * m - len"
  have zl: "unat zl = n * unat bs - unat len" using m by (simp add: zl_def unat_sub_u32)
  define hdr where "hdr = \<lparr>chunk_type = CHUNK_TYPE_RAW, reserved1 = 0, chunk_sz = m, total_sz = of_nat CHUNK_HEADER_LEN + bs * m\<rparr>"
  have ld: "length d = n * unat bs" using assms(5) m(5) by (simp add: d_def)
  have "bs * m = of_nat (n * unat bs)" using m(4) by (metis of_nat_unat ucast_id)
  then have rb: "raw_chunk_bytes n d = chunk_header_bytes hdr @ take (unat len) data @ replicate (unat zl) 0"
    by (simp add: raw_chunk_bytes_def hdr_def ld zl m(3) CHUNK_HEADER_LEN_def mult.commute) (simp add: d_def)
  obtain s1 where s1: "out_write ops (chunk_header_bytes hdr) 12 out = Ret (0, out\<lparr>sink := s1\<rparr>)"
    "good s1" "obs s1 = step (chunk_header_bytes hdr) (obs (sink out))"
    by (rule out_write_run [OF assms(1), of 12 "chunk_header_bytes hdr"]) simp_all
  have g1: "good (sink (out\<lparr>sink := s1\<rparr>))" using s1(2) by simp
  obtain s2 where s2: "out_write ops data len (out\<lparr>sink := s1\<rparr>) = Ret (0, out\<lparr>sink := s1, sink := s2\<rparr>)"
    "good s2" "obs s2 = step (take (unat len) data) (obs s1)"
    by (rule out_write_run [OF g1, of len data]) (use assms(3,5) in simp_all)
  have g2: "good (sink (out\<lparr>sink := s2\<rparr>))" using s2(2) by simp
  obtain s3 where s3: "zl \<noteq> 0 \<longrightarrow> out_write ops (zero_buf out) zl (out\<lparr>sink := s2\<rparr>) = Ret (0, out\<lparr>sink := s3\<rparr>)"
    "zl = 0 \<longrightarrow> s3 = s2" "good s3" "obs s3 = step (replicate (unat zl) 0) (obs s2)"
  proof (cases "zl = 0")
    case True
    then show thesis using that [of s2] s2 by (simp add: step_Nil)
  next
    case False
    have le: "unat zl \<le> length (zero_buf out)" "unat zl < 2 ^ 31" using m(6) zl assms(3) by (simp_all add: z)
    show thesis
      by (rule out_write_run [OF g2 le]) (use that False le z in \<open>simp add: take_replicate min_absorb1\<close>)
  qed
  have rd: "read_at 0 (unat len) data = Ret (take (unat len) data)" "read_at 0 (unat zl) (zero_buf out) = Ret (replicate (unat zl) 0)"
    using assms(5) m(6) zl by (simp_all add: read_at_def z take_replicate min_absorb1)
  have dz: "d = take (unat len) data @ replicate (unat zl) 0" by (simp add: d_def zl)
  define crc where "crc = (if use_crc out then sparse_crc32 (crc32 out) d else crc32 out)"
  have "write_sparse_data_chunk ops len data out = Ret (0, out\<lparr>sink := s3, crc32 := crc,
      cur_out_ptr := cur_out_ptr out + sint (bs * m), chunk_cnt := chunk_cnt out + 1\<rparr>)"
    unfolding write_sparse_data_chunk_def bs(2) Let_def
    using m(1,2) s1(1) s2(1) s3(1,2) rd
    by (cases "zl = 0"; cases "use_crc out")
      (simp_all add: Let_def crc_def dz sparse_crc32_append flip: zl_def hdr_def)
  then show ?thesis
    using assms(2) s1(3) s2(3) s3(3,4)
    by (simp add: write_data_chunk_def writer_ok_def emits_def same_conf_def rb step_append crc_def)
qed

lemma close_run:
  assumes "good (sink out)" "writer_ok bs out"
  shows "\<exists>s'. output_file_close ops out = Ret s' \<and> good s' \<and>
    obs s' = step (if use_crc out then crc_chunk_bytes (crc32 out) else []) (obs (sink out))"
proof (cases "use_crc out")
  case False
  then show ?thesis using assms by (simp add: output_file_close_def writer_ok_def write_sparse_end_chunk_def step_Nil)
next
  case True
  define hdr where "hdr = \<lparr>chunk_type = CHUNK_TYPE_CRC32, reserved1 = 0, chunk_sz = 0, total_sz = 16\<rparr>"
  obtain s1 where s1: "out_write ops (chunk_header_bytes hdr) 12 out = Ret (0, out\<lparr>sink := s1\<rparr>)"
    "good s1" "obs s1 = step (chunk_header_bytes hdr) (obs (sink out))"
    by (rule out_write_run [OF assms(1), of 12 "chunk_header_bytes hdr"]) simp_all
  have "good (sink (out\<lparr>sink := s1\<rparr>))" using s1(2) by simp
  then obtain s2 where s2: "out_write ops (le32 (crc32 out)) 4 (out\<lparr>sink := s1\<rparr>) = Ret (0, out\<lparr>sink := s1, sink := s2\<rparr>)"
    "good s2" "obs s2 = step (le32 (crc32 out)) (obs s1)"
    by (rule out_write_run [of _ 4 "le32 (crc32 out)"]) simp_all
  have "crc_chunk_bytes (crc32 out) = chunk_header_bytes hdr @ le32 (crc32 out)" by (simp add: crc_chunk_bytes_def hdr_def)
  then show ?thesis
    using True assms(2) s1 s2
    by (simp add: output_file_close_def writer_ok_def write_sparse_end_chunk_def CHUNK_HEADER_LEN_def step_append flip: hdr_def)
qed

lemma init_run:
  assumes "good s" "bs \<noteq> 0"
  shows "\<exists>out. output_file_init ops True True s bs len True chunks crc = Ret (0, Some out) \<and> writer_ok bs out \<and>
    use_crc out = crc \<and> crc32 out = 0 \<and> chunk_cnt out = 0 \<and> good (sink out) \<and>
    obs (sink out) = step (sparse_header_bytes (image_header bs len (if crc then chunks + 1 else chunks))) (obs s)"
proof -
  define out where "out = \<lparr>cur_out_ptr = 0, chunk_cnt = 0, crc32 = 0, sparse_format = sparse_ops, use_crc = crc,
    out_block_size = bs, out_len = len, zero_buf = replicate (unat bs) 0, fill_buf = replicate (unat bs) 0, sink = s\<rparr>"
  let ?h = "sparse_header_bytes (image_header bs len (if crc then chunks + 1 else chunks))"
  have "good (sink out)" using assms(1) by (simp add: out_def)
  then obtain s' where s': "out_write ops ?h 28 out = Ret (0, out\<lparr>sink := s'\<rparr>)" "good s'" "obs s' = step ?h (obs s)"
    by (rule out_write_run [of _ 28 ?h]) (simp_all add: out_def)
  then show ?thesis
    using assms(2) by (simp add: output_file_init_def image_header_def SPARSE_HEADER_MAJOR_VER_def
      SPARSE_HEADER_MINOR_VER_def SPARSE_HEADER_LEN_def CHUNK_HEADER_LEN_def Let_def out_def writer_ok_def)
qed

end

section \<open>Three media\<close>

text \<open>A callback that collects the bytes, skipped ranges as zeros.\<close>

definition buffer_callback :: "u8 list write_callback" where
  "buffer_callback data len buf = (0, buf @ (case data of None \<Rightarrow> replicate (nat len) 0 | Some d \<Rightarrow> d))"

text \<open>A regular file on which every call succeeds: writing past the end fills the gap with zeros.\<close>

record disk_file =
  disk_bytes :: "u8 list"
  disk_pos :: nat

definition grow :: "nat \<Rightarrow> u8 list \<Rightarrow> u8 list" where
  "grow n bs = bs @ replicate (n - length bs) 0"

definition disk_write :: "u8 list \<Rightarrow> disk_file \<Rightarrow> int \<times> disk_file" where
  "disk_write d f = (int (length d),
     (if d = [] then f
      else \<lparr>disk_bytes = take (disk_pos f) (grow (disk_pos f) (disk_bytes f)) @ d @ drop (disk_pos f + length d) (disk_bytes f),
            disk_pos = disk_pos f + length d\<rparr>))"

definition disk_calls :: "disk_file os_calls" where
  "disk_calls = \<lparr>os_lseek = (\<lambda>n f. if int (disk_pos f) + n < 0 then (-1, f)
                               else (int (disk_pos f) + n, f\<lparr>disk_pos := nat (int (disk_pos f) + n)\<rparr>)),
     os_ftruncate = (\<lambda>n f. if n < 0 then (-1, f) else (0, f\<lparr>disk_bytes := take (nat n) (grow (nat n) (disk_bytes f))\<rparr>)),
     os_write = disk_write, os_errno = (\<lambda>_. EINVAL)\<rparr>"

lemma int_len_small: "length d < 2 ^ 31 \<Longrightarrow> int_len d = int (length d)"
  by (simp add: int_len_def sint_small_u32 unat_of_nat)

interpretation buffer_sink: write_sink "callback_file_ops buffer_callback" "\<lambda>_. True" "\<lambda>s. s" "\<lambda>d v. v @ d"
  by unfold_locales (auto simp: callback_file_ops_def callback_file_write_def buffer_callback_def)

interpretation disk_sink: write_sink "file_ops disk_calls" "\<lambda>f. disk_pos f = length (disk_bytes f)" disk_bytes "\<lambda>d v. v @ d"
proof
  fix f :: disk_file and d :: "u8 list"
  assume f: "disk_pos f = length (disk_bytes f)" "length d < 2 ^ 31"
  have "file_write disk_calls d f = (0, snd (disk_write d f))"
    using f(2) by (simp add: file_write_def disk_calls_def disk_write_def int_len_small)
  then show "\<exists>s'. ops_write (file_ops disk_calls) d f = (0, s') \<and> disk_pos s' = length (disk_bytes s') \<and> disk_bytes s' = disk_bytes f @ d"
    using f(1) by (simp add: file_ops_def disk_write_def grow_def)
qed simp_all

end
