(* ===== verification/Sparse_File.thy ===== *)
theory Sparse_File
  imports Output_File
begin

text \<open>
  Sparse files, \<open>core/libsparse/sparse.c\<close>: counting and writing the chunks of a block list, measuring
  the output with a counting callback, and cutting a file into pieces of bounded size.
\<close>

record sparse_file =
  sf_block_size :: u32
  sf_len :: int
  sf_verbose :: bool
  sf_list :: backed_block_list

section \<open>Construction\<close>

text \<open>The booleans are the outcomes of the two allocations.\<close>

definition sparse_file_new :: "bool \<Rightarrow> bool \<Rightarrow> u32 \<Rightarrow> int \<Rightarrow> sparse_file ptr exec" where
  "sparse_file_new s_ok list_ok block_size len =
     (if \<not> s_ok then Ret NULL
      else do {
        bbl \<leftarrow> backed_block_list_new list_ok block_size;
        Ret (Some \<lparr>sf_block_size = block_size, sf_len = len, sf_verbose = False, sf_list = bbl\<rparr>) })"

definition sparse_file_destroy :: "sparse_file \<Rightarrow> bb_heap \<Rightarrow> bb_heap exec" where
  "sparse_file_destroy s h = backed_block_list_destroy (sf_list s) h"

definition sparse_file_add_data ::
    "allocator \<Rightarrow> sparse_file \<Rightarrow> u8 list \<Rightarrow> u32 \<Rightarrow> u32 \<Rightarrow> bb_heap \<Rightarrow> (int \<times> sparse_file \<times> bb_heap) exec" where
  "sparse_file_add_data malloc s data len block h = do {
     (ret, bbl, h) \<leftarrow> backed_block_add_data malloc (sf_list s) data len block h;
     Ret (ret, s\<lparr>sf_list := bbl\<rparr>, h) }"

definition sparse_file_add_fill ::
    "allocator \<Rightarrow> sparse_file \<Rightarrow> u32 \<Rightarrow> u32 \<Rightarrow> u32 \<Rightarrow> bb_heap \<Rightarrow> (int \<times> sparse_file \<times> bb_heap) exec" where
  "sparse_file_add_fill malloc s fill_val len block h = do {
     (ret, bbl, h) \<leftarrow> backed_block_add_fill malloc (sf_list s) fill_val len block h;
     Ret (ret, s\<lparr>sf_list := bbl\<rparr>, h) }"

definition sparse_file_add_file ::
    "allocator \<Rightarrow> sparse_file \<Rightarrow> string \<Rightarrow> i64 \<Rightarrow> u32 \<Rightarrow> u32 \<Rightarrow> bb_heap \<Rightarrow> (int \<times> sparse_file \<times> bb_heap) exec" where
  "sparse_file_add_file malloc s filename offset len block h = do {
     (ret, bbl, h) \<leftarrow> backed_block_add_file malloc (sf_list s) filename offset len block h;
     Ret (ret, s\<lparr>sf_list := bbl\<rparr>, h) }"

definition sparse_file_add_fd ::
    "allocator \<Rightarrow> sparse_file \<Rightarrow> int \<Rightarrow> i64 \<Rightarrow> u32 \<Rightarrow> u32 \<Rightarrow> bb_heap \<Rightarrow> (int \<times> sparse_file \<times> bb_heap) exec" where
  "sparse_file_add_fd malloc s fd offset len block h = do {
     (ret, bbl, h) \<leftarrow> backed_block_add_fd malloc (sf_list s) fd offset len block h;
     Ret (ret, s\<lparr>sf_list := bbl\<rparr>, h) }"

section \<open>Counting chunks\<close>

text \<open>\<open>DIV_ROUND_UP(s->len, s->block_size)\<close> on 64-bit values.\<close>

definition len_blocks :: "sparse_file \<Rightarrow> int" where
  "len_blocks s = (sf_len s + uint (sf_block_size s) - 1) sdiv uint (sf_block_size s)"

partial_function (option) count_loop :: "u32 \<Rightarrow> bb_heap \<Rightarrow> addr ptr \<Rightarrow> u32 \<Rightarrow> u32 \<Rightarrow> (u32 \<times> u32) exec" where
  [code]: "count_loop bs h p last_block chunks =
     (if p = NULL then Ret (last_block, chunks)
      else do {
        bb \<leftarrow> deref h p;
        let chunks = (if backed_block_block bb > last_block then chunks + 1 else chunks);
        n \<leftarrow> DIV_ROUND_UP (backed_block_len bb) bs;
        p \<leftarrow> backed_block_iter_next h p;
        count_loop bs h p (backed_block_block bb + n) (chunks + 1) })"

definition sparse_count_chunks :: "sparse_file \<Rightarrow> bb_heap \<Rightarrow> u32 exec" where
  "sparse_count_chunks s h = do {
     (last_block, chunks) \<leftarrow> count_loop (sf_block_size s) h (backed_block_iter_new (sf_list s)) 0 0;
     if sf_block_size s = 0 then Fault
     else Ret (if uint last_block < len_blocks s then chunks + 1 else chunks) }"

section \<open>Writing\<close>

text \<open>A file name that has been freed cannot be read.\<close>

definition name_of :: "bb_heap \<Rightarrow> addr ptr \<Rightarrow> string ptr exec" where
  "name_of h f = (case f of None \<Rightarrow> Ret NULL | Some a \<Rightarrow> do { n \<leftarrow> map_of (names h) a; Ret (Some n) })"

definition sparse_file_write_block ::
    "'s output_file_ops \<Rightarrow> file_env \<Rightarrow> bb_heap \<Rightarrow> 's output_file \<Rightarrow> backed_block \<Rightarrow> 's output_file exec" where
  "sparse_file_write_block ops env h out bb = (case backed_block_type bb of
     BACKED_BLOCK_DATA \<Rightarrow> do {
       data \<leftarrow> backed_block_data bb;
       (_, out) \<leftarrow> write_data_chunk ops (backed_block_len bb) data out;
       Ret out }
   | BACKED_BLOCK_FILE \<Rightarrow> do {
       f \<leftarrow> backed_block_filename bb;
       file \<leftarrow> name_of h f;
       off \<leftarrow> backed_block_file_offset bb;
       (_, out) \<leftarrow> write_file_chunk ops env (backed_block_len bb) file off out;
       Ret out }
   | BACKED_BLOCK_FD \<Rightarrow> do {
       fd \<leftarrow> backed_block_fd bb;
       off \<leftarrow> backed_block_file_offset bb;
       (_, out) \<leftarrow> write_fd_chunk ops env (backed_block_len bb) fd off out;
       Ret out }
   | BACKED_BLOCK_FILL \<Rightarrow> do {
       v \<leftarrow> backed_block_fill_val bb;
       (_, out) \<leftarrow> write_fill_chunk ops (backed_block_len bb) v out;
       Ret out })"

partial_function (option) write_loop ::
    "'s output_file_ops \<Rightarrow> file_env \<Rightarrow> bb_heap \<Rightarrow> u32 \<Rightarrow> addr ptr \<Rightarrow> u32 \<Rightarrow> 's output_file \<Rightarrow>
     (u32 \<times> 's output_file) exec" where
  [code]: "write_loop ops env h bs p last_block out =
     (if p = NULL then Ret (last_block, out)
      else do {
        bb \<leftarrow> deref h p;
        out \<leftarrow> (if backed_block_block bb > last_block
                then do {
                  (_, out) \<leftarrow> write_skip_chunk ops (uint (backed_block_block bb - last_block) * uint bs) out;
                  Ret out }
                else Ret out);
        out \<leftarrow> sparse_file_write_block ops env h out bb;
        n \<leftarrow> DIV_ROUND_UP (backed_block_len bb) bs;
        p \<leftarrow> backed_block_iter_next h p;
        write_loop ops env h bs p (backed_block_block bb + n) out })"

definition write_all_blocks ::
    "'s output_file_ops \<Rightarrow> file_env \<Rightarrow> bb_heap \<Rightarrow> sparse_file \<Rightarrow> 's output_file \<Rightarrow> (int \<times> 's output_file) exec" where
  "write_all_blocks ops env h s out = do {
     (last_block, out) \<leftarrow> write_loop ops env h (sf_block_size s) (backed_block_iter_new (sf_list s)) 0 out;
     let pad = sf_len s - uint last_block * uint (sf_block_size s);
     if pad < 0 then Fault
     else if pad > 0 then do {
       (_, out) \<leftarrow> write_skip_chunk ops pad out;
       Ret (0, out) }
     else Ret (0, out) }"

definition sparse_file_write ::
    "bool \<times> bool \<times> bool \<Rightarrow> 's os_calls \<Rightarrow> 's zlib \<Rightarrow> file_env \<Rightarrow> bb_heap \<Rightarrow> sparse_file \<Rightarrow> 's \<Rightarrow> bool \<Rightarrow> bool \<Rightarrow> bool \<Rightarrow>
     (int \<times> 's) exec" where
  "sparse_file_write mem os z env h s fd gz sparse crc = do {
     let ops = (if gz then gz_file_ops z else file_ops os);
     chunks \<leftarrow> sparse_count_chunks s h;
     out \<leftarrow> output_file_open_fd mem ops fd (sf_block_size s) (sf_len s) sparse chunks crc;
     case out of
       None \<Rightarrow> Ret (- ENOMEM, fd)
     | Some out \<Rightarrow> do {
         (ret, out) \<leftarrow> write_all_blocks ops env h s out;
         fd \<leftarrow> output_file_close ops out;
         Ret (ret, fd) } }"

definition sparse_file_callback ::
    "bool \<times> bool \<times> bool \<Rightarrow> file_env \<Rightarrow> bb_heap \<Rightarrow> sparse_file \<Rightarrow> bool \<Rightarrow> bool \<Rightarrow> 's write_callback \<Rightarrow> 's \<Rightarrow>
     (int \<times> 's) exec" where
  "sparse_file_callback mem env h s sparse crc cb priv = do {
     chunks \<leftarrow> sparse_count_chunks s h;
     out \<leftarrow> output_file_open_callback mem cb priv (sf_block_size s) (sf_len s) sparse chunks crc;
     case out of
       None \<Rightarrow> Ret (- ENOMEM, priv)
     | Some out \<Rightarrow> do {
         (ret, out) \<leftarrow> write_all_blocks (callback_file_ops cb) env h s out;
         priv \<leftarrow> output_file_close (callback_file_ops cb) out;
         Ret (ret, priv) } }"

definition out_counter_write :: "int write_callback" where
  "out_counter_write data len cnt = (0, cnt + len)"

definition sparse_file_len ::
    "bool \<times> bool \<times> bool \<Rightarrow> file_env \<Rightarrow> bb_heap \<Rightarrow> sparse_file \<Rightarrow> bool \<Rightarrow> bool \<Rightarrow> int exec" where
  "sparse_file_len mem env h s sparse crc = do {
     chunks \<leftarrow> sparse_count_chunks s h;
     out \<leftarrow> output_file_open_callback mem out_counter_write 0 (sf_block_size s) (sf_len s) sparse chunks crc;
     case out of
       None \<Rightarrow> Ret (-1)
     | Some out \<Rightarrow> do {
         (ret, out) \<leftarrow> write_all_blocks (callback_file_ops out_counter_write) env h s out;
         cnt \<leftarrow> output_file_close (callback_file_ops out_counter_write) out;
         Ret (if ret < 0 then -1 else cnt) } }"

section \<open>Cutting a file into pieces\<close>

text \<open>
  The loop of \<open>move_chunks_up_to_len\<close>. It stops at the first block that does not fit, with the last
  block that belongs to the piece and the block it stopped at.
\<close>

definition resparse_overhead :: u32 where
  "resparse_overhead = of_nat SPARSE_HEADER_LEN + 4 * of_nat CHUNK_HEADER_LEN + 4"

partial_function (option) chunks_loop ::
    "allocator \<Rightarrow> file_env \<Rightarrow> backed_block_list \<Rightarrow> u32 \<Rightarrow> addr ptr \<Rightarrow> addr ptr \<Rightarrow> int \<Rightarrow> int output_file \<Rightarrow> bb_heap \<Rightarrow>
     (addr ptr \<times> addr ptr \<times> bb_heap) exec" where
  [code]: "chunks_loop malloc env bbl len p last_bb file_len out h =
     (if p = NULL then Ret (last_bb, NULL, h)
      else do {
        bb \<leftarrow> deref h p;
        out \<leftarrow> sparse_file_write_block (callback_file_ops out_counter_write) env h (out\<lparr>sink := 0\<rparr>) bb;
        let cnt = sink out;
        if file_len + cnt > uint len then
          (if last_bb = NULL \<or> uint len - file_len > uint (len div 8) then do {
             (_, h) \<leftarrow> backed_block_split malloc bbl p (of_int (uint len - file_len)) h;
             Ret (p, p, h) }
           else Ret (last_bb, p, h))
        else do {
          next_bb \<leftarrow> backed_block_iter_next h p;
          chunks_loop malloc env bbl len next_bb p (file_len + cnt) out h } })"

definition move_chunks_up_to_len ::
    "bool \<times> bool \<times> bool \<Rightarrow> allocator \<Rightarrow> file_env \<Rightarrow> sparse_file \<Rightarrow> sparse_file \<Rightarrow> u32 \<Rightarrow> bb_heap \<Rightarrow>
     (addr ptr \<times> sparse_file \<times> sparse_file \<times> bb_heap) exec" where
  "move_chunks_up_to_len mem malloc env from to len0 h = do {
     let len = len0 - resparse_overhead;
     let start = backed_block_iter_new (sf_list from);
     out \<leftarrow> output_file_open_callback mem out_counter_write 0 (sf_block_size to) (sf_len to) True 0 False;
     case out of
       None \<Rightarrow> Ret (NULL, from, to, h)
     | Some out \<Rightarrow> do {
         (last_bb, bb, h) \<leftarrow> chunks_loop malloc env (sf_list from) len start NULL 0 out h;
         (fl, tl, h) \<leftarrow> backed_block_list_move (sf_list from) (sf_list to) start last_bb h;
         Ret (bb, from\<lparr>sf_list := fl\<rparr>, to\<lparr>sf_list := tl\<rparr>, h) } }"

text \<open>
  The loop of \<open>sparse_file_resparse\<close>: the pieces beyond \<open>out_s_count\<close> are collected in \<open>tmp\<close>. The
  allocations of the pieces are granted.
\<close>

partial_function (option) resparse_loop ::
    "allocator \<Rightarrow> file_env \<Rightarrow> u32 \<Rightarrow> int \<Rightarrow> int \<Rightarrow> sparse_file \<Rightarrow> sparse_file \<Rightarrow> sparse_file list \<Rightarrow> bb_heap \<Rightarrow>
     (int \<times> sparse_file \<times> sparse_file \<times> sparse_file list \<times> bb_heap) exec" where
  [code]: "resparse_loop malloc env max_len out_s_count c in_s tmp out_s h = do {
     sp \<leftarrow> sparse_file_new True True (sf_block_size in_s) (sf_len in_s);
     s \<leftarrow> sp;
     (bb, in_s, s, h) \<leftarrow> move_chunks_up_to_len (True, True, True) malloc env in_s s max_len h;
     (tmp, out_s, h) \<leftarrow>
       (if c < out_s_count then Ret (tmp, out_s @ [s], h)
        else do {
          (sl, tl, h) \<leftarrow> backed_block_list_move (sf_list s) (sf_list tmp) NULL NULL h;
          h \<leftarrow> sparse_file_destroy (s\<lparr>sf_list := sl\<rparr>) h;
          Ret (tmp\<lparr>sf_list := tl\<rparr>, out_s, h) });
     if bb = NULL then Ret (c + 1, in_s, tmp, out_s, h)
     else resparse_loop malloc env max_len out_s_count (c + 1) in_s tmp out_s h }"

definition sparse_file_resparse ::
    "bool \<Rightarrow> allocator \<Rightarrow> file_env \<Rightarrow> sparse_file \<Rightarrow> u32 \<Rightarrow> int \<Rightarrow> bb_heap \<Rightarrow>
     (int \<times> sparse_file \<times> sparse_file list \<times> bb_heap) exec" where
  "sparse_file_resparse tmp_ok malloc env in_s max_len out_s_count h = do {
     tp \<leftarrow> sparse_file_new tmp_ok True (sf_block_size in_s) (sf_len in_s);
     case tp of
       None \<Rightarrow> Ret (- ENOMEM, in_s, [], h)
     | Some tmp \<Rightarrow> do {
         (c, in_s, tmp, out_s, h) \<leftarrow> resparse_loop malloc env max_len out_s_count 0 in_s tmp [] h;
         (tl, il, h) \<leftarrow> backed_block_list_move (sf_list tmp) (sf_list in_s) NULL NULL h;
         h \<leftarrow> sparse_file_destroy (tmp\<lparr>sf_list := tl\<rparr>) h;
         Ret (c, in_s\<lparr>sf_list := il\<rparr>, out_s, h) } }"

definition sparse_file_verbose :: "sparse_file \<Rightarrow> sparse_file" where
  "sparse_file_verbose s = s\<lparr>sf_verbose := True\<rparr>"

section \<open>The bytes behind an extent\<close>

definition slice_of :: "u8 list \<Rightarrow> i64 \<Rightarrow> u32 \<Rightarrow> u8 list option" where
  "slice_of c off len =
     (if length c < 2 ^ 63 \<and> unat off + unat len \<le> length c then Some (take (unat len) (drop (unat off) c)) else None)"

definition ext_data :: "file_env \<Rightarrow> bb_heap \<Rightarrow> extent \<Rightarrow> u8 list option" where
  "ext_data env h e = (case e_backing e of
     BB_Data d \<Rightarrow> (if unat (e_len e) \<le> length d then Some (take (unat (e_len e)) d) else None)
   | BB_Fd fd off \<Rightarrow> do { c \<leftarrow> fd_content env fd; slice_of c off (e_len e) }
   | BB_File f off \<Rightarrow> do { a \<leftarrow> f; n \<leftarrow> map_of (names h) a; fd \<leftarrow> path_open env n; c \<leftarrow> fd_content env fd; slice_of c off (e_len e) }
   | BB_Fill v \<Rightarrow> None)"

definition zero_pad :: "nat \<Rightarrow> u8 list \<Rightarrow> u8 list" where
  "zero_pad n d = d @ replicate (n - length d) 0"

text \<open>An extent the writer can write: its bytes are there and the lengths fit the \<open>int\<close> arguments.\<close>

definition writable :: "u32 \<Rightarrow> file_env \<Rightarrow> bb_heap \<Rightarrow> extent \<Rightarrow> bool" where
  "writable bs env h e \<longleftrightarrow> ext_ok bs e \<and> unat (e_len e) + unat bs + 4096 < 2 ^ 31 \<and>
     ((\<exists>v. e_backing e = BB_Fill v) \<or> ext_data env h e \<noteq> None)"

definition ext_chunk :: "u32 \<Rightarrow> file_env \<Rightarrow> bb_heap \<Rightarrow> extent \<Rightarrow> u8 list" where
  "ext_chunk bs env h e = (case e_backing e of
     BB_Fill v \<Rightarrow> fill_chunk_bytes (nblocks bs e) v
   | _ \<Rightarrow> raw_chunk_bytes (nblocks bs e) (zero_pad (nblocks bs e * unat bs) (the (ext_data env h e))))"

definition ext_crc :: "u32 \<Rightarrow> file_env \<Rightarrow> bb_heap \<Rightarrow> extent \<Rightarrow> u32 \<Rightarrow> u32" where
  "ext_crc bs env h e crc = (case e_backing e of
     BB_Fill v \<Rightarrow> fill_crc bs v crc
   | _ \<Rightarrow> sparse_crc32 crc (zero_pad (nblocks bs e * unat bs) (the (ext_data env h e))))"

text \<open>The page-aligned mapping of \<open>write_fd_chunk\<close> gives the bytes at the offset.\<close>

lemma page_split:
  fixes off :: i64
  defines "a \<equiv> off AND NOT (4096 - 1)"
  shows "unat a + unat (ucast (off - a) :: u32) = unat off" "unat (ucast (off - a) :: u32) < 4096"
proof -
  have m: "(4096 - 1 :: i64) = mask 12" by (simp add: mask_eq_exp_minus_1)
  have a: "a = off AND NOT (mask 12)" unfolding a_def by (simp only: m)
  have "a AND (off AND mask 12) = 0" by (rule bit_word_eqI) (auto simp: a bit_simps)
  then have "a + (off AND mask 12) = a OR (off AND mask 12)" by (rule disjunctive_add_eq_or)
  also have "\<dots> = off" by (rule bit_word_eqI) (auto simp: a bit_simps)
  finally have s: "a + (off AND mask 12) = off" .
  then have d: "off - a = take_bit 12 off" by (metis add_diff_cancel_left' take_bit_eq_mask)
  have t: "unat (take_bit 12 off) = unat off mod 4096" by (simp add: take_bit_eq_mod unat_mod)
  have u: "unat (ucast (off - a) :: u32) = unat off mod 4096"
    unfolding d using t by (simp add: unsigned_ucast_eq take_bit_nat_eq_self)
  then show "unat (ucast (off - a) :: u32) < 4096" by simp
  have "a = off - take_bit 12 off" using d by (simp add: algebra_simps)
  then have "unat a = unat off - unat off mod 4096"
    using t by (simp add: unat_sub word_le_nat_alt)
  then show "unat a + unat (ucast (off - a) :: u32) = unat off" using u by simp
qed

lemma sint_nonneg_iff: "0 \<le> sint w \<longleftrightarrow> unat w < 2 ^ 63" for w :: i64
proof -
  have lt: "unat w < 2 ^ 64" using unsigned_less [of w] by simp
  have "bit w 63 \<longleftrightarrow> sint w < 0" using bit_last_iff [of w] by simp
  moreover have "bit (unat w) 63 \<longleftrightarrow> bit w 63" by (simp add: bit_unsigned_iff)
  moreover have "bit (unat w) 63 \<longleftrightarrow> odd (unat w div 2 ^ 63)" by (rule bit_iff_odd)
  moreover have "unat w div 2 ^ 63 = 0 \<or> unat w div 2 ^ 63 = 1" using lt by auto
  ultimately show ?thesis using lt by auto
qed

lemma mmap_slice:
  assumes "fd_content env fd = Some c" "slice_of c off len = Some d" "0 < unat len" "unat len + 4096 < 2 ^ 31"
  defines "a \<equiv> off AND NOT (4096 - 1)"
  defines "diff \<equiv> ucast (off - a) :: u32"
  obtains v where "mmap64 env (len + diff) fd a = Some v" "unat len \<le> length (drop (unat diff) v)"
    "take (unat len) (drop (unat diff) v) = d"
proof -
  note ps = page_split [of off, folded a_def, folded diff_def]
  have o: "length c < 2 ^ 63" "unat off + unat len \<le> length c" "d = take (unat len) (drop (unat off) c)"
    using assms(2) by (auto simp: slice_of_def split: if_splits)
  have "unat (len + diff) = unat len + unat diff" using ps(2) assms(4) by (intro unat_add_u32) simp
  then have "len + diff \<noteq> 0" using assms(3) by (metis add_is_0 less_irrefl unat_0)
  moreover have "0 \<le> sint a" unfolding sint_nonneg_iff using ps(1) o(1,2) by linarith
  ultimately have mm: "mmap64 env (len + diff) fd a = Some (drop (unat a) (page_fill c))"
    by (simp add: mmap64_def assms(1))
  have eq: "drop (unat diff) (drop (unat a) (page_fill c)) = drop (unat off) (page_fill c)"
    using ps(1) by (simp add: add.commute)
  have "unat len \<le> length (drop (unat off) (page_fill c))" "take (unat len) (drop (unat off) (page_fill c)) = d"
    using o(2,3) by (simp_all add: page_fill_def)
  with that [OF mm] show thesis unfolding eq by blast
qed

lemma zero_pad_take: "length d = l \<Longrightarrow> zero_pad n d = d @ replicate (n - l) 0"
  by (simp add: zero_pad_def)

context write_sink
begin

text \<open>Writing one block of the list, whatever backs it.\<close>

lemma fd_run:
  assumes "good (sink out)" "writer_ok bs out" "unat len + unat bs + 4096 < 2 ^ 31" "0 < unat len"
    and "fd_content env fd = Some c" "slice_of c off len = Some d" "n = (unat len + unat bs - 1) div unat bs"
  shows "\<exists>out'. write_fd_chunk ops env len fd off out = Ret (0, out') \<and>
    emits (raw_chunk_bytes n (zero_pad (n * unat bs) d)) out out' \<and> chunk_cnt out' = chunk_cnt out + 1 \<and>
    crc32 out' = (if use_crc out then sparse_crc32 (crc32 out) (zero_pad (n * unat bs) d) else crc32 out)"
proof -
  have len: "unat len + 4096 < 2 ^ 31" "unat len + unat bs < 2 ^ 31" using assms(3) by simp_all
  define a where "a = off AND NOT (4096 - 1)"
  define diff where "diff = (ucast (off - a) :: u32)"
  obtain v where v: "mmap64 env (len + diff) fd a = Some v" "unat len \<le> length (drop (unat diff) v)"
    "take (unat len) (drop (unat diff) v) = d"
    unfolding diff_def a_def by (rule mmap_slice [OF assms(5,6,4) len(1)])
  have ld: "length d = unat len" using assms(6) by (auto simp: slice_of_def split: if_splits)
  have "write_fd_chunk ops env len fd off out = write_data_chunk ops len (drop (unat diff) v) out"
    unfolding write_fd_chunk_def Let_def a_def [symmetric] diff_def [symmetric] v(1) by simp
  then show ?thesis
    using raw_run [OF assms(1,2) len(2) assms(7) v(2)] unfolding v(3) zero_pad_take [OF ld] by simp
qed

lemma block_run:
  assumes "good (sink out)" "writer_ok bs out" "writable bs env h e"
  shows "\<exists>out'. sparse_file_write_block ops env h out (mk_bb e q) = Ret out' \<and> emits (ext_chunk bs env h e) out out' \<and>
    chunk_cnt out' = chunk_cnt out + 1 \<and>
    crc32 out' = (if use_crc out then ext_crc bs env h e (crc32 out) else crc32 out)"
proof -
  have w: "unat (e_len e) + unat bs + 4096 < 2 ^ 31" "0 < unat (e_len e)"
    and d: "(\<exists>v. e_backing e = BB_Fill v) \<or> ext_data env h e \<noteq> None"
    using assms(3) by (auto simp: writable_def ext_ok_def)
  have w': "unat (e_len e) + unat bs < 2 ^ 32" "unat (e_len e) + unat bs < 2 ^ 31" using w(1) by simp_all
  show ?thesis
  proof (cases "e_backing e")
    case (BB_Fill v)
    show ?thesis
      using fill_run [OF assms(1,2) w'(1) refl, of v] BB_Fill
      by (auto simp: sparse_file_write_block_def backed_block_type_def backed_block_fill_val_def backed_block_len_def
          ext_chunk_def ext_crc_def nblocks_def)
  next
    case (BB_Data x)
    then have x: "unat (e_len e) \<le> length x" "ext_data env h e = Some (take (unat (e_len e)) x)"
      using d by (auto simp: ext_data_def split: if_splits)
    have "length (take (unat (e_len e)) x) = unat (e_len e)" using x(1) by simp
    then show ?thesis
      using raw_run [OF assms(1,2) w'(2) refl x(1)] BB_Data x(2)
      by (auto simp: sparse_file_write_block_def backed_block_type_def backed_block_data_def backed_block_len_def
          ext_chunk_def ext_crc_def nblocks_def zero_pad_take)
  next
    case (BB_Fd fd off)
    then obtain c x where c: "fd_content env fd = Some c" "slice_of c off (e_len e) = Some x" "ext_data env h e = Some x"
      using d by (auto simp: ext_data_def bind_eq_Some_conv)
    show ?thesis
      using fd_run [OF assms(1,2) w c(1,2) refl] BB_Fd c(3)
      by (auto simp: sparse_file_write_block_def backed_block_type_def backed_block_fd_def backed_block_file_offset_def
          backed_block_len_def ext_chunk_def ext_crc_def nblocks_def)
  next
    case (BB_File f off)
    then obtain a n fd c x where c: "f = Some a" "map_of (names h) a = Some n" "path_open env n = Some fd"
      "fd_content env fd = Some c" "slice_of c off (e_len e) = Some x" "ext_data env h e = Some x"
      using d by (auto simp: ext_data_def bind_eq_Some_conv)
    show ?thesis
      using fd_run [OF assms(1,2) w c(4,5) refl] BB_File c(1-3,6)
      by (auto simp: sparse_file_write_block_def backed_block_type_def backed_block_filename_def name_of_def
          backed_block_file_offset_def backed_block_len_def write_file_chunk_def ext_chunk_def ext_crc_def nblocks_def)
  qed
qed

end

section \<open>The encoding of a list\<close>

text \<open>The chunks the writer emits, one byte string each, and the block number behind the last extent.\<close>

fun chunks_from :: "u32 \<Rightarrow> file_env \<Rightarrow> bb_heap \<Rightarrow> nat \<Rightarrow> extent list \<Rightarrow> u8 list list" where
  "chunks_from bs env h lb [] = []"
| "chunks_from bs env h lb (e # es) =
     (if lb < unat (e_block e) then [skip_chunk_bytes (unat (e_block e) - lb)] else []) @
     ext_chunk bs env h e # chunks_from bs env h (unat (e_block e) + nblocks bs e) es"

fun end_block :: "u32 \<Rightarrow> nat \<Rightarrow> extent list \<Rightarrow> nat" where
  "end_block bs lb [] = lb"
| "end_block bs lb (e # es) = end_block bs (unat (e_block e) + nblocks bs e) es"

definition image_chunks :: "u32 \<Rightarrow> file_env \<Rightarrow> bb_heap \<Rightarrow> nat \<Rightarrow> extent list \<Rightarrow> u8 list list" where
  "image_chunks bs env h nb es = chunks_from bs env h 0 es @
     (if end_block bs 0 es < nb then [skip_chunk_bytes (nb - end_block bs 0 es)] else [])"

definition image_crc :: "u32 \<Rightarrow> file_env \<Rightarrow> bb_heap \<Rightarrow> extent list \<Rightarrow> u32 \<Rightarrow> u32" where
  "image_crc bs env h es crc = fold (ext_crc bs env h) es crc"

lemma ext_end_small:
  assumes "bs \<noteq> 0" "ext_ok bs e"
  shows "unat (e_block e) + nblocks bs e < 2 ^ 32"
proof -
  have b0: "0 < unat bs" using assms(1) by (simp add: unat_gt_0)
  have "nblocks bs e \<le> unat (e_len e)"
  proof (cases "nblocks bs e")
    case (Suc k)
    then have "k * unat bs < unat (e_len e)"
      using div_round_up_bounds(3) [OF b0, of k "unat (e_len e)"] by (simp add: nblocks_def)
    moreover have "k \<le> k * unat bs" using b0 by simp
    ultimately show ?thesis using Suc by linarith
  qed simp
  moreover have "unat (e_block e) \<le> unat (e_block e) * unat bs" using b0 by simp
  ultimately show ?thesis using assms(2) unfolding ext_ok_def by linarith
qed

lemma next_block_run:
  assumes "bs \<noteq> 0" "writable bs env h e"
  obtains n where "DIV_ROUND_UP (e_len e) bs = Ret n" "unat (e_block e + n) = unat (e_block e) + nblocks bs e"
proof -
  have ok: "ext_ok bs e" "unat (e_len e) + unat bs < 2 ^ 32" using assms(2) by (auto simp: writable_def)
  obtain n where n: "DIV_ROUND_UP (e_len e) bs = Ret n" "unat n = nblocks bs e"
    using round_up_run [OF assms(1) ok(2)] by (metis nblocks_def)
  then show thesis using that [OF n(1)] ext_end_small [OF assms(1) ok(1)] by (simp add: unat_add_u32)
qed

lemma count_loop_run:
  assumes "bs \<noteq> 0" "path (nmap h) xs NULL" "\<forall>e \<in> snd ` set xs. writable bs env h e"
  shows "count_loop bs h (first xs NULL) lb chunks =
    Ret (of_nat (end_block bs (unat lb) (map snd xs)), chunks + of_nat (length (chunks_from bs env h (unat lb) (map snd xs))))"
  using assms(2,3)
proof (induction xs arbitrary: lb chunks)
  case Nil
  then show ?case by (subst count_loop.simps) simp
next
  case (Cons c xs)
  obtain a e where c: "c = (a, e)" by (cases c)
  have e: "writable bs env h e" "nmap h a = Some (mk_bb e (first xs NULL))" "path (nmap h) xs NULL"
    using Cons.prems by (auto simp: c)
  obtain n where n: "DIV_ROUND_UP (e_len e) bs = Ret n" "unat (e_block e + n) = unat (e_block e) + nblocks bs e"
    by (rule next_block_run [OF assms(1) e(1)])
  have lt: "lb < e_block e \<longleftrightarrow> unat lb < unat (e_block e)" by (simp add: word_less_nat_alt)
  show ?case
    using Cons.IH [OF e(3), of "e_block e + n"] Cons.prems(2) n e(2)
    by (subst count_loop.simps)
      (simp add: c lt backed_block_len_def backed_block_block_def backed_block_iter_next_def algebra_simps)
qed

context write_sink
begin

lemma write_loop_run:
  assumes "bs \<noteq> 0" "path (nmap h) xs NULL" "\<forall>e \<in> snd ` set xs. writable bs env h e"
    and "good (sink out)" "writer_ok bs out"
  shows "\<exists>out'. write_loop ops env h bs (first xs NULL) lb out = Ret (of_nat (end_block bs (unat lb) (map snd xs)), out') \<and>
    emits (concat (chunks_from bs env h (unat lb) (map snd xs))) out out' \<and>
    crc32 out' = (if use_crc out then image_crc bs env h (map snd xs) (crc32 out) else crc32 out)"
  using assms(2-5)
proof (induction xs arbitrary: lb out)
  case Nil
  then show ?case by (subst write_loop.simps) (simp add: emits_def same_conf_def step_Nil image_crc_def)
next
  case (Cons c xs)
  obtain a e where c: "c = (a, e)" by (cases c)
  have e: "writable bs env h e" "nmap h a = Some (mk_bb e (first xs NULL))" "path (nmap h) xs NULL"
    using Cons.prems by (auto simp: c)
  obtain n where n: "DIV_ROUND_UP (e_len e) bs = Ret n" "unat (e_block e + n) = unat (e_block e) + nblocks bs e"
    by (rule next_block_run [OF assms(1) e(1)])
  define sk where "sk = (if unat lb < unat (e_block e) then skip_chunk_bytes (unat (e_block e) - unat lb) else [])"
  obtain out1 where o1: "lb < e_block e \<longrightarrow> write_skip_chunk ops (uint (e_block e - lb) * uint bs) out = Ret (0, out1)"
    "emits sk out out1" "crc32 out1 = crc32 out" "\<not> lb < e_block e \<longrightarrow> out1 = out"
  proof (cases "unat lb < unat (e_block e)")
    case True
    then have u: "unat (e_block e - lb) = unat (e_block e) - unat lb" by (simp add: unat_sub_u32)
    have "unat (e_block e) - unat lb < 2 ^ 32" using unat_less_u32 [of "e_block e"] by linarith
    from skip_run [OF Cons.prems(3,4) this] obtain out1 where
      "write_skip_chunk ops (int (unat (e_block e) - unat lb) * uint bs) out = Ret (0, out1)"
      "emits sk out out1" "crc32 out1 = crc32 out" using True by (auto simp: sk_def)
    moreover have "int (unat (e_block e - lb)) = uint (e_block e - lb)" by simp
    then have "uint (e_block e - lb) = int (unat (e_block e) - unat lb)" unfolding u by simp
    moreover have "lb < e_block e" using True by (simp add: word_less_nat_alt)
    ultimately show thesis by (intro that [of out1]) simp_all
  next
    case False
    then show thesis
      using Cons.prems(3) that [of out] by (simp add: sk_def emits_def same_conf_def step_Nil word_less_nat_alt)
  qed
  have g1: "good (sink out1)" "writer_ok bs out1" "use_crc out1 = use_crc out"
    using o1(2) Cons.prems(4) writer_ok_conf by (auto simp: emits_def same_conf_def)
  obtain out2 where o2: "sparse_file_write_block ops env h out1 (mk_bb e (first xs NULL)) = Ret out2"
    "emits (ext_chunk bs env h e) out1 out2"
    "crc32 out2 = (if use_crc out1 then ext_crc bs env h e (crc32 out1) else crc32 out1)"
    using block_run [OF g1(1,2) e(1)] by blast
  have g2: "good (sink out2)" "writer_ok bs out2" "use_crc out2 = use_crc out"
    using o2(2) g1(2,3) writer_ok_conf by (auto simp: emits_def same_conf_def)
  have rest: "\<forall>e \<in> snd ` set xs. writable bs env h e" using Cons.prems(2) by simp
  obtain out3 where o3: "write_loop ops env h bs (first xs NULL) (e_block e + n) out2 =
      Ret (of_nat (end_block bs (unat (e_block e) + nblocks bs e) (map snd xs)), out3)"
    "emits (concat (chunks_from bs env h (unat (e_block e) + nblocks bs e) (map snd xs))) out2 out3"
    "crc32 out3 = (if use_crc out2 then image_crc bs env h (map snd xs) (crc32 out2) else crc32 out2)"
    using Cons.IH [OF e(3) rest g2(1,2), of "e_block e + n"] unfolding n(2) by blast
  have em: "emits (concat (chunks_from bs env h (unat lb) (map snd (c # xs)))) out out3"
    using emits_trans [OF emits_trans [OF o1(2) o2(2)] o3(2)] by (simp add: c sk_def split: if_splits)
  have run: "write_loop ops env h bs (first (c # xs) NULL) lb out =
      Ret (of_nat (end_block bs (unat lb) (map snd (c # xs))), out3)"
    using o1(1,4) o2(1) o3(1) n(1) e(2)
    by (cases "lb < e_block e"; subst write_loop.simps)
      (simp_all add: c backed_block_len_def backed_block_block_def backed_block_iter_next_def)
  show ?case using em run o1(3) o2(3) o3(3) g1(3) g2(3) by (auto simp: c image_crc_def)
qed

end

section \<open>The whole file\<close>

definition image_file :: "u32 \<Rightarrow> file_env \<Rightarrow> bb_heap \<Rightarrow> bool \<Rightarrow> nat \<Rightarrow> extent list \<Rightarrow> u8 list" where
  "image_file bs env h crc nb es =
     sparse_header_bytes (image_header bs (int nb * uint bs)
       (of_nat (length (image_chunks bs env h nb es)) + (if crc then 1 else 0))) @
     concat (image_chunks bs env h nb es) @ (if crc then crc_chunk_bytes (image_crc bs env h es 0) else [])"

text \<open>A sparse file of \<open>nb\<close> blocks whose extents can be written and lie inside the file.\<close>

definition sf_ok :: "file_env \<Rightarrow> bb_heap \<Rightarrow> sparse_file \<Rightarrow> nat \<Rightarrow> cell list \<Rightarrow> bool" where
  "sf_ok env h s nb xs \<longleftrightarrow> bb_list h (sf_list s) xs \<and> sf_block_size s \<noteq> 0 \<and>
     (\<forall>e \<in> snd ` set xs. writable (sf_block_size s) env h e) \<and> sf_len s = int nb * uint (sf_block_size s) \<and>
     end_block (sf_block_size s) 0 (map snd xs) \<le> nb \<and> nb < 2 ^ 32"

lemma count_chunks_run:
  assumes "sf_ok env h s nb xs"
  shows "sparse_count_chunks s h = Ret (of_nat (length (image_chunks (sf_block_size s) env h nb (map snd xs))))"
proof -
  let ?bs = "sf_block_size s"
  let ?e = "end_block ?bs 0 (map snd xs)"
  have a: "path (nmap h) xs NULL" "data_blocks (sf_list s) = first xs NULL" "?bs \<noteq> 0" "?e \<le> nb" "nb < 2 ^ 32"
    "\<forall>e \<in> snd ` set xs. writable ?bs env h e" "sf_len s = int nb * uint ?bs"
    using assms by (auto simp: sf_ok_def bb_list_def)
  have b0: "0 < uint ?bs" by (rule uint_pos [OF a(3)])
  have e: "sf_len s + uint ?bs - 1 = uint ?bs - 1 + int nb * uint ?bs" by (simp add: a(7))
  have "0 \<le> int nb * uint ?bs" by simp
  then have "0 \<le> uint ?bs - 1 + int nb * uint ?bs" using b0 by linarith
  then have "len_blocks s = (uint ?bs - 1 + int nb * uint ?bs) div uint ?bs"
    unfolding len_blocks_def e by (rule sdiv_nonneg [OF _ b0])
  also have "\<dots> = int nb + (uint ?bs - 1) div uint ?bs" using b0 by (intro div_mult_self1) simp
  finally have lb: "len_blocks s = int nb" using b0 by (simp add: div_pos_pos_trivial)
  have "uint (of_nat ?e :: u32) = int ?e" using a(4,5) by (simp add: uint_nat_small)
  then show ?thesis
    using count_loop_run [OF a(3,1,6), of 0 0] a(2,3) lb
    by (simp add: sparse_count_chunks_def backed_block_iter_new_def image_chunks_def)
qed

context write_sink
begin

lemma write_all_run:
  assumes "sf_ok env h s nb xs" "good (sink out)" "writer_ok (sf_block_size s) out"
  shows "\<exists>out'. write_all_blocks ops env h s out = Ret (0, out') \<and>
    emits (concat (image_chunks (sf_block_size s) env h nb (map snd xs))) out out' \<and>
    crc32 out' = (if use_crc out then image_crc (sf_block_size s) env h (map snd xs) (crc32 out) else crc32 out)"
proof -
  let ?bs = "sf_block_size s"
  let ?e = "end_block ?bs 0 (map snd xs)"
  have a: "path (nmap h) xs NULL" "data_blocks (sf_list s) = first xs NULL" "?bs \<noteq> 0" "?e \<le> nb" "nb < 2 ^ 32"
    "\<forall>e \<in> snd ` set xs. writable ?bs env h e" "sf_len s = int nb * uint ?bs"
    using assms by (auto simp: sf_ok_def bb_list_def)
  obtain out1 where o1: "write_loop ops env h ?bs (first xs NULL) 0 out = Ret (of_nat ?e, out1)"
    "emits (concat (chunks_from ?bs env h 0 (map snd xs))) out out1"
    "crc32 out1 = (if use_crc out then image_crc ?bs env h (map snd xs) (crc32 out) else crc32 out)"
    using write_loop_run [OF a(3,1,6) assms(2,3), of 0] by auto
  have g1: "good (sink out1)" "writer_ok ?bs out1"
    using o1(2) assms(3) writer_ok_conf by (auto simp: emits_def same_conf_def)
  have "uint (of_nat ?e :: u32) = int ?e" using a(4,5) by (simp add: uint_nat_small)
  then have pad: "sf_len s - uint (of_nat ?e :: u32) * uint ?bs = int (nb - ?e) * uint ?bs"
    using a(4,7) by (simp add: of_nat_diff left_diff_distrib)
  define pad where "pad = int (nb - ?e) * uint ?bs"
  have run: "write_all_blocks ops env h s out =
      (if pad < 0 then Fault else if pad > 0 then do { (_, out) \<leftarrow> write_skip_chunk ops pad out1; Ret (0, out) } else Ret (0, out1))"
    unfolding write_all_blocks_def backed_block_iter_new_def a(2) o1(1) by (simp only: bind.simps prod.case Let_def pad pad_def)
  show ?thesis
  proof (cases "?e = nb")
    case True
    then show ?thesis using o1 run by (simp add: pad_def image_chunks_def)
  next
    case False
    then have pos: "0 < pad" using a(4) uint_pos [OF a(3)] by (simp add: pad_def)
    have "nb - ?e < 2 ^ 32" using a(5) by simp
    from skip_run [OF g1 this] obtain out2 where o2: "write_skip_chunk ops pad out1 = Ret (0, out2)"
      "emits (skip_chunk_bytes (nb - ?e)) out1 out2" "crc32 out2 = crc32 out1" unfolding pad_def by blast
    have "emits (concat (image_chunks ?bs env h nb (map snd xs))) out out2"
      using emits_trans [OF o1(2) o2(2)] False a(4) by (simp add: image_chunks_def)
    then show ?thesis using o1(3) o2(1,3) pos run by simp
  qed
qed

text \<open>Opening, writing and closing together emit the encoding of the file.\<close>

lemma write_file_run:
  assumes "sf_ok env h s nb xs" "good s0"
  shows "\<exists>out out' s1. output_file_init ops True True s0 (sf_block_size s) (sf_len s) True
      (of_nat (length (image_chunks (sf_block_size s) env h nb (map snd xs)))) crc = Ret (0, Some out) \<and>
    write_all_blocks ops env h s out = Ret (0, out') \<and> output_file_close ops out' = Ret s1 \<and> good s1 \<and>
    obs s1 = step (image_file (sf_block_size s) env h crc nb (map snd xs)) (obs s0)"
proof -
  let ?bs = "sf_block_size s"
  let ?n = "of_nat (length (image_chunks ?bs env h nb (map snd xs)))"
  have bs: "?bs \<noteq> 0" "sf_len s = int nb * uint ?bs" using assms(1) by (auto simp: sf_ok_def)
  obtain out where o: "output_file_init ops True True s0 ?bs (sf_len s) True ?n crc = Ret (0, Some out)" "writer_ok ?bs out"
    "use_crc out = crc" "crc32 out = 0" "good (sink out)"
    "obs (sink out) = step (sparse_header_bytes (image_header ?bs (sf_len s) (if crc then ?n + 1 else ?n))) (obs s0)"
    using init_run [OF assms(2) bs(1)] by blast
  obtain out' where o': "write_all_blocks ops env h s out = Ret (0, out')"
    "emits (concat (image_chunks ?bs env h nb (map snd xs))) out out'"
    "crc32 out' = (if use_crc out then image_crc ?bs env h (map snd xs) (crc32 out) else crc32 out)"
    using write_all_run [OF assms(1) o(5,2)] by blast
  have g: "good (sink out')" "writer_ok ?bs out'" "use_crc out' = crc"
    using o'(2) o(2,3) writer_ok_conf by (auto simp: emits_def same_conf_def)
  obtain s1 where s1: "output_file_close ops out' = Ret s1" "good s1"
    "obs s1 = step (if use_crc out' then crc_chunk_bytes (crc32 out') else []) (obs (sink out'))"
    using close_run [OF g(1,2)] by blast
  have "obs s1 = step (image_file ?bs env h crc nb (map snd xs)) (obs s0)"
    using s1(3) o'(2,3) o(3,4,6) g(3) bs(2) by (simp add: emits_def image_file_def step_append step_Nil)
  then show ?thesis using o(1) o'(1) s1(1,2) by blast
qed

end

interpretation len_sink: write_sink "callback_file_ops out_counter_write" "\<lambda>_. True" "\<lambda>n. n" "\<lambda>d n. n + int (length d)"
  by unfold_locales (auto simp: callback_file_ops_def callback_file_write_def out_counter_write_def int_len_small)

lemma callback_image:
  assumes "sf_ok env h s nb xs"
  shows "sparse_file_callback (True, True, True) env h s True crc buffer_callback [] =
      Ret (0, image_file (sf_block_size s) env h crc nb (map snd xs))"
  using buffer_sink.write_file_run [OF assms, of "[]" crc] count_chunks_run [OF assms]
  by (auto simp: sparse_file_callback_def output_file_open_callback_def)


definition demo_env :: file_env where
  "demo_env = \<lparr>fd_content = (\<lambda>_. None), path_open = (\<lambda>_. None), env_errno = 2\<rparr>"

definition demo_file :: sparse_file where
  "demo_file = \<lparr>sf_block_size = 4096, sf_len = 12288, sf_verbose = False, sf_list = demo_bbl\<rparr>"

lemma demo_file_ok: "sf_ok demo_env demo_heap demo_file 3 [(1, demo_ext)]"
  using demo_inv by (simp add: sf_ok_def demo_file_def bbl_inv_def writable_def demo_ext_def ext_ok_def nblocks_def)


end
