(* ===== verification/Sparse_Read.thy ===== *)
theory Sparse_Read
  imports Sparse_File
begin

text \<open>
  The reader of sparse and plain images, \<open>core/libsparse/sparse_read.c\<close>, with \<open>read_all\<close> of
  \<open>output_file.c\<close>. The file that is read has a position; how many bytes a call of \<open>read\<close> returns is a
  parameter. Error messages are not modelled.
\<close>

section \<open>Reading a descriptor\<close>

record in_file =
  in_bytes :: "u8 list"
  in_pos :: nat

text \<open>The result of \<open>read(fd, buf, n)\<close>: a count, or \<open>-e\<close> when the call fails with error number \<open>e\<close>.\<close>

type_synonym read_policy = "nat \<Rightarrow> in_file \<Rightarrow> int"

definition remaining :: "in_file \<Rightarrow> nat" where
  "remaining f = length (in_bytes f) - in_pos f"

definition read_contract :: "read_policy \<Rightarrow> bool" where
  "read_contract rd \<longleftrightarrow> (\<forall>n f. 0 < n \<longrightarrow> rd n f < 0 \<or>
     (if remaining f = 0 then rd n f = 0 else 0 < rd n f \<and> rd n f \<le> int (min n (remaining f))))"

partial_function (option) read_loop :: "read_policy \<Rightarrow> nat \<Rightarrow> u8 list \<Rightarrow> in_file \<Rightarrow> (int \<times> u8 list \<times> in_file) exec" where
  [code]: "read_loop rd len acc f =
     (if length acc < len then
        (let ret = rd (len - length acc) f
         in if ret < 0 then Ret (ret, acc, f)
            else if ret = 0 then Ret (- EINVAL, acc, f)
            else read_loop rd len (acc @ take (nat ret) (drop (in_pos f) (in_bytes f))) (f\<lparr>in_pos := in_pos f + nat ret\<rparr>))
      else Ret (0, acc, f))"

definition read_all :: "read_policy \<Rightarrow> nat \<Rightarrow> in_file \<Rightarrow> (int \<times> u8 list \<times> in_file) exec" where
  "read_all rd len f = read_loop rd len [] f"

definition lseek_cur :: "nat \<Rightarrow> in_file \<Rightarrow> in_file" where
  "lseek_cur n f = f\<lparr>in_pos := in_pos f + n\<rparr>"

section \<open>Chunks\<close>

definition COPY_BUF_SIZE :: nat where
  "COPY_BUF_SIZE = 1024 * 1024"

partial_function (option) raw_crc_loop :: "read_policy \<Rightarrow> nat \<Rightarrow> in_file \<Rightarrow> u32 \<Rightarrow> (int \<times> in_file \<times> u32) exec" where
  [code]: "raw_crc_loop rd len f crc =
     (if len = 0 then Ret (0, f, crc)
      else do {
        let chunk = min len COPY_BUF_SIZE;
        (ret, buf, f) \<leftarrow> read_all rd chunk f;
        if ret < 0 then Ret (ret, f, crc)
        else raw_crc_loop rd (len - chunk) f (sparse_crc32 crc buf) })"

definition process_raw_chunk ::
    "read_policy \<Rightarrow> allocator \<Rightarrow> sparse_file \<Rightarrow> u32 \<Rightarrow> int \<Rightarrow> i64 \<Rightarrow> u32 \<Rightarrow> u32 \<Rightarrow> u32 ptr \<Rightarrow> in_file \<Rightarrow> bb_heap \<Rightarrow>
     (int \<times> sparse_file \<times> u32 ptr \<times> in_file \<times> bb_heap) exec" where
  "process_raw_chunk rd malloc s chunk_size fd offset blocks block crc f h =
     (let len = blocks * sf_block_size s
      in if sf_block_size s = 0 then Fault
         else if chunk_size mod sf_block_size s \<noteq> 0 then Ret (- EINVAL, s, crc, f, h)
         else if chunk_size div sf_block_size s \<noteq> blocks then Ret (- EINVAL, s, crc, f, h)
         else do {
           (ret, s, h) \<leftarrow> sparse_file_add_fd malloc s fd offset len block h;
           if ret < 0 then Ret (ret, s, crc, f, h)
           else (case crc of
               Some c \<Rightarrow> do {
                 (ret, f, c) \<leftarrow> raw_crc_loop rd (unat len) f c;
                 Ret (if ret < 0 then ret else 0, s, Some c, f, h) }
             | None \<Rightarrow> Ret (0, s, NULL, lseek_cur (unat len) f, h)) })"

text \<open>The checksum of \<open>len\<close> bytes taken from a buffer that is used over and over.\<close>

function buf_crc_loop :: "u8 list \<Rightarrow> nat \<Rightarrow> u32 \<Rightarrow> u32" where
  "buf_crc_loop copybuf len crc =
     (if len = 0 then crc
      else let chunk = min len COPY_BUF_SIZE in buf_crc_loop copybuf (len - chunk) (sparse_crc32 crc (take chunk copybuf)))"
  by auto
termination
  by (relation "measure (\<lambda>(copybuf, len, crc). len)") (auto simp: COPY_BUF_SIZE_def)

declare buf_crc_loop.simps [simp del]

definition process_fill_chunk ::
    "read_policy \<Rightarrow> allocator \<Rightarrow> sparse_file \<Rightarrow> u32 \<Rightarrow> u32 \<Rightarrow> u32 \<Rightarrow> u32 ptr \<Rightarrow> in_file \<Rightarrow> bb_heap \<Rightarrow>
     (int \<times> sparse_file \<times> u32 ptr \<times> in_file \<times> bb_heap) exec" where
  "process_fill_chunk rd malloc s chunk_size blocks block crc f h =
     (let len = unat blocks * unat (sf_block_size s)
      in if chunk_size \<noteq> 4 then Ret (- EINVAL, s, crc, f, h)
         else do {
           (ret, buf, f) \<leftarrow> read_all rd 4 f;
           if ret < 0 then Ret (ret, s, crc, f, h)
           else do {
             let fill_val = of_le32 buf;
             (ret, s, h) \<leftarrow> sparse_file_add_fill malloc s fill_val (of_nat len) block h;
             if ret < 0 then Ret (ret, s, crc, f, h)
             else (case crc of
                 Some c \<Rightarrow>
                   Ret (0, s, Some (buf_crc_loop (concat (replicate (COPY_BUF_SIZE div 4) (le32 fill_val))) len c), f, h)
               | None \<Rightarrow> Ret (0, s, NULL, f, h)) } })"

definition process_skip_chunk :: "sparse_file \<Rightarrow> u32 \<Rightarrow> u32 \<Rightarrow> u32 ptr \<Rightarrow> int \<times> u32 ptr" where
  "process_skip_chunk s chunk_size blocks crc =
     (let len = unat blocks * unat (sf_block_size s)
      in if chunk_size \<noteq> 0 then (- EINVAL, crc)
         else (0, map_option (buf_crc_loop (replicate COPY_BUF_SIZE 0) len) crc))"

definition process_crc32_chunk :: "read_policy \<Rightarrow> u32 \<Rightarrow> u32 \<Rightarrow> in_file \<Rightarrow> (int \<times> in_file) exec" where
  "process_crc32_chunk rd chunk_size crc f =
     (if chunk_size \<noteq> 4 then Ret (- EINVAL, f)
      else do {
        (ret, buf, f) \<leftarrow> read_all rd 4 f;
        if ret < 0 then Ret (ret, f)
        else if of_le32 buf \<noteq> crc then Ret (- EINVAL, f)
        else Ret (0, f) })"

text \<open>The checksum chunk reads \<open>*crc_ptr\<close> also when the caller asked for no checksum and the pointer is null.\<close>

definition process_chunk ::
    "read_policy \<Rightarrow> allocator \<Rightarrow> sparse_file \<Rightarrow> int \<Rightarrow> i64 \<Rightarrow> u32 \<Rightarrow> chunk_header \<Rightarrow> u32 \<Rightarrow> u32 ptr \<Rightarrow> in_file \<Rightarrow> bb_heap \<Rightarrow>
     (int \<times> sparse_file \<times> u32 ptr \<times> in_file \<times> bb_heap) exec" where
  "process_chunk rd malloc s fd offset hdr_sz hdr cur_block crc f h =
     (let chunk_data_size = total_sz hdr - hdr_sz
      in if chunk_type hdr = CHUNK_TYPE_RAW then do {
           (ret, s, crc, f, h) \<leftarrow> process_raw_chunk rd malloc s chunk_data_size fd offset (chunk_sz hdr) cur_block crc f h;
           Ret (if ret < 0 then ret else sint (chunk_sz hdr), s, crc, f, h) }
         else if chunk_type hdr = CHUNK_TYPE_FILL then do {
           (ret, s, crc, f, h) \<leftarrow> process_fill_chunk rd malloc s chunk_data_size (chunk_sz hdr) cur_block crc f h;
           Ret (if ret < 0 then ret else sint (chunk_sz hdr), s, crc, f, h) }
         else if chunk_type hdr = CHUNK_TYPE_DONT_CARE then
           (let (ret, crc) = process_skip_chunk s chunk_data_size (chunk_sz hdr) crc
            in Ret (if chunk_data_size \<noteq> 0 \<and> ret < 0 then ret else sint (chunk_sz hdr), s, crc, f, h))
         else if chunk_type hdr = CHUNK_TYPE_CRC32 then do {
           c \<leftarrow> crc;
           (ret, f) \<leftarrow> process_crc32_chunk rd chunk_data_size c f;
           Ret (if ret < 0 then ret else 0, s, crc, f, h) }
         else Ret (0, s, crc, f, h))"

section \<open>Sparse images\<close>

fun chunk_loop ::
    "read_policy \<Rightarrow> allocator \<Rightarrow> int \<Rightarrow> u32 \<Rightarrow> nat \<Rightarrow> sparse_file \<Rightarrow> u32 \<Rightarrow> u32 ptr \<Rightarrow> in_file \<Rightarrow> bb_heap \<Rightarrow>
     (int \<times> sparse_file \<times> u32 \<times> in_file \<times> bb_heap) exec" where
  "chunk_loop rd malloc fd hdr_sz 0 s cur_block crc f h = Ret (0, s, cur_block, f, h)"
| "chunk_loop rd malloc fd hdr_sz (Suc i) s cur_block crc f h = do {
     (ret, buf, f) \<leftarrow> read_all rd CHUNK_HEADER_LEN f;
     if ret < 0 then Ret (ret, s, cur_block, f, h)
     else do {
       let f = (if unat hdr_sz > CHUNK_HEADER_LEN then lseek_cur (unat hdr_sz - CHUNK_HEADER_LEN) f else f);
       (ret, s, crc, f, h) \<leftarrow>
         process_chunk rd malloc s fd (of_nat (in_pos f)) hdr_sz (chunk_header_of buf) cur_block crc f h;
       if ret < 0 then Ret (ret, s, cur_block, f, h)
       else chunk_loop rd malloc fd hdr_sz i s (cur_block + of_int ret) crc f h } }"

definition sparse_file_read_sparse ::
    "bool \<Rightarrow> read_policy \<Rightarrow> allocator \<Rightarrow> sparse_file \<Rightarrow> int \<Rightarrow> bool \<Rightarrow> in_file \<Rightarrow> bb_heap \<Rightarrow>
     (int \<times> sparse_file \<times> in_file \<times> bb_heap) exec" where
  "sparse_file_read_sparse copybuf_ok rd malloc s fd crc f h =
     (if \<not> copybuf_ok then Ret (- ENOMEM, s, f, h)
      else do {
        (ret, buf, f) \<leftarrow> read_all rd SPARSE_HEADER_LEN f;
        if ret < 0 then Ret (ret, s, f, h)
        else do {
          let hdr = sparse_header_of buf;
          if magic hdr \<noteq> SPARSE_HEADER_MAGIC then Ret (- EINVAL, s, f, h)
          else if major_version hdr \<noteq> SPARSE_HEADER_MAJOR_VER then Ret (- EINVAL, s, f, h)
          else if unat (file_hdr_sz hdr) < SPARSE_HEADER_LEN then Ret (- EINVAL, s, f, h)
          else if unat (chunk_hdr_sz hdr) < CHUNK_HEADER_LEN then Ret (- EINVAL, s, f, h)
          else do {
            let f = (if unat (file_hdr_sz hdr) > SPARSE_HEADER_LEN
                     then lseek_cur (unat (file_hdr_sz hdr) - SPARSE_HEADER_LEN) f else f);
            (ret, s, cur_block, f, h) \<leftarrow>
              chunk_loop rd malloc fd (ucast (chunk_hdr_sz hdr)) (unat (total_chunks hdr)) s 0 (if crc then Some 0 else NULL) f h;
            if ret < 0 then Ret (ret, s, f, h)
            else if total_blks hdr \<noteq> cur_block then Ret (- EINVAL, s, f, h)
            else Ret (0, s, f, h) } } })"

section \<open>Plain images\<close>

definition word_at :: "u8 list \<Rightarrow> nat \<Rightarrow> u32 exec" where
  "word_at buf i = do { b \<leftarrow> read_at (4 * i) 4 buf; Ret (of_le32 b) }"

text \<open>Whether the first and all later words of a block agree: the loop over \<open>i\<close>.\<close>

fun same_words :: "u8 list \<Rightarrow> nat list \<Rightarrow> bool exec" where
  "same_words buf [] = Ret True"
| "same_words buf (i # is) = do {
     a \<leftarrow> word_at buf 0;
     b \<leftarrow> word_at buf i;
     if a \<noteq> b then Ret False else same_words buf is }"

partial_function (option) normal_loop ::
    "read_policy \<Rightarrow> allocator \<Rightarrow> int \<Rightarrow> sparse_file \<Rightarrow> int \<Rightarrow> i64 \<Rightarrow> u32 \<Rightarrow> in_file \<Rightarrow> bb_heap \<Rightarrow>
     (int \<times> sparse_file \<times> in_file \<times> bb_heap) exec" where
  [code]: "normal_loop rd malloc fd s remain offset block f h =
     (if remain > 0 then do {
        let to_read = (of_int (min remain (uint (sf_block_size s))) :: u32);
        (ret, buf, f) \<leftarrow> read_all rd (unat to_read) f;
        if ret < 0 then Ret (ret, s, f, h)
        else do {
          sparse_block \<leftarrow> (if to_read = sf_block_size s then same_words buf [1..<unat (sf_block_size s div 4)] else Ret False);
          (_, s, h) \<leftarrow>
            (if sparse_block then do { v \<leftarrow> word_at buf 0; sparse_file_add_fill malloc s v to_read block h }
             else sparse_file_add_fd malloc s fd offset to_read block h);
          normal_loop rd malloc fd s (remain - uint to_read) (offset + ucast to_read) (block + 1) f h } }
      else Ret (0, s, f, h))"

definition sparse_file_read_normal ::
    "bool \<Rightarrow> read_policy \<Rightarrow> allocator \<Rightarrow> sparse_file \<Rightarrow> int \<Rightarrow> in_file \<Rightarrow> bb_heap \<Rightarrow>
     (int \<times> sparse_file \<times> in_file \<times> bb_heap) exec" where
  "sparse_file_read_normal buf_ok rd malloc s fd f h =
     (if \<not> buf_ok then Ret (- ENOMEM, s, f, h) else normal_loop rd malloc fd s (sf_len s) 0 0 f h)"

definition sparse_file_read ::
    "bool \<Rightarrow> read_policy \<Rightarrow> allocator \<Rightarrow> sparse_file \<Rightarrow> int \<Rightarrow> bool \<Rightarrow> bool \<Rightarrow> in_file \<Rightarrow> bb_heap \<Rightarrow>
     (int \<times> sparse_file \<times> in_file \<times> bb_heap) exec" where
  "sparse_file_read mem_ok rd malloc s fd sparse crc f h =
     (if crc \<and> \<not> sparse then Ret (- EINVAL, s, f, h)
      else if sparse then sparse_file_read_sparse mem_ok rd malloc s fd crc f h
      else sparse_file_read_normal mem_ok rd malloc s fd f h)"

section \<open>Importing\<close>

definition sparse_file_import ::
    "bool \<times> bool \<times> bool \<Rightarrow> read_policy \<Rightarrow> allocator \<Rightarrow> int \<Rightarrow> bool \<Rightarrow> bool \<Rightarrow> in_file \<Rightarrow> bb_heap \<Rightarrow>
     (sparse_file ptr \<times> in_file \<times> bb_heap) exec" where
  "sparse_file_import mem rd malloc fd verbose crc f h =
     (let (s_ok, list_ok, copybuf_ok) = mem
      in do {
        (ret, buf, f) \<leftarrow> read_all rd SPARSE_HEADER_LEN f;
        if ret < 0 then Ret (NULL, f, h)
        else do {
          let hdr = sparse_header_of buf;
          if magic hdr \<noteq> SPARSE_HEADER_MAGIC then Ret (NULL, f, h)
          else if major_version hdr \<noteq> SPARSE_HEADER_MAJOR_VER then Ret (NULL, f, h)
          else if unat (file_hdr_sz hdr) < SPARSE_HEADER_LEN then Ret (NULL, f, h)
          else if unat (chunk_hdr_sz hdr) < CHUNK_HEADER_LEN then Ret (NULL, f, h)
          else do {
            sp \<leftarrow> sparse_file_new s_ok list_ok (blk_sz hdr) (uint (total_blks hdr) * uint (blk_sz hdr));
            case sp of
              None \<Rightarrow> Ret (NULL, f, h)
            | Some s \<Rightarrow> do {
                (ret, s, f, h) \<leftarrow>
                  sparse_file_read copybuf_ok rd malloc (s\<lparr>sf_verbose := verbose\<rparr>) fd True crc (f\<lparr>in_pos := 0\<rparr>) h;
                if ret < 0 then do {
                  h \<leftarrow> sparse_file_destroy s h;
                  Ret (NULL, f, h) }
                else Ret (Some s, f, h) } } } })"

definition sparse_file_import_auto ::
    "bool \<times> bool \<times> bool \<Rightarrow> bool \<times> bool \<times> bool \<Rightarrow> read_policy \<Rightarrow> allocator \<Rightarrow> int \<Rightarrow> bool \<Rightarrow> in_file \<Rightarrow> bb_heap \<Rightarrow>
     (sparse_file ptr \<times> in_file \<times> bb_heap) exec" where
  "sparse_file_import_auto mem mem' rd malloc fd crc f h = do {
     (sp, f, h) \<leftarrow> sparse_file_import mem rd malloc fd True crc f h;
     case sp of
       Some s \<Rightarrow> Ret (Some s, f, h)
     | None \<Rightarrow>
         (let (s_ok, list_ok, buf_ok) = mem'
          in do {
            sp \<leftarrow> sparse_file_new s_ok list_ok 4096 (int (length (in_bytes f)));
            case sp of
              None \<Rightarrow> Ret (NULL, f, h)
            | Some s \<Rightarrow> do {
                (ret, s, f, h) \<leftarrow> sparse_file_read_normal buf_ok rd malloc s fd (f\<lparr>in_pos := 0\<rparr>) h;
                if ret < 0 then do {
                  h \<leftarrow> sparse_file_destroy s h;
                  Ret (NULL, f, h) }
                else Ret (Some s, f, h) } }) }"

section \<open>\<open>read_all\<close> collects short reads\<close>

definition no_errors :: "read_policy \<Rightarrow> bool" where
  "no_errors rd \<longleftrightarrow> (\<forall>n f. 0 \<le> rd n f)"

lemma read_loop_run:
  assumes "read_contract rd" "length acc \<le> len"
  shows "\<exists>r acc' f'. read_loop rd len acc f = Ret (r, acc', f') \<and>
    (r = 0 \<longrightarrow> acc' = acc @ take (len - length acc) (drop (in_pos f) (in_bytes f)) \<and> len - length acc \<le> remaining f \<and>
       f' = f\<lparr>in_pos := in_pos f + (len - length acc)\<rparr>) \<and>
    (r \<noteq> 0 \<longrightarrow> r < 0) \<and> (no_errors rd \<longrightarrow> len - length acc \<le> remaining f \<longrightarrow> r = 0)"
  using assms(2)
proof (induction "len - length acc" arbitrary: acc f rule: less_induct)
  case less
  show ?case
  proof (cases "length acc < len")
    case False
    then show ?thesis using less.prems by (subst read_loop.simps) simp
  next
    case True
    define n where "n = rd (len - length acc) f"
    have c: "n < 0 \<or> (if remaining f = 0 then n = 0 else 0 < n \<and> n \<le> int (min (len - length acc) (remaining f)))"
      using assms(1) True unfolding read_contract_def n_def by (meson zero_less_diff)
    consider "n < 0" | "n = 0" "remaining f = 0" | "0 < n" "nat n \<le> len - length acc" "nat n \<le> remaining f"
      using c by (auto split: if_splits)
    then show ?thesis
    proof cases
      case 1
      moreover have "\<not> no_errors rd" using 1 unfolding n_def no_errors_def by (meson not_le)
      ultimately show ?thesis using True by (subst read_loop.simps) (simp flip: n_def)
    next
      case 2
      then show ?thesis using True by (subst read_loop.simps) (simp add: EINVAL_def flip: n_def)
    next
      case 3
      define acc1 where "acc1 = acc @ take (nat n) (drop (in_pos f) (in_bytes f))"
      define f1 where "f1 = f\<lparr>in_pos := in_pos f + nat n\<rparr>"
      have l1: "length acc1 = length acc + nat n" using 3 by (simp add: acc1_def remaining_def)
      have rem: "remaining f1 = remaining f - nat n" by (simp add: f1_def remaining_def)
      have run: "read_loop rd len acc f = read_loop rd len acc1 f1"
        using True 3 by (subst read_loop.simps) (simp add: acc1_def f1_def flip: n_def)
      have "len - length acc1 < len - length acc" "length acc1 \<le> len" using l1 3 True by simp_all
      from less.hyps [OF this, of f1] obtain r acc' f' where r: "read_loop rd len acc1 f1 = Ret (r, acc', f')"
        "r = 0 \<longrightarrow> acc' = acc1 @ take (len - length acc1) (drop (in_pos f1) (in_bytes f1)) \<and>
          len - length acc1 \<le> remaining f1 \<and> f' = f1\<lparr>in_pos := in_pos f1 + (len - length acc1)\<rparr>"
        "r \<noteq> 0 \<longrightarrow> r < 0" "no_errors rd \<longrightarrow> len - length acc1 \<le> remaining f1 \<longrightarrow> r = 0" by blast
      have "take (len - length acc) (drop (in_pos f) (in_bytes f)) =
          take (nat n) (drop (in_pos f) (in_bytes f)) @ take (len - length acc - nat n) (drop (nat n) (drop (in_pos f) (in_bytes f)))"
        by (rule take_add [of "nat n" "len - length acc - nat n", unfolded le_add_diff_inverse [OF 3(2)]])
      then have eq: "acc1 @ take (len - length acc1) (drop (in_pos f1) (in_bytes f1)) =
          acc @ take (len - length acc) (drop (in_pos f) (in_bytes f))"
        unfolding l1 by (simp add: acc1_def f1_def add.commute)
      have "len - length acc1 \<le> remaining f1 \<longleftrightarrow> len - length acc \<le> remaining f"
        "f1\<lparr>in_pos := in_pos f1 + (len - length acc1)\<rparr> = f\<lparr>in_pos := in_pos f + (len - length acc)\<rparr>"
        using 3 True unfolding rem l1 by (simp_all add: f1_def) linarith
      then show ?thesis using r unfolding run eq by auto
    qed
  qed
qed

definition reliable :: "read_policy \<Rightarrow> bool" where
  "reliable rd \<longleftrightarrow> read_contract rd \<and> no_errors rd"

lemma read_all_run:
  assumes "reliable rd" "in_pos f + len \<le> length (in_bytes f)"
  shows "read_all rd len f = Ret (0, take len (drop (in_pos f) (in_bytes f)), f\<lparr>in_pos := in_pos f + len\<rparr>)"
  using read_loop_run [of rd "[]" len f] assms by (auto simp: read_all_def reliable_def remaining_def)

text \<open>
  C33. \<open>read_all\<close> returns for every behaviour of \<open>read\<close> that the contract allows, however the bytes are
  split into short reads: it ends with 0 and exactly the next \<open>len\<close> bytes, the position moved by
  \<open>len\<close>, or with a negative error; without read errors the result is 0 just when \<open>len\<close> bytes remain.\<close>

theorem read_all_correct:
  assumes "read_contract rd"
  shows "\<exists>r buf f'. read_all rd len f = Ret (r, buf, f') \<and> r \<le> 0 \<and>
    (r = 0 \<longrightarrow> buf = take len (drop (in_pos f) (in_bytes f)) \<and> length buf = len \<and> f' = f\<lparr>in_pos := in_pos f + len\<rparr>) \<and>
    (no_errors rd \<longrightarrow> (r = 0 \<longleftrightarrow> len \<le> remaining f))"
proof -
  obtain r buf f' where r: "read_all rd len f = Ret (r, buf, f')"
    "r = 0 \<longrightarrow> buf = take len (drop (in_pos f) (in_bytes f)) \<and> len \<le> remaining f \<and> f' = f\<lparr>in_pos := in_pos f + len\<rparr>"
    "r \<noteq> 0 \<longrightarrow> r < 0" "no_errors rd \<longrightarrow> len \<le> remaining f \<longrightarrow> r = 0"
    using read_loop_run [OF assms, of "[]" len f] by (auto simp: read_all_def)
  then show ?thesis by (auto simp: remaining_def)
qed

text \<open>A reader that gets at most three bytes at a time.\<close>

definition short_reads :: read_policy where
  "short_reads n f = int (min (min n 3) (remaining f))"

lemma short_reads_ok: "reliable short_reads"
  by (auto simp: reliable_def read_contract_def short_reads_def no_errors_def)

theorem read_all_correct_witness:
  "\<exists>r buf f'. read_all short_reads 7 \<lparr>in_bytes = [0, 1, 2, 3, 4, 5, 6, 7, 8, 9], in_pos = 1\<rparr> = Ret (r, buf, f') \<and> r = 0 \<and> length buf = 7"
proof -
  have "read_contract short_reads" "no_errors short_reads" using short_reads_ok by (auto simp: reliable_def)
  moreover have "remaining \<lparr>in_bytes = [0, 1, 2, 3, 4, 5, 6, 7, 8, 9], in_pos = 1\<rparr> = 9" by (simp add: remaining_def)
  ultimately show ?thesis
    using read_all_correct [of short_reads 7 "\<lparr>in_bytes = [0, 1, 2, 3, 4, 5, 6, 7, 8, 9], in_pos = 1\<rparr>"] by fastforce
qed

end
