(* ===== verification/Sparse_Roundtrip.thy ===== *)
theory Sparse_Roundtrip
  imports Sparse_Read
begin

text \<open>
  What the reader of sparse images makes of the output of the writer. Images are compared by the
  bytes of their blocks, so a list that the reader built by merging, or with other backing stores,
  counts as the same image.
\<close>

section \<open>Appending blocks\<close>

text \<open>
  The allocator may put a node anywhere, but it decides by the addresses in use. So a node that was
  freed by a merge is the next one handed out, and the pointer \<open>last_used\<close> that \<open>queue_bb\<close> leaves behind
  is never followed into freed memory.
\<close>

definition first_fit :: "allocator \<Rightarrow> bool" where
  "first_fit malloc \<longleftrightarrow> malloc_contract malloc \<and> (\<forall>h. malloc h \<noteq> None) \<and>
     (\<forall>h h'. dom (nmap h) = dom (nmap h') \<and> names h = names h' \<longrightarrow> malloc h = malloc h')"

lemma first_fitD:
  assumes "first_fit malloc"
  shows "malloc_contract malloc" "\<exists>a. malloc h = Some a"
    "dom (nmap h) = dom (nmap h') \<Longrightarrow> names h = names h' \<Longrightarrow> malloc h = malloc h'"
  using assms unfolding first_fit_def by blast+

definition reader_inv :: "allocator \<Rightarrow> u32 \<Rightarrow> nat \<Rightarrow> bb_heap \<Rightarrow> backed_block_list \<Rightarrow> cell list \<Rightarrow> bool" where
  "reader_inv malloc bs cur h bbl xs \<longleftrightarrow> bbl_inv h bbl xs \<and> bbl_block_size bbl = bs \<and>
     last_used_ok bbl xs (the (malloc h)) \<and> dom (image_of bs (map snd xs)) \<subseteq> {..<cur}"

lemma below_before:
  assumes "bs \<noteq> 0" "exts_ok bs es" "dom (image_of bs es) \<subseteq> {..<cur}" "cur \<le> unat (e_block e)" "f \<in> set es"
  shows "before bs f e"
proof -
  have ok: "ext_ok bs f" using assms(2,5) by (simp add: exts_ok_def)
  have "unat (e_block f) + nblocks bs f - 1 \<in> dom (ext_image bs f)"
    using nblocks_pos [OF assms(1) ok] by (auto simp: dom_ext_image)
  then have "unat (e_block f) + nblocks bs f - 1 < cur" using assms(3,5) by (auto simp: dom_image_of)
  then show ?thesis using assms(4) by (simp add: before_def)
qed

text \<open>A block behind all others becomes the last one, or is merged into the last one.\<close>

lemma queue_cells_last:
  assumes "\<forall>f \<in> snd ` set xs. e_block f < e_block e"
  shows "addrs (queue_cells bs (a, e) xs) = addrs xs \<or> addrs (queue_cells bs (a, e) xs) = insert a (addrs xs)"
proof -
  have tw: "takeWhile (\<lambda>d. e_block (snd d) < e_block e) xs = xs" "dropWhile (\<lambda>d. e_block (snd d) < e_block e) xs = []"
    using assms by (auto simp: takeWhile_eq_all_conv dropWhile_eq_Nil_conv)
  show ?thesis
  proof (cases xs rule: rev_cases)
    case Nil
    then show ?thesis by (simp add: queue_cells_def)
  next
    case (snoc ls d)
    have "queue_cells bs (a, e) xs = ls @ merge_cells bs d [(a, e)]"
      unfolding queue_cells_def snd_conv tw Let_def by (simp add: snoc merge_cells_def)
    moreover have "addrs (merge_cells bs d [(a, e)]) = {fst d} \<or> addrs (merge_cells bs d [(a, e)]) = {fst d, a}"
      by (auto simp: merge_cells_def split: option.splits)
    ultimately show ?thesis by (auto simp: snoc)
  qed
qed

lemma bbl_inv_dom:
  assumes "bbl_inv h bbl xs"
  shows "addrs xs \<subseteq> dom (nmap h)"
proof
  fix a
  assume "a \<in> addrs xs"
  then obtain e where "(a, e) \<in> set xs" by auto
  moreover have "path (nmap h) xs NULL" using assms by (simp add: bbl_inv_def bb_list_def)
  ultimately show "a \<in> dom (nmap h)" using path_lookup [of "nmap h" xs NULL a e] by auto
qed

lemma append_step:
  assumes ff: "first_fit malloc" and inv: "reader_inv malloc bs cur h bbl xs"
    and e: "ext_ok bs e" "cur \<le> unat (e_block e)" "\<forall>f off. e_backing e \<noteq> BB_File f off"
  obtains a bbl' h' xs' where "malloc h = Some a" "queue_bb bbl (Some a) (new_node a (mk_bb e NULL) h) = Ret (0, bbl', h')"
    "reader_inv malloc bs (unat (e_block e) + nblocks bs e) h' bbl' xs'" "names h' = names h"
    "image_of bs (map snd xs') = image_of bs (map snd xs) ++ ext_image bs e"
proof -
  have b: "bbl_inv h bbl xs" "bbl_block_size bbl = bs" "last_used_ok bbl xs (the (malloc h))"
    "dom (image_of bs (map snd xs)) \<subseteq> {..<cur}"
    using inv by (auto simp: reader_inv_def)
  have bs: "bs \<noteq> 0" "exts_ok bs (map snd xs)" using b(1,2) by (auto simp: bbl_inv_def)
  obtain a where a: "malloc h = Some a" using first_fitD(2) [OF ff] by blast
  have mc: "malloc_contract malloc" by (rule first_fitD(1) [OF ff])
  have out: "a \<notin> addrs xs" by (rule malloc_fresh [OF mc b(1) a])
  have bef: "before bs f e" if "f \<in> snd ` set xs" for f
    using below_before [OF bs b(4) e(2)] that by simp
  have nm: "\<forall>f \<in> snd ` set xs. \<not> shared_name f e" "names_ok h e"
    using e(3) by (auto simp: shared_name_def names_ok_def)
  have lu: "last_used_ok bbl xs a" using b(3) a by simp
  have e1: "ext_ok (bbl_block_size bbl) e" "\<forall>f \<in> snd ` set xs. before (bbl_block_size bbl) f e \<or> before (bbl_block_size bbl) e f"
    using e(1) bef b(2) by auto
  obtain bbl' h' xs' where r: "queue_bb bbl (Some a) (new_node a (mk_bb e NULL) h) = Ret (0, bbl', h')"
    "bbl_inv h' bbl' xs'"
    "image_of (bbl_block_size bbl) (map snd xs') = image_of (bbl_block_size bbl) (map snd xs) ++ ext_image (bbl_block_size bbl) e"
    "names h' = names h" "bbl_block_size bbl' = bbl_block_size bbl"
    "\<forall>x. x \<notin> insert a (addrs xs) \<longrightarrow> nmap h' x = nmap h x"
    "\<forall>x. x \<in> insert a (addrs xs) - addrs xs' \<longrightarrow> nmap h' x = None"
    "last_used bbl' = (if xs = [] \<or> e_block e < e_block (snd (hd xs)) then last_used bbl else Some a)"
    "xs' = queue_cells (bbl_block_size bbl) (a, e) xs"
    by (rule add_run [OF b(1) out lu e1 nm])
  have less: "\<forall>f \<in> snd ` set xs. e_block f < e_block e"
    using bef bs(2) by (auto simp: exts_ok_def intro: before_less [OF bs(1)])
  have lu': "last_used bbl' = last_used bbl \<and> xs = [] \<or> last_used bbl' = Some a"
    using r(8) less by (cases xs) auto
  have ok: "last_used_ok bbl' xs' (the (malloc h'))"
  proof (cases "a \<in> addrs xs'")
    case True
    have "last_used bbl' = None \<or> last_used bbl' = Some a"
      using lu' lu by (auto simp: last_used_ok_def split: option.splits)
    then show ?thesis using True by (elim disjE) (simp_all add: last_used_ok_def)
  next
    case False
    then have "addrs xs' = addrs xs" using queue_cells_last [OF less, of "bbl_block_size bbl" a] r(9) by auto
    have "nmap h a = None" using mc a by (simp add: malloc_contract_def)
    moreover have "nmap h' a = None" using r(7) False by simp
    ultimately have "x \<in> dom (nmap h') \<longleftrightarrow> x \<in> dom (nmap h)" for x
      using r(6) bbl_inv_dom [OF r(2)] bbl_inv_dom [OF b(1)] \<open>addrs xs' = addrs xs\<close>
      by (cases "x \<in> insert a (addrs xs)") auto
    then have "malloc h' = Some a" using first_fitD(3) [OF ff _ r(4)] a by auto
    moreover have "xs \<noteq> []" using False r(9) by (auto simp: queue_cells_def)
    ultimately show ?thesis using lu' by (auto simp: last_used_ok_def)
  qed
  have "dom (image_of bs (map snd xs')) \<subseteq> {..<unat (e_block e) + nblocks bs e}"
    using r(3) b(2,4) e(2) by (auto simp: dom_ext_image)
  then have "reader_inv malloc bs (unat (e_block e) + nblocks bs e) h' bbl' xs'"
    using r(2,5) ok b(2) by (simp add: reader_inv_def)
  from that [OF a r(1) this r(4)] r(3) b(2) show thesis by simp
qed

section \<open>The bytes of an image\<close>

text \<open>
  The bytes of one block: a fill value fills the whole block, other contents are followed by zeros in a
  partial last block.
\<close>

definition fill_block :: "u32 \<Rightarrow> u32 \<Rightarrow> u8 list" where
  "fill_block bs v = concat (replicate (unat bs div 4) (le32 v))"

definition piece_bytes :: "u32 \<Rightarrow> file_env \<Rightarrow> bb_heap \<Rightarrow> piece \<Rightarrow> u8 list option" where
  "piece_bytes bs env h p = (case fst p of
     BB_Fill v \<Rightarrow> Some (fill_block bs v)
   | b \<Rightarrow> map_option (zero_pad (unat bs)) (ext_data env h \<lparr>e_block = 0, e_len = of_nat (snd p), e_backing = b\<rparr>))"

definition content_of :: "u32 \<Rightarrow> file_env \<Rightarrow> bb_heap \<Rightarrow> (nat \<rightharpoonup> piece) \<Rightarrow> nat \<rightharpoonup> u8 list" where
  "content_of bs env h img n = Option.bind (img n) (piece_bytes bs env h)"

text \<open>Block \<open>k\<close> of an extent.\<close>

definition ext_block :: "u32 \<Rightarrow> file_env \<Rightarrow> bb_heap \<Rightarrow> extent \<Rightarrow> nat \<Rightarrow> u8 list" where
  "ext_block bs env h e k = (case e_backing e of
     BB_Fill v \<Rightarrow> fill_block bs v
   | _ \<Rightarrow> take (unat bs) (drop (k * unat bs) (zero_pad (nblocks bs e * unat bs) (the (ext_data env h e)))))"

lemma content_of_names: "names h' = names h \<Longrightarrow> content_of bs env h' = content_of bs env h"
proof -
  assume "names h' = names h"
  then have "ext_data env h' e = ext_data env h e" for e by (simp add: ext_data_def split: backing.splits)
  then have "piece_bytes bs env h' p = piece_bytes bs env h p" for p by (simp add: piece_bytes_def split: backing.splits)
  then show ?thesis by (simp add: content_of_def fun_eq_iff cong: bind_option_cong)
qed

lemma slice_of_advance:
  assumes "slice_of c off len = Some d" "j + unat l \<le> unat len"
  shows "slice_of c (off + of_nat j) l = Some (take (unat l) (drop j d))"
proof -
  have o: "length c < 2 ^ 63" "unat off + unat len \<le> length c" "d = take (unat len) (drop (unat off) c)"
    using assms(1) by (auto simp: slice_of_def split: if_splits)
  have j: "unat off + j < 2 ^ 64" using o(1,2) assms(2) by simp
  then have "unat (of_nat j :: i64) = j" by (simp add: unat_of_nat)
  then have u: "unat (off + of_nat j) = unat off + j" using j unat_add_lem [of off "of_nat j"] by simp
  show ?thesis using o assms(2) unfolding slice_of_def u by (simp add: add.commute take_drop min_def)
qed

lemma ext_data_advance:
  assumes "ext_data env h e = Some d" "j + unat l \<le> unat (e_len e)"
  shows "ext_data env h \<lparr>e_block = b, e_len = l, e_backing = advance_backing (of_nat j) (e_backing e)\<rparr> = Some (take (unat l) (drop j d))"
proof -
  have j: "j < 2 ^ 32" using assms(2) unat_less_u32 [of "e_len e"] by linarith
  then have u: "unat (of_nat j :: u32) = j" "(ucast (of_nat j :: u32) :: i64) = of_nat j"
    by (simp_all add: unat_of_nat ucast_of_nat_64)
  show ?thesis
    using assms slice_of_advance [of _ _ "e_len e" d j l]
    by (auto simp: ext_data_def u bind_eq_Some_conv drop_take split: backing.splits if_splits)
qed

lemma ext_data_length: "ext_data env h e = Some d \<Longrightarrow> length d = unat (e_len e)"
  by (auto simp: ext_data_def slice_of_def bind_eq_Some_conv split: backing.splits if_splits)

lemma piece_bytes_ext:
  assumes "bs \<noteq> 0" "(\<exists>v. e_backing e = BB_Fill v) \<or> ext_data env h e \<noteq> None" "k < nblocks bs e"
  shows "piece_bytes bs env h (piece_of bs e k) = Some (ext_block bs env h e k)"
proof (cases "\<exists>v. e_backing e = BB_Fill v")
  case True
  then show ?thesis by (auto simp: piece_bytes_def piece_of_def ext_block_def)
next
  case False
  then obtain d where d: "ext_data env h e = Some d" using assms(2) by auto
  have b0: "0 < unat bs" using assms(1) by (simp add: unat_gt_0)
  have kb: "k * unat bs < unat (e_len e)"
    using assms(3) div_round_up_bounds(3) [OF b0] by (simp add: nblocks_def)
  define l where "l = min (unat bs) (unat (e_len e) - k * unat bs)"
  have l: "l < 2 ^ 32" "unat (of_nat l :: u32) = l"
    using unat_less_u32 [of bs] by (auto simp: l_def unat_of_nat min_def)
  have le: "k * unat bs + unat (of_nat l :: u32) \<le> unat (e_len e)" using kb l(2) by (simp add: l_def)
  have nf: "\<nexists>v. advance_backing (of_nat (k * unat bs)) (e_backing e) = BB_Fill v"
    using False by (cases "e_backing e") auto
  have "piece_bytes bs env h (piece_of bs e k) = Some (zero_pad (unat bs) (take l (drop (k * unat bs) d)))"
    using nf ext_data_advance [OF d le, of 0] l(2)
    by (auto simp: piece_bytes_def piece_of_def l_def [symmetric] split: backing.splits)
  moreover have "ext_block bs env h e k = take (unat bs) (drop (k * unat bs) (zero_pad (nblocks bs e * unat bs) d))"
    using False d by (auto simp: ext_block_def split: backing.splits)
  moreover have "zero_pad (unat bs) (take l (drop (k * unat bs) d)) =
      take (unat bs) (drop (k * unat bs) (zero_pad (nblocks bs e * unat bs) d))"
  proof -
    have "Suc k * unat bs \<le> nblocks bs e * unat bs" using assms(3) by (intro mult_right_mono) simp_all
    then have n: "k * unat bs + unat bs \<le> nblocks bs e * unat bs" by simp
    have ld: "length d = unat (e_len e)" by (rule ext_data_length [OF d])
    show ?thesis
    proof (cases "unat bs \<le> unat (e_len e) - k * unat bs")
      case True
      then show ?thesis using ld kb by (simp add: zero_pad_def l_def min_def)
    next
      case False
      then show ?thesis using ld kb n by (simp add: zero_pad_def l_def min_def)
    qed
  qed
  ultimately show ?thesis by simp
qed

section \<open>Reading one chunk\<close>

lemma drop_length_le: "drop p B = xs @ ys \<Longrightarrow> xs \<noteq> [] \<Longrightarrow> p + length xs \<le> length B \<and> drop (p + length xs) B = ys"
proof -
  assume a: "drop p B = xs @ ys" "xs \<noteq> []"
  have "length B - p = length xs + length ys" using arg_cong [OF a(1), of length] by simp
  moreover have "0 < length xs" using a(2) by simp
  ultimately have "p + length xs \<le> length B" by linarith
  moreover have "drop (p + length xs) B = drop (length xs) (drop p B)" by (simp add: add.commute)
  ultimately show ?thesis by (simp add: a(1))
qed

lemma header_step:
  assumes "reliable rd" "drop p B = chunk_header_bytes hdr @ rest"
  shows "chunk_loop rd malloc fd 12 (Suc i) s cur crc \<lparr>in_bytes = B, in_pos = p\<rparr> h = do {
      (ret, s, crc, f, h) \<leftarrow> process_chunk rd malloc s fd (of_nat (p + 12)) 12 hdr cur crc \<lparr>in_bytes = B, in_pos = p + 12\<rparr> h;
      if ret < 0 then Ret (ret, s, cur, f, h)
      else chunk_loop rd malloc fd 12 i s (cur + of_int ret) crc f h }"
proof -
  have ne: "chunk_header_bytes hdr \<noteq> []" by (metis length_0_conv length_chunk_header_bytes zero_neq_numeral)
  have "p + 12 \<le> length B" using drop_length_le [OF assms(2) ne] by simp
  then have "read_all rd 12 \<lparr>in_bytes = B, in_pos = p\<rparr> = Ret (0, chunk_header_bytes hdr, \<lparr>in_bytes = B, in_pos = p + 12\<rparr>)"
    using read_all_run [OF assms(1), of "\<lparr>in_bytes = B, in_pos = p\<rparr>" 12] assms(2) by simp
  then show ?thesis by (simp add: CHUNK_HEADER_LEN_def)
qed

lemma sint_of_nat_small: "n < 2 ^ 31 \<Longrightarrow> sint (of_nat n :: u32) = int n"
  by (simp add: sint_small_u32 unat_of_nat)

lemma skip_step:
  assumes "reliable rd" "drop p B = skip_chunk_bytes n @ rest" "n < 2 ^ 31"
  shows "chunk_loop rd malloc fd 12 (Suc i) s (of_nat cur) NULL \<lparr>in_bytes = B, in_pos = p\<rparr> h =
    chunk_loop rd malloc fd 12 i s (of_nat (cur + n)) NULL \<lparr>in_bytes = B, in_pos = p + length (skip_chunk_bytes n)\<rparr> h"
  unfolding header_step [OF assms(1,2) [unfolded skip_chunk_bytes_def]]
  by (simp add: process_chunk_def process_skip_chunk_def CHUNK_TYPE_RAW_def CHUNK_TYPE_FILL_def CHUNK_TYPE_DONT_CARE_def
      sint_of_nat_small [OF assms(3)] skip_chunk_bytes_def)

lemma fill_step:
  assumes "reliable rd" "drop p B = fill_chunk_bytes n v @ rest" "n < 2 ^ 31"
    and "malloc h = Some a" "queue_bb (sf_list s) (Some a) (new_node a (mk_bb e NULL) h) = Ret (0, bbl', h')"
    and "e = \<lparr>e_block = of_nat cur, e_len = of_nat (n * unat (sf_block_size s)), e_backing = BB_Fill v\<rparr>"
  shows "chunk_loop rd malloc fd 12 (Suc i) s (of_nat cur) NULL \<lparr>in_bytes = B, in_pos = p\<rparr> h =
    chunk_loop rd malloc fd 12 i (s\<lparr>sf_list := bbl'\<rparr>) (of_nat (cur + n)) NULL
      \<lparr>in_bytes = B, in_pos = p + length (fill_chunk_bytes n v)\<rparr> h'"
proof -
  define hdr where "hdr = \<lparr>chunk_type = CHUNK_TYPE_FILL, reserved1 = 0, chunk_sz = of_nat n, total_sz = 16\<rparr>"
  have d: "drop p B = chunk_header_bytes hdr @ le32 v @ rest" using assms(2) by (simp add: fill_chunk_bytes_def hdr_def)
  have ne: "chunk_header_bytes hdr \<noteq> []" by (metis length_0_conv length_chunk_header_bytes zero_neq_numeral)
  have d2: "drop (p + 12) B = le32 v @ rest" using drop_length_le [OF d ne] by simp
  have "p + 12 + 4 \<le> length B" using drop_length_le [OF d2] by (simp add: le32_def)
  then have r: "read_all rd 4 \<lparr>in_bytes = B, in_pos = p + 12\<rparr> = Ret (0, le32 v, \<lparr>in_bytes = B, in_pos = p + 16\<rparr>)"
    using read_all_run [OF assms(1), of "\<lparr>in_bytes = B, in_pos = p + 12\<rparr>" 4] d2 by simp
  have n: "unat (of_nat n :: u32) = n" using assms(3) by (simp add: unat_of_nat)
  have mk: "\<lparr>bb_block = of_nat cur, bb_len = of_nat (n * unat (sf_block_size s)), bb_backing = BB_Fill v, bb_next = NULL\<rparr> = mk_bb e NULL"
    by (simp add: mk_bb_def assms(6))
  have add: "sparse_file_add_fill malloc s v (of_nat (n * unat (sf_block_size s))) (of_nat cur) h = Ret (0, s\<lparr>sf_list := bbl'\<rparr>, h')"
    by (simp only: sparse_file_add_fill_def backed_block_add_fill_def assms(4) option.case mk assms(5)) simp
  show ?thesis
    unfolding header_step [OF assms(1) d]
    using r add n by (simp add: process_chunk_def process_fill_chunk_def hdr_def CHUNK_TYPE_RAW_def CHUNK_TYPE_FILL_def
      sint_of_nat_small [OF assms(3)] fill_chunk_bytes_def add.commute)
qed

lemma raw_step:
  assumes "reliable rd" "drop p B = raw_chunk_bytes n d @ rest" "n < 2 ^ 31"
    and "sf_block_size s \<noteq> 0" "length d = n * unat (sf_block_size s)" "length d < 2 ^ 31"
    and "malloc h = Some a" "queue_bb (sf_list s) (Some a) (new_node a (mk_bb e NULL) h) = Ret (0, bbl', h')"
    and "e = \<lparr>e_block = of_nat cur, e_len = of_nat (n * unat (sf_block_size s)), e_backing = BB_Fd fd (of_nat (p + 12))\<rparr>"
  shows "chunk_loop rd malloc fd 12 (Suc i) s (of_nat cur) NULL \<lparr>in_bytes = B, in_pos = p\<rparr> h =
    chunk_loop rd malloc fd 12 i (s\<lparr>sf_list := bbl'\<rparr>) (of_nat (cur + n)) NULL
      \<lparr>in_bytes = B, in_pos = p + length (raw_chunk_bytes n d)\<rparr> h'"
proof -
  let ?bs = "sf_block_size s"
  define len where "len = (of_nat (length d) :: u32)"
  define hdr where "hdr = \<lparr>chunk_type = CHUNK_TYPE_RAW, reserved1 = 0, chunk_sz = of_nat n, total_sz = 12 + len\<rparr>"
  have b0: "0 < unat ?bs" using assms(4) by (simp add: unat_gt_0)
  have d: "drop p B = chunk_header_bytes hdr @ d @ rest" using assms(2) by (simp add: raw_chunk_bytes_def hdr_def len_def)
  have n: "unat (of_nat n :: u32) = n" using assms(3) by (simp add: unat_of_nat)
  have ul: "unat len = n * unat ?bs" using assms(6) by (simp add: len_def unat_of_nat flip: assms(5))
  have le: "of_nat n * ?bs = len"
    by (rule word_unat_eq_iff [THEN iffD2]) (use assms(5,6) ul n in \<open>simp add: unat_mult_u32\<close>)
  have md: "len mod ?bs = 0" "len div ?bs = of_nat n"
    using b0 n by (simp_all add: word_unat_eq_iff unat_mod unat_div ul)
  have mk: "\<lparr>bb_block = of_nat cur, bb_len = len, bb_backing = BB_Fd fd (of_nat (p + 12)), bb_next = NULL\<rparr> = mk_bb e NULL"
    using assms(5) by (simp add: mk_bb_def assms(9) len_def)
  have add: "sparse_file_add_fd malloc s fd (of_nat (p + 12)) len (of_nat cur) h = Ret (0, s\<lparr>sf_list := bbl'\<rparr>, h')"
    by (simp only: sparse_file_add_fd_def backed_block_add_fd_def assms(7) option.case mk assms(8)) simp
  have "process_raw_chunk rd malloc s len fd (of_nat (p + 12)) (of_nat n) (of_nat cur) NULL \<lparr>in_bytes = B, in_pos = p + 12\<rparr> h =
      Ret (0, s\<lparr>sf_list := bbl'\<rparr>, NULL, \<lparr>in_bytes = B, in_pos = p + 12 + length d\<rparr>, h')"
    unfolding process_raw_chunk_def Let_def le md add
    using assms(4,5) ul by (simp add: lseek_cur_def)
  then show ?thesis
    unfolding header_step [OF assms(1) d]
    by (simp add: process_chunk_def hdr_def sint_of_nat_small [OF assms(3)] raw_chunk_bytes_def add.assoc)
qed

section \<open>Reading the chunks of a list\<close>

text \<open>What the reader makes of the chunk of an extent: whole blocks, from the fill value or from the image file.\<close>

definition read_ext :: "u32 \<Rightarrow> int \<Rightarrow> nat \<Rightarrow> extent \<Rightarrow> extent" where
  "read_ext bs fd p e = \<lparr>e_block = e_block e, e_len = of_nat (nblocks bs e * unat bs),
     e_backing = (case e_backing e of BB_Fill v \<Rightarrow> BB_Fill v | _ \<Rightarrow> BB_Fd fd (of_nat (p + 12)))\<rparr>"

lemma read_ext_props:
  assumes "bs \<noteq> 0" "ext_ok bs e" "(unat (e_block e) + nblocks bs e) * unat bs < 2 ^ 32"
  shows "unat (e_len (read_ext bs fd p e)) = nblocks bs e * unat bs" "nblocks bs (read_ext bs fd p e) = nblocks bs e"
    "ext_ok bs (read_ext bs fd p e)" "e_block (read_ext bs fd p e) = e_block e"
    "\<forall>f off. e_backing (read_ext bs fd p e) \<noteq> BB_File f off"
proof -
  have b0: "0 < unat bs" using assms(1) by (simp add: unat_gt_0)
  have lt: "nblocks bs e * unat bs < 2 ^ 32" using assms(3) by (simp add: distrib_right)
  show l: "unat (e_len (read_ext bs fd p e)) = nblocks bs e * unat bs"
    unfolding read_ext_def using lt by (simp add: unat_of_nat del: of_nat_mult)
  have "(unat bs - 1 + nblocks bs e * unat bs) div unat bs = nblocks bs e + (unat bs - 1) div unat bs"
    using b0 by (intro div_mult_self1) simp
  then show "nblocks bs (read_ext bs fd p e) = nblocks bs e"
    unfolding nblocks_def [of bs "read_ext bs fd p e"] l using b0 by (simp add: algebra_simps)
  show b: "e_block (read_ext bs fd p e) = e_block e" by (simp add: read_ext_def)
  show "ext_ok bs (read_ext bs fd p e)"
    unfolding ext_ok_def l b using nblocks_pos [OF assms(1,2)] b0 assms(3) by (simp add: distrib_right)
  show "\<forall>f off. e_backing (read_ext bs fd p e) \<noteq> BB_File f off"
    by (simp add: read_ext_def split: backing.splits)
qed

lemma read_ext_content:
  assumes "bs \<noteq> 0" "writable bs env h e" "(unat (e_block e) + nblocks bs e) * unat bs < 2 ^ 32"
    and B: "fd_content env' fd = Some B" "length B < 2 ^ 63" "drop p B = ext_chunk bs env h e @ rest"
  shows "content_of bs env' h' (ext_image bs (read_ext bs fd p e)) = content_of bs env h (ext_image bs e)"
proof
  fix n
  let ?e = "read_ext bs fd p e"
  have ok: "ext_ok bs e" and src: "(\<exists>v. e_backing e = BB_Fill v) \<or> ext_data env h e \<noteq> None"
    using assms(2) by (auto simp: writable_def)
  note r = read_ext_props [OF assms(1) ok assms(3), of fd p]
  have "ext_block bs env' h' ?e k = ext_block bs env h e k \<and>
      ((\<exists>v. e_backing ?e = BB_Fill v) \<or> ext_data env' h' ?e \<noteq> None)" for k
  proof (cases "\<exists>v. e_backing e = BB_Fill v")
    case True
    then show ?thesis by (auto simp: ext_block_def read_ext_def)
  next
    case False
    then obtain d where d: "ext_data env h e = Some d" using src by auto
    define dd where "dd = zero_pad (nblocks bs e * unat bs) d"
    have "length d \<le> nblocks bs e * unat bs"
      using ext_data_length [OF d] div_round_up_bounds(1) [of "unat bs" "unat (e_len e)"] assms(1)
      by (simp add: nblocks_def unat_gt_0)
    then have ld: "length dd = nblocks bs e * unat bs" by (simp add: dd_def zero_pad_def)
    have ch: "ext_chunk bs env h e = raw_chunk_bytes (nblocks bs e) dd"
      using False d by (auto simp: ext_chunk_def dd_def split: backing.splits)
    have ne: "raw_chunk_bytes (nblocks bs e) dd \<noteq> []"
      unfolding raw_chunk_bytes_def by (metis append_is_Nil_conv length_0_conv length_chunk_header_bytes zero_neq_numeral)
    have "p + (12 + length dd) \<le> length B"
      using drop_length_le [OF B(3) [unfolded ch] ne] by (simp add: raw_chunk_bytes_def)
    moreover have "take (length dd) (drop (p + 12) B) = dd"
    proof -
      have "drop (p + 12) B = drop 12 (drop p B)" by (simp add: add.commute)
      then show ?thesis unfolding B(3) ch by (simp add: raw_chunk_bytes_def)
    qed
    moreover have "unat (of_nat (p + 12) :: i64) = p + 12"
      using calculation(1) B(2) by (simp add: unat_of_nat del: of_nat_add)
    ultimately have "slice_of B (of_nat (p + 12)) (e_len ?e) = Some dd"
      using B(2) unfolding slice_of_def r(1) ld by simp
    then have "ext_data env' h' ?e = Some dd"
      using False B(1) by (auto simp: ext_data_def read_ext_def split: backing.splits)
    moreover have "zero_pad (nblocks bs e * unat bs) dd = dd" by (simp add: zero_pad_def ld)
    ultimately show ?thesis
      using False d r(2) by (auto simp: ext_block_def dd_def read_ext_def split: backing.splits)
  qed
  then show "content_of bs env' h' (ext_image bs ?e) n = content_of bs env h (ext_image bs e) n"
    using piece_bytes_ext [OF assms(1), of ?e env' h'] piece_bytes_ext [OF assms(1) src]
    unfolding content_of_def ext_image_def r(2,4) by auto
qed

lemma content_of_add: "content_of bs env h (m ++ m') n = (if n \<in> dom m' then content_of bs env h m' n else content_of bs env h m n)"
  by (auto simp: content_of_def map_add_def split: option.splits)

text \<open>An image that fits: blocks are numbered below two to the 31 and bytes below two to the 32.\<close>

definition fits :: "u32 \<Rightarrow> extent \<Rightarrow> bool" where
  "fits bs e \<longleftrightarrow> (unat (e_block e) + nblocks bs e) * unat bs < 2 ^ 32 \<and> unat (e_block e) + nblocks bs e < 2 ^ 31"

lemma ext_step:
  assumes rel: "reliable rd" and ff: "first_fit malloc"
    and e: "writable bs env h e" "fits bs e" "cur \<le> unat (e_block e)"
    and B: "drop p B = ext_chunk bs env h e @ rest"
    and s: "sf_block_size s = bs" and inv: "reader_inv malloc bs cur hs (sf_list s) xs"
  obtains bbl' hs' xs' where
    "chunk_loop rd malloc fd 12 (Suc i) s (of_nat (unat (e_block e))) NULL \<lparr>in_bytes = B, in_pos = p\<rparr> hs =
     chunk_loop rd malloc fd 12 i (s\<lparr>sf_list := bbl'\<rparr>) (of_nat (unat (e_block e) + nblocks bs e)) NULL
       \<lparr>in_bytes = B, in_pos = p + length (ext_chunk bs env h e)\<rparr> hs'"
    "reader_inv malloc bs (unat (e_block e) + nblocks bs e) hs' bbl' xs'" "names hs' = names hs"
    "image_of bs (map snd xs') = image_of bs (map snd xs) ++ ext_image bs (read_ext bs fd p e)"
proof -
  have bs: "bs \<noteq> 0" using inv by (auto simp: reader_inv_def bbl_inv_def)
  have ok: "ext_ok bs e" and src: "(\<exists>v. e_backing e = BB_Fill v) \<or> ext_data env h e \<noteq> None"
    and lb: "unat (e_len e) + unat bs < 2 ^ 31"
    using e(1) by (auto simp: writable_def)
  let ?e = "read_ext bs fd p e"
  let ?n = "nblocks bs e"
  have big: "(unat (e_block e) + ?n) * unat bs < 2 ^ 32" and n: "?n < 2 ^ 31" using e(2) by (auto simp: fits_def)
  note r = read_ext_props [OF bs ok big, of fd p]
  have cur: "cur \<le> unat (e_block ?e)" using e(3) r(4) by simp
  obtain a bbl' hs' xs' where q: "malloc hs = Some a" "queue_bb (sf_list s) (Some a) (new_node a (mk_bb ?e NULL) hs) = Ret (0, bbl', hs')"
    "reader_inv malloc bs (unat (e_block ?e) + nblocks bs ?e) hs' bbl' xs'" "names hs' = names hs"
    "image_of bs (map snd xs') = image_of bs (map snd xs) ++ ext_image bs ?e"
    by (rule append_step [OF ff inv r(3) cur r(5)])
  have "chunk_loop rd malloc fd 12 (Suc i) s (of_nat (unat (e_block e))) NULL \<lparr>in_bytes = B, in_pos = p\<rparr> hs =
     chunk_loop rd malloc fd 12 i (s\<lparr>sf_list := bbl'\<rparr>) (of_nat (unat (e_block e) + ?n)) NULL
       \<lparr>in_bytes = B, in_pos = p + length (ext_chunk bs env h e)\<rparr> hs'"
  proof (cases "\<exists>v. e_backing e = BB_Fill v")
    case True
    then obtain v where v: "e_backing e = BB_Fill v" by auto
    then have ch: "ext_chunk bs env h e = fill_chunk_bytes ?n v" by (simp add: ext_chunk_def)
    have "?e = \<lparr>e_block = of_nat (unat (e_block e)), e_len = of_nat (?n * unat (sf_block_size s)), e_backing = BB_Fill v\<rparr>"
      by (simp add: read_ext_def v s)
    from fill_step [where malloc = malloc, OF rel B [unfolded ch] n q(1,2) this] show ?thesis by (simp only: ch)
  next
    case False
    then obtain d where d: "ext_data env h e = Some d" using src by auto
    define dd where "dd = zero_pad (?n * unat bs) d"
    have ch: "ext_chunk bs env h e = raw_chunk_bytes ?n dd"
      using False d by (auto simp: ext_chunk_def dd_def split: backing.splits)
    have b0: "0 < unat bs" using bs by (simp add: unat_gt_0)
    have ru: "unat (e_len e) \<le> ?n * unat bs" "?n * unat bs < unat (e_len e) + unat bs"
      using div_round_up_bounds(1,2) [OF b0, of "unat (e_len e)"] by (simp_all add: nblocks_def)
    then have ld: "length dd = ?n * unat (sf_block_size s)" "length dd < 2 ^ 31"
      using ext_data_length [OF d] lb by (simp_all add: dd_def zero_pad_def s)
    have e: "?e = \<lparr>e_block = of_nat (unat (e_block e)), e_len = of_nat (?n * unat (sf_block_size s)), e_backing = BB_Fd fd (of_nat (p + 12))\<rparr>"
      using False by (auto simp: read_ext_def s split: backing.splits)
    have "sf_block_size s \<noteq> 0" using bs s by simp
    from raw_step [where malloc = malloc, OF rel B [unfolded ch] n this ld q(1,2) e] show ?thesis by (simp only: ch)
  qed
  from that [OF this q(3) [unfolded r(2,4)] q(4,5)] show thesis .
qed

lemma end_block_le: "sorted_wrt (before bs) es \<Longrightarrow> \<forall>e \<in> set es. lb \<le> unat (e_block e) \<Longrightarrow> lb \<le> end_block bs lb es"
proof (induction es arbitrary: lb)
  case (Cons e es)
  have "\<forall>f \<in> set es. unat (e_block e) + nblocks bs e \<le> unat (e_block f)" using Cons.prems(1) by (simp add: before_def)
  from Cons.IH [OF _ this] Cons.prems show ?case by simp
qed simp

lemma read_exts:
  assumes rel: "reliable rd" and ff: "first_fit malloc"
    and B: "fd_content env' fd = Some B" "length B < 2 ^ 63"
  shows "sorted_wrt (before bs) es \<Longrightarrow> \<forall>e \<in> set es. writable bs env h e \<and> fits bs e \<and> lb \<le> unat (e_block e) \<Longrightarrow>
    drop p B = concat (chunks_from bs env h lb es) @ rest \<Longrightarrow> sf_block_size s = bs \<Longrightarrow>
    reader_inv malloc bs lb hs (sf_list s) xs \<Longrightarrow>
    \<exists>bbl' hs' xs'. chunk_loop rd malloc fd 12 (length (chunks_from bs env h lb es) + i) s (of_nat lb) NULL \<lparr>in_bytes = B, in_pos = p\<rparr> hs =
       chunk_loop rd malloc fd 12 i (s\<lparr>sf_list := bbl'\<rparr>) (of_nat (end_block bs lb es)) NULL
         \<lparr>in_bytes = B, in_pos = p + length (concat (chunks_from bs env h lb es))\<rparr> hs' \<and>
      reader_inv malloc bs (end_block bs lb es) hs' bbl' xs' \<and> names hs' = names hs \<and>
      (\<forall>n. content_of bs env' hs' (image_of bs (map snd xs')) n =
         (if n \<in> dom (image_of bs es) then content_of bs env h (image_of bs es) n
          else content_of bs env' hs (image_of bs (map snd xs)) n))"
proof (induction es arbitrary: lb p s hs xs)
  case Nil
  then show ?case by (intro exI [of _ "sf_list s"] exI [of _ hs] exI [of _ xs]) simp
next
  case (Cons e es)
  let ?nx = "unat (e_block e) + nblocks bs e"
  have bs: "bs \<noteq> 0" using Cons.prems(5) by (auto simp: reader_inv_def bbl_inv_def)
  have e: "writable bs env h e" "fits bs e" "lb \<le> unat (e_block e)" using Cons.prems(2) by auto
  define sk where "sk = (if lb < unat (e_block e) then [skip_chunk_bytes (unat (e_block e) - lb)] else [])"
  define p1 where "p1 = p + length (concat sk)"
  define i1 where "i1 = length (chunks_from bs env h ?nx es) + i"
  have ch: "chunks_from bs env h lb (e # es) = sk @ ext_chunk bs env h e # chunks_from bs env h ?nx es"
    by (simp add: sk_def)
  have d0: "drop p B = concat sk @ ext_chunk bs env h e @ concat (chunks_from bs env h ?nx es) @ rest"
    using Cons.prems(3) unfolding ch by simp
  have sk: "chunk_loop rd malloc fd 12 (length (chunks_from bs env h lb (e # es)) + i) s (of_nat lb) NULL \<lparr>in_bytes = B, in_pos = p\<rparr> hs =
      chunk_loop rd malloc fd 12 (Suc i1) s (of_nat (unat (e_block e))) NULL \<lparr>in_bytes = B, in_pos = p1\<rparr> hs \<and>
      drop p1 B = ext_chunk bs env h e @ concat (chunks_from bs env h ?nx es) @ rest"
  proof (cases "lb < unat (e_block e)")
    case True
    have d1: "drop p B = skip_chunk_bytes (unat (e_block e) - lb) @ ext_chunk bs env h e @ concat (chunks_from bs env h ?nx es) @ rest"
      using d0 True by (simp add: sk_def)
    have n: "unat (e_block e) - lb < 2 ^ 31" using e(2) by (auto simp: fits_def)
    have ne: "skip_chunk_bytes (unat (e_block e) - lb) \<noteq> []"
      unfolding skip_chunk_bytes_def by (metis length_0_conv length_chunk_header_bytes zero_neq_numeral)
    show ?thesis
      using skip_step [OF rel d1 n, of malloc fd "Suc i1" s lb hs] drop_length_le [OF d1 ne] True
      unfolding ch by (simp add: sk_def p1_def i1_def)
  next
    case False
    then show ?thesis using d0 e(3) unfolding ch by (simp add: sk_def p1_def i1_def)
  qed
  obtain bbl1 hs1 xs1 where s1:
    "chunk_loop rd malloc fd 12 (Suc i1) s (of_nat (unat (e_block e))) NULL \<lparr>in_bytes = B, in_pos = p1\<rparr> hs =
     chunk_loop rd malloc fd 12 i1 (s\<lparr>sf_list := bbl1\<rparr>) (of_nat ?nx) NULL
       \<lparr>in_bytes = B, in_pos = p1 + length (ext_chunk bs env h e)\<rparr> hs1"
    "reader_inv malloc bs ?nx hs1 bbl1 xs1" "names hs1 = names hs"
    "image_of bs (map snd xs1) = image_of bs (map snd xs) ++ ext_image bs (read_ext bs fd p1 e)"
    by (rule ext_step [OF rel ff e conjunct2 [OF sk] Cons.prems(4,5)])
  let ?p2 = "p1 + length (ext_chunk bs env h e)"
  have ne: "ext_chunk bs env h e \<noteq> []"
    by (auto simp: ext_chunk_def fill_chunk_bytes_def raw_chunk_bytes_def chunk_header_bytes_def le16_def split: backing.splits)
  have d2: "drop ?p2 B = concat (chunks_from bs env h ?nx es) @ rest" using drop_length_le [OF conjunct2 [OF sk] ne] by simp
  have tail: "sorted_wrt (before bs) es" "\<forall>f \<in> set es. writable bs env h f \<and> fits bs f \<and> ?nx \<le> unat (e_block f)"
    using Cons.prems(1,2) by simp_all (simp add: before_def)
  have s2: "sf_block_size (s\<lparr>sf_list := bbl1\<rparr>) = bs" "reader_inv malloc bs ?nx hs1 (sf_list (s\<lparr>sf_list := bbl1\<rparr>)) xs1"
    using Cons.prems(4) s1(2) by simp_all
  obtain bbl2 hs2 xs2 where i2: "chunk_loop rd malloc fd 12 i1 (s\<lparr>sf_list := bbl1\<rparr>) (of_nat ?nx) NULL \<lparr>in_bytes = B, in_pos = ?p2\<rparr> hs1 =
      chunk_loop rd malloc fd 12 i (s\<lparr>sf_list := bbl2\<rparr>) (of_nat (end_block bs ?nx es)) NULL
        \<lparr>in_bytes = B, in_pos = ?p2 + length (concat (chunks_from bs env h ?nx es))\<rparr> hs2"
    "reader_inv malloc bs (end_block bs ?nx es) hs2 bbl2 xs2" "names hs2 = names hs1"
    "\<forall>n. content_of bs env' hs2 (image_of bs (map snd xs2)) n =
       (if n \<in> dom (image_of bs es) then content_of bs env h (image_of bs es) n
        else content_of bs env' hs1 (image_of bs (map snd xs1)) n)"
    using Cons.IH [OF tail d2 s2] unfolding i1_def by auto
  have "ext_ok bs e" "(unat (e_block e) + nblocks bs e) * unat bs < 2 ^ 32" using e by (auto simp: writable_def fits_def)
  note rp = read_ext_props [OF bs this, of fd p1]
  have dm: "dom (ext_image bs (read_ext bs fd p1 e)) = dom (ext_image bs e)" by (simp add: dom_ext_image rp(2,4))
  have c1: "content_of bs env' hs1 (ext_image bs (read_ext bs fd p1 e)) = content_of bs env h (ext_image bs e)"
    by (rule read_ext_content [OF bs e(1) _ B conjunct2 [OF sk]]) (use e(2) in \<open>simp add: fits_def\<close>)
  have "content_of bs env' hs1 = content_of bs env' hs" by (rule content_of_names [OF s1(3)])
  then have cont: "\<forall>n. content_of bs env' hs2 (image_of bs (map snd xs2)) n =
      (if n \<in> dom (image_of bs (e # es)) then content_of bs env h (image_of bs (e # es)) n
       else content_of bs env' hs (image_of bs (map snd xs)) n)"
    unfolding i2(4) [rule_format] s1(4) content_of_add dm c1 image_of.simps dom_map_add by auto
  have run: "chunk_loop rd malloc fd 12 (length (chunks_from bs env h lb (e # es)) + i) s (of_nat lb) NULL \<lparr>in_bytes = B, in_pos = p\<rparr> hs =
      chunk_loop rd malloc fd 12 i (s\<lparr>sf_list := bbl2\<rparr>) (of_nat (end_block bs lb (e # es))) NULL
        \<lparr>in_bytes = B, in_pos = p + length (concat (chunks_from bs env h lb (e # es)))\<rparr> hs2"
    unfolding conjunct1 [OF sk] s1(1) i2(1) unfolding ch by (simp add: p1_def add.assoc)
  have inv: "reader_inv malloc bs (end_block bs lb (e # es)) hs2 bbl2 xs2" "names hs2 = names hs" using i2(2,3) s1(3) by simp_all
  show ?case using run cont inv by blast
qed

section \<open>Importing a written image\<close>

lemma chunks_count:
  assumes "bs \<noteq> 0"
  shows "sorted_wrt (before bs) es \<Longrightarrow> \<forall>e \<in> set es. ext_ok bs e \<and> lb \<le> unat (e_block e) \<Longrightarrow>
    lb + length (chunks_from bs env h lb es) \<le> end_block bs lb es"
proof (induction es arbitrary: lb)
  case (Cons e es)
  have "0 < nblocks bs e" using nblocks_pos [OF assms] Cons.prems(2) by simp
  moreover have "\<forall>f \<in> set es. ext_ok bs f \<and> unat (e_block e) + nblocks bs e \<le> unat (e_block f)"
    using Cons.prems(1,2) by (simp add: before_def)
  from Cons.IH [OF _ this] have "unat (e_block e) + nblocks bs e + length (chunks_from bs env h (unat (e_block e) + nblocks bs e) es)
      \<le> end_block bs lb (e # es)" using Cons.prems(1) by simp
  ultimately show ?case using Cons.prems(2) by auto
qed simp

definition importable :: "u32 \<Rightarrow> file_env \<Rightarrow> bb_heap \<Rightarrow> nat \<Rightarrow> extent list \<Rightarrow> bool" where
  "importable bs env h nb es \<longleftrightarrow> bs \<noteq> 0 \<and> sorted_wrt (before bs) es \<and> (\<forall>e \<in> set es. writable bs env h e \<and> fits bs e) \<and>
     end_block bs 0 es \<le> nb \<and> nb < 2 ^ 31"

lemma image_chunks_count:
  assumes "importable bs env h nb es"
  shows "length (image_chunks bs env h nb es) \<le> nb"
proof -
  have "length (chunks_from bs env h 0 es) \<le> end_block bs 0 es"
    using chunks_count [of bs es 0 env h] assms by (auto simp: importable_def writable_def)
  then show ?thesis using assms by (simp add: image_chunks_def importable_def)
qed

lemma read_image:
  assumes rel: "reliable rd" and ff: "first_fit malloc"
    and B: "fd_content env' fd = Some B" "length B < 2 ^ 63" "drop p B = concat (image_chunks bs env h nb es) @ rest"
    and im: "importable bs env h nb es"
    and s: "sf_block_size s = bs" "sf_list s = \<lparr>data_blocks = NULL, last_used = NULL, bbl_block_size = bs\<rparr>"
  shows "\<exists>bbl' hs' xs'. chunk_loop rd malloc fd 12 (length (image_chunks bs env h nb es) + i) s 0 NULL \<lparr>in_bytes = B, in_pos = p\<rparr> hs =
      chunk_loop rd malloc fd 12 i (s\<lparr>sf_list := bbl'\<rparr>) (of_nat nb) NULL
        \<lparr>in_bytes = B, in_pos = p + length (concat (image_chunks bs env h nb es))\<rparr> hs' \<and>
     bbl_inv hs' bbl' xs' \<and> bbl_block_size bbl' = bs \<and>
     content_of bs env' hs' (image_of bs (map snd xs')) = content_of bs env h (image_of bs es)"
proof -
  let ?m = "end_block bs 0 es"
  let ?c = "chunks_from bs env h 0 es"
  define sk where "sk = (if ?m < nb then [skip_chunk_bytes (nb - ?m)] else [])"
  have ic: "image_chunks bs env h nb es = ?c @ sk" by (simp add: image_chunks_def sk_def)
  have inv: "reader_inv malloc bs 0 hs (sf_list s) []" using im s(2)
    by (simp add: reader_inv_def importable_def bbl_inv_def bb_list_def last_used_ok_def exts_ok_def)
  have im': "sorted_wrt (before bs) es" "\<forall>e \<in> set es. writable bs env h e \<and> fits bs e \<and> 0 \<le> unat (e_block e)"
    using im by (simp_all add: importable_def)
  have d: "drop p B = concat ?c @ concat sk @ rest" using B(3) by (simp add: ic)
  obtain bbl' hs' xs' where r: "chunk_loop rd malloc fd 12 (length ?c + (length sk + i)) s (of_nat 0) NULL \<lparr>in_bytes = B, in_pos = p\<rparr> hs =
       chunk_loop rd malloc fd 12 (length sk + i) (s\<lparr>sf_list := bbl'\<rparr>) (of_nat ?m) NULL
         \<lparr>in_bytes = B, in_pos = p + length (concat ?c)\<rparr> hs'"
    "reader_inv malloc bs ?m hs' bbl' xs'"
    "\<forall>n. content_of bs env' hs' (image_of bs (map snd xs')) n =
         (if n \<in> dom (image_of bs es) then content_of bs env h (image_of bs es) n
          else content_of bs env' hs (image_of bs (map snd ([] :: cell list))) n)"
    using read_exts [OF rel ff B(1,2) im' d s(1) inv, of "length sk + i"] by blast
  have c: "content_of bs env' hs' (image_of bs (map snd xs')) = content_of bs env h (image_of bs es)"
  proof
    fix n
    show "content_of bs env' hs' (image_of bs (map snd xs')) n = content_of bs env h (image_of bs es) n"
      using r(3) [rule_format, of n] by (cases "image_of bs es n") (auto simp: content_of_def)
  qed
  have l: "chunk_loop rd malloc fd 12 (length sk + i) (s\<lparr>sf_list := bbl'\<rparr>) (of_nat ?m) NULL
         \<lparr>in_bytes = B, in_pos = p + length (concat ?c)\<rparr> hs' =
       chunk_loop rd malloc fd 12 i (s\<lparr>sf_list := bbl'\<rparr>) (of_nat nb) NULL
         \<lparr>in_bytes = B, in_pos = p + length (concat ?c) + length (concat sk)\<rparr> hs'"
  proof (cases "?m < nb")
    case True
    have "drop (p + length (concat ?c)) B = skip_chunk_bytes (nb - ?m) @ rest"
      using d True unfolding add.commute [of p] drop_drop [symmetric] by (simp add: sk_def)
    moreover have "nb - ?m < 2 ^ 31" using im by (auto simp: importable_def)
    ultimately show ?thesis
      using skip_step [OF rel, of "p + length (concat ?c)" B "nb - ?m" rest malloc fd i "s\<lparr>sf_list := bbl'\<rparr>" ?m hs'] True by (simp add: sk_def)
  next
    case False
    then have "?m = nb" using im by (simp add: importable_def)
    then show ?thesis using False by (simp add: sk_def)
  qed
  have "chunk_loop rd malloc fd 12 (length (image_chunks bs env h nb es) + i) s 0 NULL \<lparr>in_bytes = B, in_pos = p\<rparr> hs =
      chunk_loop rd malloc fd 12 i (s\<lparr>sf_list := bbl'\<rparr>) (of_nat nb) NULL
        \<lparr>in_bytes = B, in_pos = p + length (concat (image_chunks bs env h nb es))\<rparr> hs'"
    using r(1) [unfolded l] unfolding ic by (simp add: add.assoc)
  then show ?thesis using c r(2) unfolding reader_inv_def by blast
qed

definition empty_file :: "u32 \<Rightarrow> nat \<Rightarrow> bool \<Rightarrow> sparse_file" where
  "empty_file bs nb v = \<lparr>sf_block_size = bs, sf_len = int nb * uint bs, sf_verbose = v,
     sf_list = \<lparr>data_blocks = NULL, last_used = NULL, bbl_block_size = bs\<rparr>\<rparr>"

lemma import_start:
  assumes rel: "reliable rd" and im: "importable bs env h nb es" and B: "B = image_file bs env h crc' nb es"
  shows "sparse_file_import (True, True, True) rd malloc fd v crc \<lparr>in_bytes = B, in_pos = 0\<rparr> hs = do {
      (ret, s, cur_block, f, h) \<leftarrow>
        chunk_loop rd malloc fd 12 (length (image_chunks bs env h nb es) + (if crc' then 1 else 0)) (empty_file bs nb v) 0
          (if crc then Some 0 else NULL) \<lparr>in_bytes = B, in_pos = 28\<rparr> hs;
      if ret < 0 then do { h \<leftarrow> sparse_file_destroy s h; Ret (NULL, f, h) }
      else if of_nat nb \<noteq> cur_block then do { h \<leftarrow> sparse_file_destroy s h; Ret (NULL, f, h) }
      else Ret (Some s, f, h) }"
proof -
  let ?k = "length (image_chunks bs env h nb es)"
  define hdr where "hdr = image_header bs (int nb * uint bs) (of_nat ?k + (if crc' then 1 else 0))"
  have bs: "bs \<noteq> 0" and nb: "nb < 2 ^ 31" using im by (simp_all add: importable_def)
  have k: "?k < 2 ^ 31" using image_chunks_count [OF im] nb by simp
  have len: "28 \<le> length B" "take 28 B = sparse_header_bytes hdr" unfolding B image_file_def hdr_def by simp_all
  have ra: "read_all rd 28 \<lparr>in_bytes = B, in_pos = 0\<rparr> = Ret (0, sparse_header_bytes hdr, \<lparr>in_bytes = B, in_pos = 28\<rparr>)"
    using read_all_run [OF rel, of "\<lparr>in_bytes = B, in_pos = 0\<rparr>" 28] len by simp
  have tb: "total_blks hdr = of_nat nb"
    using bs uint_pos [of bs] by (simp add: hdr_def image_header_def sdiv_nonneg)
  have tc: "unat (total_chunks hdr) = ?k + (if crc' then 1 else 0)"
    using k by (simp add: hdr_def image_header_def unat_word_ariths unat_of_nat take_bit_eq_mod)
  have u: "uint (of_nat nb :: u32) = int nb" using nb by (simp add: uint_nat_small)
  have f: "magic hdr = SPARSE_HEADER_MAGIC" "major_version hdr = SPARSE_HEADER_MAJOR_VER" "file_hdr_sz hdr = 28"
    "chunk_hdr_sz hdr = 12" "blk_sz hdr = bs"
    by (simp_all add: hdr_def image_header_def SPARSE_HEADER_MAJOR_VER_def)
  define r where "r = chunk_loop rd malloc fd 12 (?k + (if crc' then 1 else 0)) (empty_file bs nb v) 0
    (if crc then Some 0 else NULL) \<lparr>in_bytes = B, in_pos = 28\<rparr> hs"
  have "sparse_file_new True True bs (int nb * uint bs) = Ret (Some (empty_file bs nb False))"
    by (simp add: sparse_file_new_def backed_block_list_new_def empty_file_def)
  moreover have "empty_file bs nb False\<lparr>sf_verbose := v\<rparr> = empty_file bs nb v" by (simp add: empty_file_def)
  ultimately show ?thesis unfolding r_def [symmetric]
    by (cases r) (simp_all add: sparse_file_import_def sparse_file_read_def sparse_file_read_sparse_def ra f tb tc u r_def [symmetric]
      SPARSE_HEADER_LEN_def CHUNK_HEADER_LEN_def EINVAL_def Let_def split: prod.splits)
qed

lemma chunks_at_28: "B = image_file bs env h crc nb es \<Longrightarrow>
    drop 28 B = concat (image_chunks bs env h nb es) @ (if crc then crc_chunk_bytes (image_crc bs env h es 0) else [])"
  by (simp add: image_file_def)

text \<open>The files the round trip is about: well-formed, with extents that fit the 32-bit lengths of the reader.\<close>

definition portable :: "file_env \<Rightarrow> bb_heap \<Rightarrow> sparse_file \<Rightarrow> nat \<Rightarrow> cell list \<Rightarrow> bool" where
  "portable env h s nb xs \<longleftrightarrow> sf_ok env h s nb xs \<and> bbl_inv h (sf_list s) xs \<and> bbl_block_size (sf_list s) = sf_block_size s \<and>
     (\<forall>e \<in> snd ` set xs. fits (sf_block_size s) e) \<and> nb < 2 ^ 31"

lemma portable_importable: "portable env h s nb xs \<Longrightarrow> importable (sf_block_size s) env h nb (map snd xs)"
  by (auto simp: portable_def importable_def sf_ok_def bbl_inv_def exts_ok_def)



section \<open>Examples\<close>

lemma top_addr_Max: "top_addr h = Max (insert 0 (fst ` set (nodes h) \<union> fst ` set (names h)))"
proof -
  have "foldr max xs (0 :: nat) = Max (insert 0 (set xs))" for xs by (induction xs) (auto simp: Max_insert2 insert_commute)
  from this [of "map fst (nodes h) @ map fst (names h)"] show ?thesis by (simp add: top_addr_def)
qed

lemma bump_first_fit: "first_fit bump_alloc"
proof -
  have "dom (nmap h) = dom (nmap h') \<and> names h = names h' \<longrightarrow> bump_alloc h = bump_alloc h'" for h h'
    by (simp add: bump_alloc_def top_addr_Max dom_map_of_conv_image_fst)
  moreover have "bump_alloc h \<noteq> None" for h by (simp add: bump_alloc_def)
  ultimately show ?thesis using alloc_contracts(1) unfolding first_fit_def by blast
qed

lemma demo_portable: "portable demo_env demo_heap demo_file 3 [(1, demo_ext)]"
  using demo_file_ok demo_inv
  by (simp add: portable_def demo_file_def demo_bbl_def fits_def demo_ext_def nblocks_def)



end
