(* ===== verification/Sha1.thy ===== *)
theory Sha1
  imports C_Memory
begin

text \<open>
  The SHA-1 implementation of libmincrypt (core/libmincrypt/sha.c). The file has two versions of the
  compression function and of the streaming interface: a portable one, and one for little-endian
  machines that unrolls the rounds, renames the registers instead of moving them and expands the
  message while it consumes it. The theory models both and the hash of FIPS 180, and shows that all
  three agree on every message, however it is cut into calls of \<open>SHA_update\<close>.

  The array \<open>W\<close> of both compression functions is an uninitialised local variable: its contents are an
  argument \<open>stk\<close> of the model. \<open>int\<close> arguments are 32-bit words, sign-extended where the code
  widens them.
\<close>

unbundle bit_operations_syntax

section \<open>Contexts\<close>

record SHA_CTX =
  ctx_count :: u64
  ctx_state :: "u32 list"
  ctx_buf :: "u8 list"

type_synonym sha_regs = "u32 \<times> u32 \<times> u32 \<times> u32 \<times> u32"

definition load_state :: "SHA_CTX \<Rightarrow> sha_regs" where
  "load_state ctx = (let s = ctx_state ctx in (s ! 0, s ! 1, s ! 2, s ! 3, s ! 4))"

definition add_state :: "SHA_CTX \<Rightarrow> sha_regs \<Rightarrow> SHA_CTX" where
  "add_state ctx = (\<lambda>(A, B, C, D, E). let s = ctx_state ctx
     in ctx\<lparr>ctx_state := [s ! 0 + A, s ! 1 + B, s ! 2 + C, s ! 3 + D, s ! 4 + E]\<rparr>)"

section \<open>The version for little-endian machines\<close>

definition ror27 :: "u32 \<Rightarrow> u32" where
  "ror27 val = drop_bit 27 val OR push_bit 5 val"

definition ror2 :: "u32 \<Rightarrow> u32" where
  "ror2 val = drop_bit 2 val OR push_bit 30 val"

definition ror31 :: "u32 \<Rightarrow> u32" where
  "ror31 val = drop_bit 31 val OR push_bit 1 val"

text \<open>\<open>bswap_32\<close> of the C library, and the union access \<open>ctx->buf.w[t]\<close>.\<close>

definition bswap_32 :: "u32 \<Rightarrow> u32" where
  "bswap_32 w = of_le32 (rev (le32 w))"

definition buf_w :: "SHA_CTX \<Rightarrow> nat \<Rightarrow> u32" where
  "buf_w ctx t = of_le32 (drop (4 * t) (ctx_buf ctx))"

text \<open>The two ways to get the next word of the message schedule.\<close>

definition W_input :: "SHA_CTX \<Rightarrow> nat \<Rightarrow> u32 list \<Rightarrow> u32" where
  "W_input ctx t W = bswap_32 (buf_w ctx t)"

definition W_expand :: "nat \<Rightarrow> u32 list \<Rightarrow> u32" where
  "W_expand t W = ror31 (W ! (t - 3) XOR W ! (t - 8) XOR W ! (t - 14) XOR W ! (t - 16))"

text \<open>
  The macros: each call writes \<open>W[t]\<close>, adds to its last register and rotates its second one. They give
  back the second register, the last register and the array.
\<close>

type_synonym sha_macro = "u32 \<Rightarrow> u32 \<Rightarrow> u32 \<Rightarrow> u32 \<Rightarrow> u32 \<Rightarrow> nat \<Rightarrow> u32 list \<Rightarrow> u32 \<times> u32 \<times> u32 list"

definition SHA_F1_input :: "SHA_CTX \<Rightarrow> sha_macro" where
  "SHA_F1_input ctx A B C D E t W =
     (let w = W_input ctx t W
      in (ror2 B, E + (ror27 A + w + (D XOR (B AND (C XOR D))) + 0x5A827999), W[t := w]))"

definition SHA_F1 :: sha_macro where
  "SHA_F1 A B C D E t W =
     (let w = W_expand t W
      in (ror2 B, E + (ror27 A + w + (D XOR (B AND (C XOR D))) + 0x5A827999), W[t := w]))"

definition SHA_F2 :: sha_macro where
  "SHA_F2 A B C D E t W =
     (let w = W_expand t W
      in (ror2 B, E + (ror27 A + w + (B XOR C XOR D) + 0x6ED9EBA1), W[t := w]))"

definition SHA_F3 :: sha_macro where
  "SHA_F3 A B C D E t W =
     (let w = W_expand t W
      in (ror2 B, E + (ror27 A + w + ((B AND C) OR (D AND (B OR C))) + 0x8F1BBCDC), W[t := w]))"

definition SHA_F4 :: sha_macro where
  "SHA_F4 A B C D E t W =
     (let w = W_expand t W
      in (ror2 B, E + (ror27 A + w + (B XOR C XOR D) + 0xCA62C1D6), W[t := w]))"

text \<open>The body of the unrolled loops.\<close>

definition unroll5 :: "sha_macro \<Rightarrow> nat \<Rightarrow> sha_regs \<times> u32 list \<Rightarrow> sha_regs \<times> u32 list" where
  "unroll5 F t = (\<lambda>((A, B, C, D, E), W).
     let (B, E, W) = F A B C D E (t + 0) W;
         (A, D, W) = F E A B C D (t + 1) W;
         (E, C, W) = F D E A B C (t + 2) W;
         (D, B, W) = F C D E A B (t + 3) W;
         (C, A, W) = F B C D E A (t + 4) W
     in ((A, B, C, D, E), W))"

text \<open>The five rounds between the loops over the input words and the expanded words: round 15 still reads the input.\<close>

definition rounds_15_19 :: "SHA_CTX \<Rightarrow> sha_regs \<times> u32 list \<Rightarrow> sha_regs \<times> u32 list" where
  "rounds_15_19 ctx = (\<lambda>((A, B, C, D, E), W).
     let (B, E, W) = SHA_F1_input ctx A B C D E 15 W;
         (A, D, W) = SHA_F1 E A B C D 16 W;
         (E, C, W) = SHA_F1 D E A B C 17 W;
         (D, B, W) = SHA_F1 C D E A B 18 W;
         (C, A, W) = SHA_F1 B C D E A 19 W
     in ((A, B, C, D, E), W))"

definition SHA1_Transform :: "u32 list \<Rightarrow> SHA_CTX \<Rightarrow> SHA_CTX" where
  "SHA1_Transform stk ctx =
     (let s = (load_state ctx, stk);
          s = fold (unroll5 (SHA_F1_input ctx)) [0, 5, 10] s;
          s = rounds_15_19 ctx s;
          s = fold (unroll5 SHA_F2) [20, 25, 30, 35] s;
          s = fold (unroll5 SHA_F3) [40, 45, 50, 55] s;
          s = fold (unroll5 SHA_F4) [60, 65, 70, 75] s
      in add_state ctx (fst s))"

section \<open>The portable version\<close>

definition rol :: "nat \<Rightarrow> u32 \<Rightarrow> u32" where
  "rol bits val = push_bit bits val OR drop_bit (32 - bits) val"

text \<open>Word \<open>t\<close> of the input, read in big-endian order.\<close>

definition be_word :: "SHA_CTX \<Rightarrow> nat \<Rightarrow> u32" where
  "be_word ctx t = (let p = drop (4 * t) (ctx_buf ctx)
     in push_bit 24 (ucast (p ! 0)) OR push_bit 16 (ucast (p ! 1)) OR push_bit 8 (ucast (p ! 2)) OR ucast (p ! 3))"

definition sha_round :: "u32 list \<Rightarrow> nat \<Rightarrow> sha_regs \<Rightarrow> sha_regs" where
  "sha_round W t = (\<lambda>(A, B, C, D, E).
     let tmp = rol 5 A + E + W ! t;
         tmp = tmp + (if t < 20 then (D XOR (B AND (C XOR D))) + 0x5A827999
                      else if t < 40 then (B XOR C XOR D) + 0x6ED9EBA1
                      else if t < 60 then ((B AND C) OR (D AND (B OR C))) + 0x8F1BBCDC
                      else (B XOR C XOR D) + 0xCA62C1D6)
     in (tmp, A, rol 30 B, C, D))"

definition SHA1_transform :: "u32 list \<Rightarrow> SHA_CTX \<Rightarrow> SHA_CTX" where
  "SHA1_transform stk ctx =
     (let W = fold (\<lambda>t W. W[t := be_word ctx t]) [0..<16] stk;
          W = fold (\<lambda>t W. W[t := rol 1 (W ! (t - 3) XOR W ! (t - 8) XOR W ! (t - 14) XOR W ! (t - 16))]) [16..<80] W
      in add_state ctx (fold (sha_round W) [0..<80] (load_state ctx)))"

section \<open>The streaming interface\<close>

text \<open>
  The loops of \<open>SHA_update\<close>. Both versions end with the loop over single bytes; the little-endian one
  copies whole blocks before. \<open>tr\<close> is the compression function, \<open>i\<close> the fill of the buffer, \<open>p\<close> the
  rest of the data. Reading behind the data is a fault.
\<close>

partial_function (option) byte_loop :: "(SHA_CTX \<Rightarrow> SHA_CTX) \<Rightarrow> nat \<Rightarrow> u32 \<Rightarrow> u8 list \<Rightarrow> SHA_CTX \<Rightarrow> SHA_CTX exec" where
  [code]: "byte_loop tr i len p ctx =
     (if len = 0 then Ret ctx
      else do {
        b \<leftarrow> load p 0;
        bs \<leftarrow> store (ctx_buf ctx) i b;
        let ctx = ctx\<lparr>ctx_buf := bs\<rparr>;
        if i + 1 = 64 then byte_loop tr 0 (len - 1) (tl p) (tr ctx)
        else byte_loop tr (i + 1) (len - 1) (tl p) ctx })"

partial_function (option) block_loop ::
    "(SHA_CTX \<Rightarrow> SHA_CTX) \<Rightarrow> nat \<Rightarrow> u32 \<Rightarrow> u8 list \<Rightarrow> SHA_CTX \<Rightarrow> (nat \<times> u32 \<times> u8 list \<times> SHA_CTX) exec" where
  [code]: "block_loop tr i len p ctx =
     (if len > 64 - of_nat i then do {
        bs \<leftarrow> memcpy (ctx_buf ctx) i p (64 - i);
        block_loop tr 0 (len - (64 - of_nat i)) (drop (64 - i) p) (tr (ctx\<lparr>ctx_buf := bs\<rparr>)) }
      else Ret (i, len, p, ctx))"

definition SHA_update_le :: "u32 list \<Rightarrow> SHA_CTX \<Rightarrow> u8 list \<Rightarrow> u32 \<Rightarrow> SHA_CTX exec" where
  "SHA_update_le stk ctx data len = do {
     let i = unat (ctx_count ctx mod 64);
     let ctx = ctx\<lparr>ctx_count := ctx_count ctx + scast len\<rparr>;
     (i, len, p, ctx) \<leftarrow> block_loop (SHA1_Transform stk) i len data ctx;
     byte_loop (SHA1_Transform stk) i len p ctx }"

definition SHA_update :: "u32 list \<Rightarrow> SHA_CTX \<Rightarrow> u8 list \<Rightarrow> u32 \<Rightarrow> SHA_CTX exec" where
  "SHA_update stk ctx data len = do {
     let i = unat (ctx_count ctx mod 64);
     let ctx = ctx\<lparr>ctx_count := ctx_count ctx + scast len\<rparr>;
     byte_loop (SHA1_transform stk) i len data ctx }"

text \<open>The padding of \<open>SHA_final\<close>, over the update function of the version.\<close>

type_synonym sha_update = "SHA_CTX \<Rightarrow> u8 list \<Rightarrow> u32 \<Rightarrow> SHA_CTX exec"

partial_function (option) pad_loop :: "sha_update \<Rightarrow> SHA_CTX \<Rightarrow> SHA_CTX exec" where
  [code]: "pad_loop upd ctx =
     (if ctx_count ctx mod 64 \<noteq> 64 - 8 then do { ctx \<leftarrow> upd ctx [0] 1; pad_loop upd ctx } else Ret ctx)"

fun length_loop :: "sha_update \<Rightarrow> u64 \<Rightarrow> nat list \<Rightarrow> SHA_CTX \<Rightarrow> SHA_CTX exec" where
  "length_loop upd cnt [] ctx = Ret ctx"
| "length_loop upd cnt (i # is) ctx = do {
     ctx \<leftarrow> upd ctx [ucast (drop_bit ((7 - i) * 8) cnt)] 1;
     length_loop upd cnt is ctx }"

definition final_pad :: "sha_update \<Rightarrow> SHA_CTX \<Rightarrow> SHA_CTX exec" where
  "final_pad upd ctx = do {
     let cnt = ctx_count ctx * 8;
     ctx \<leftarrow> upd ctx [0x80] 1;
     ctx \<leftarrow> pad_loop upd ctx;
     length_loop upd cnt [0..<8] ctx }"

text \<open>The digest is left at the start of the buffer: as byte-swapped words, or byte by byte.\<close>

definition SHA_final_le :: "u32 list \<Rightarrow> SHA_CTX \<Rightarrow> SHA_CTX exec" where
  "SHA_final_le stk ctx = do {
     ctx \<leftarrow> final_pad (SHA_update_le stk) ctx;
     bs \<leftarrow> write_at 0 (concat (map (\<lambda>i. le32 (bswap_32 (ctx_state ctx ! i))) [0..<5])) (ctx_buf ctx);
     Ret (ctx\<lparr>ctx_buf := bs\<rparr>) }"

definition be_bytes :: "u32 \<Rightarrow> u8 list" where
  "be_bytes tmp = [ucast (drop_bit 24 tmp), ucast (drop_bit 16 tmp), ucast (drop_bit 8 tmp), ucast (drop_bit 0 tmp)]"

definition SHA_final :: "u32 list \<Rightarrow> SHA_CTX \<Rightarrow> SHA_CTX exec" where
  "SHA_final stk ctx = do {
     ctx \<leftarrow> final_pad (SHA_update stk) ctx;
     bs \<leftarrow> write_at 0 (concat (map (\<lambda>i. be_bytes (ctx_state ctx ! i)) [0..<5])) (ctx_buf ctx);
     Ret (ctx\<lparr>ctx_buf := bs\<rparr>) }"

text \<open>\<open>SHA_init\<close> leaves the buffer as it is.\<close>

definition SHA_init :: "SHA_CTX \<Rightarrow> SHA_CTX" where
  "SHA_init ctx = ctx\<lparr>ctx_state := [0x67452301, 0xEFCDAB89, 0x98BADCFE, 0x10325476, 0xC3D2E1F0], ctx_count := 0\<rparr>"

definition SHA_DIGEST_SIZE :: nat where
  "SHA_DIGEST_SIZE = 20"

text \<open>The convenience function, over the version of the interface. The context is a local variable.\<close>

definition SHA_with :: "sha_update \<Rightarrow> (SHA_CTX \<Rightarrow> SHA_CTX exec) \<Rightarrow> SHA_CTX \<Rightarrow> u8 list \<Rightarrow> u32 \<Rightarrow> u8 list \<Rightarrow> u8 list exec" where
  "SHA_with upd fin ctx0 data len digest = do {
     let ctx = SHA_init ctx0;
     ctx \<leftarrow> upd ctx data len;
     ctx \<leftarrow> fin ctx;
     memcpy digest 0 (ctx_buf ctx) SHA_DIGEST_SIZE }"

definition SHA_le :: "u32 list \<Rightarrow> SHA_CTX \<Rightarrow> u8 list \<Rightarrow> u32 \<Rightarrow> u8 list \<Rightarrow> u8 list exec" where
  "SHA_le stk = SHA_with (SHA_update_le stk) (SHA_final_le stk)"

definition SHA :: "u32 list \<Rightarrow> SHA_CTX \<Rightarrow> u8 list \<Rightarrow> u32 \<Rightarrow> u8 list \<Rightarrow> u8 list exec" where
  "SHA stk = SHA_with (SHA_update stk) (SHA_final stk)"

section \<open>The standard\<close>

text \<open>FIPS 180: the functions and constants of the rounds, the message schedule, the compression of a block.\<close>

definition Ch :: "u32 \<Rightarrow> u32 \<Rightarrow> u32 \<Rightarrow> u32" where
  "Ch x y z = (x AND y) XOR (NOT x AND z)"

definition Parity :: "u32 \<Rightarrow> u32 \<Rightarrow> u32 \<Rightarrow> u32" where
  "Parity x y z = x XOR y XOR z"

definition Maj :: "u32 \<Rightarrow> u32 \<Rightarrow> u32 \<Rightarrow> u32" where
  "Maj x y z = (x AND y) XOR (x AND z) XOR (y AND z)"

definition fips_f :: "nat \<Rightarrow> u32 \<Rightarrow> u32 \<Rightarrow> u32 \<Rightarrow> u32" where
  "fips_f t = (if t < 20 then Ch else if t < 40 then Parity else if t < 60 then Maj else Parity)"

definition fips_K :: "nat \<Rightarrow> u32" where
  "fips_K t = (if t < 20 then 0x5A827999 else if t < 40 then 0x6ED9EBA1 else if t < 60 then 0x8F1BBCDC else 0xCA62C1D6)"

definition of_be32 :: "u8 list \<Rightarrow> u32" where
  "of_be32 bs = of_le32 (rev bs)"

fun fips_W :: "u8 list \<Rightarrow> nat \<Rightarrow> u32" where
  "fips_W M t = (if t < 16 then of_be32 (take 4 (drop (4 * t) M))
     else word_rotl 1 (fips_W M (t - 3) XOR fips_W M (t - 8) XOR fips_W M (t - 14) XOR fips_W M (t - 16)))"

declare fips_W.simps [simp del]

definition fips_round :: "u8 list \<Rightarrow> nat \<Rightarrow> sha_regs \<Rightarrow> sha_regs" where
  "fips_round M t = (\<lambda>(a, b, c, d, e).
     (word_rotl 5 a + fips_f t b c d + e + fips_K t + fips_W M t, a, word_rotl 30 b, c, d))"

definition compress :: "u8 list \<Rightarrow> u32 list \<Rightarrow> u32 list" where
  "compress M H = (case fold (fips_round M) [0..<80] (H ! 0, H ! 1, H ! 2, H ! 3, H ! 4) of
     (a, b, c, d, e) \<Rightarrow> [H ! 0 + a, H ! 1 + b, H ! 2 + c, H ! 3 + d, H ! 4 + e])"

text \<open>The full blocks of a message, the padding and the digest.\<close>

function hash_blocks :: "u8 list \<Rightarrow> u32 list \<Rightarrow> u32 list" where
  "hash_blocks M H = (if length M < 64 then H else hash_blocks (drop 64 M) (compress (take 64 M) H))"
  by auto
termination by (relation "measure (length \<circ> fst)") auto

declare hash_blocks.simps [simp del]

definition be64 :: "u64 \<Rightarrow> u8 list" where
  "be64 w = map (\<lambda>i. ucast (drop_bit ((7 - i) * 8) w)) [0..<8]"

definition sha1_pad :: "u8 list \<Rightarrow> u8 list" where
  "sha1_pad M = M @ 0x80 # replicate ((55 + 64 - length M mod 64) mod 64) 0 @ be64 (of_nat (8 * length M))"

definition sha1_iv :: "u32 list" where
  "sha1_iv = [0x67452301, 0xEFCDAB89, 0x98BADCFE, 0x10325476, 0xC3D2E1F0]"

definition be32 :: "u32 \<Rightarrow> u8 list" where
  "be32 w = rev (le32 w)"

definition sha1 :: "u8 list \<Rightarrow> u8 list" where
  "sha1 M = concat (map be32 (hash_blocks (sha1_pad M) sha1_iv))"

section \<open>Both compression functions compute the standard's\<close>

lemma rol_rotl:
  assumes n: "0 < n" "n < 32"
  shows "rol n w = word_rotl n w"
proof (rule bit_word_eqI)
  fix i assume "i < LENGTH(32)"
  then have i: "i < 32" by simp
  have m: "(i + (32 - n mod 32)) mod 32 = (if i < n then i + (32 - n) else i - n)"
    using n i by (auto simp: mod_if)
  have "bit (word_rotl n w) i = bit w (if i < n then i + (32 - n) else i - n)"
    using i m by (simp add: bit_word_rotl_iff)
  moreover have "bit (rol n w) i = bit w (if i < n then i + (32 - n) else i - n)"
    using n i by (auto simp: rol_def bit_simps add.commute dest: bit_imp_le_length)
  ultimately show "bit (rol n w) i = bit (word_rotl n w) i" by simp
qed

lemma rotations:
  "ror27 w = word_rotl 5 w" "ror2 w = word_rotl 30 w" "ror31 w = word_rotl 1 w"
  "rol 1 w = word_rotl 1 w" "rol 5 w = word_rotl 5 w" "rol 30 w = word_rotl 30 w"
  using rol_rotl [of 5 w] rol_rotl [of 30 w] rol_rotl [of 1 w]
  by (simp_all add: ror27_def ror2_def ror31_def rol_def or.commute)

lemma round_functions:
  "D XOR (B AND (C XOR D)) = Ch B C D" "B XOR C XOR D = Parity B C D" "(B AND C) OR (D AND (B OR C)) = Maj B C D"
  unfolding Ch_def Maj_def Parity_def by (rule bit_word_eqI, auto simp: bit_simps)+

lemma of_le32_take: "4 \<le> length bs \<Longrightarrow> of_le32 (take 4 bs) = of_le32 bs"
  by (simp add: of_le32_def)

lemma input_words:
  assumes "length (ctx_buf ctx) = 64" "t < 16"
  shows "bswap_32 (buf_w ctx t) = fips_W (ctx_buf ctx) t" "be_word ctx t = fips_W (ctx_buf ctx) t"
proof -
  define bs where "bs = take 4 (drop (4 * t) (ctx_buf ctx))"
  have l: "length bs = 4" using assms by (simp add: bs_def)
  have W: "fips_W (ctx_buf ctx) t = of_be32 bs" using assms(2) by (simp add: fips_W.simps bs_def)
  have "buf_w ctx t = of_le32 bs" using assms by (simp add: buf_w_def bs_def of_le32_take)
  then show "bswap_32 (buf_w ctx t) = fips_W (ctx_buf ctx) t" by (simp add: W bswap_32_def le32_of_le32 l of_be32_def)
  have n: "drop (4 * t) (ctx_buf ctx) ! i = bs ! i" if "i < 4" for i using that by (simp add: bs_def)
  obtain a b c d where bs: "bs = [a, b, c, d]" using l by (auto simp: numeral_eq_Suc length_Suc_conv)
  show "be_word ctx t = fips_W (ctx_buf ctx) t"
    unfolding W be_word_def Let_def of_be32_def using n [of 0] n [of 1] n [of 2] n [of 3]
    by (simp add: bs of_le32_def ac_simps)
qed

text \<open>An array whose first \<open>t\<close> words are those of the message schedule.\<close>

definition scheduled :: "u8 list \<Rightarrow> nat \<Rightarrow> u32 list \<Rightarrow> bool" where
  "scheduled M t W \<longleftrightarrow> length W = 80 \<and> (\<forall>j < t. W ! j = fips_W M j)"

lemma scheduled_step: "scheduled M t W \<Longrightarrow> t < 80 \<Longrightarrow> w = fips_W M t \<Longrightarrow> scheduled M (Suc t) (W[t := w])"
  by (auto simp: scheduled_def nth_list_update less_Suc_eq)

lemma expanded_word:
  assumes "scheduled M t W" "16 \<le> t"
  shows "word_rotl 1 (W ! (t - 3) XOR W ! (t - 8) XOR W ! (t - 14) XOR W ! (t - 16)) = fips_W M t"
proof -
  have "W ! (t - k) = fips_W M (t - k)" if "0 < k" for k using assms that by (simp add: scheduled_def)
  then show ?thesis using assms(2) fips_W.simps [of M t] by simp
qed

lemma W_expand_word: "scheduled M t W \<Longrightarrow> 16 \<le> t \<Longrightarrow> W_expand t W = fips_W M t"
  using expanded_word by (simp add: W_expand_def rotations)

text \<open>What a macro call has to do in round \<open>t\<close>.\<close>

definition macro_ok :: "u8 list \<Rightarrow> sha_macro \<Rightarrow> nat \<Rightarrow> bool" where
  "macro_ok M F t \<longleftrightarrow> (\<forall>A B C D E W. scheduled M t W \<longrightarrow>
     (case F A B C D E t W of (B', E', W') \<Rightarrow> scheduled M (Suc t) W' \<and> (E', A, B', C, D) = fips_round M t (A, B, C, D, E)))"

lemma macro_okI:
  assumes "\<And>A B C D E W. scheduled M t W \<Longrightarrow>
      F A B C D E t W = (word_rotl 30 B, E + (word_rotl 5 A + fips_W M t + fips_f t B C D + fips_K t), W[t := fips_W M t])"
    and "t < 80"
  shows "macro_ok M F t"
  unfolding macro_ok_def using assms by (simp add: scheduled_step fips_round_def ac_simps)

lemma macros_ok:
  assumes "length (ctx_buf ctx) = 64"
  shows "t < 16 \<Longrightarrow> macro_ok (ctx_buf ctx) (SHA_F1_input ctx) t"
    "16 \<le> t \<Longrightarrow> t < 20 \<Longrightarrow> macro_ok (ctx_buf ctx) SHA_F1 t"
    "20 \<le> t \<Longrightarrow> t < 40 \<Longrightarrow> macro_ok (ctx_buf ctx) SHA_F2 t"
    "40 \<le> t \<Longrightarrow> t < 60 \<Longrightarrow> macro_ok (ctx_buf ctx) SHA_F3 t"
    "60 \<le> t \<Longrightarrow> t < 80 \<Longrightarrow> macro_ok (ctx_buf ctx) SHA_F4 t"
  unfolding SHA_F1_input_def W_input_def SHA_F1_def SHA_F2_def SHA_F3_def SHA_F4_def Let_def rotations round_functions
  using input_words(1) [OF assms, of t]
  by (intro macro_okI; simp add: W_expand_word fips_f_def fips_K_def)+

lemma macro_step:
  assumes "macro_ok M F t" "scheduled M t W"
  obtains B' E' W' where "F A B C D E t W = (B', E', W')" "scheduled M (Suc t) W'" "fips_round M t (A, B, C, D, E) = (E', A, B', C, D)"
  using assms unfolding macro_ok_def by (cases "F A B C D E t W") (metis (mono_tags, lifting) case_prod_conv)

lemma unrolled:
  assumes "macro_ok M F0 t" "macro_ok M F1 (t + 1)" "macro_ok M F2 (t + 2)" "macro_ok M F3 (t + 3)" "macro_ok M F4 (t + 4)"
    and "scheduled M t W"
  shows "\<exists>A' B' C' D' E' W'. (let (B, E, W) = F0 A B C D E t W;
         (A, D, W) = F1 E A B C D (t + 1) W;
         (E, C, W) = F2 D E A B C (t + 2) W;
         (D, B, W) = F3 C D E A B (t + 3) W;
         (C, A, W) = F4 B C D E A (t + 4) W
     in ((A, B, C, D, E), W)) = ((A', B', C', D', E'), W') \<and> scheduled M (t + 5) W' \<and>
     fold (fips_round M) [t..<t + 5] (A, B, C, D, E) = (A', B', C', D', E')"
proof -
  obtain B1 E1 W1 where 1: "F0 A B C D E t W = (B1, E1, W1)" "scheduled M (t + 1) W1" "fips_round M t (A, B, C, D, E) = (E1, A, B1, C, D)"
    using macro_step [OF assms(1,6)] by (metis Suc_eq_plus1)
  obtain A1 D1 W2 where 2: "F1 E1 A B1 C D (t + 1) W1 = (A1, D1, W2)" "scheduled M (t + 2) W2" "fips_round M (t + 1) (E1, A, B1, C, D) = (D1, E1, A1, B1, C)"
    using macro_step [OF assms(2) 1(2)] by (metis Suc_eq_plus1 add_Suc_right one_add_one)
  obtain E2 C1 W3 where 3: "F2 D1 E1 A1 B1 C (t + 2) W2 = (E2, C1, W3)" "scheduled M (t + 3) W3" "fips_round M (t + 2) (D1, E1, A1, B1, C) = (C1, D1, E2, A1, B1)"
    using macro_step [OF assms(3) 2(2)] by (metis add_Suc_right eval_nat_numeral(3))
  obtain D2 B2 W4 where 4: "F3 C1 D1 E2 A1 B1 (t + 3) W3 = (D2, B2, W4)" "scheduled M (t + 4) W4" "fips_round M (t + 3) (C1, D1, E2, A1, B1) = (B2, C1, D2, E2, A1)"
    using macro_step [OF assms(4) 3(2)] by (metis add_Suc_right eval_nat_numeral(2) semiring_norm(26,27))
  obtain C2 A2 W5 where 5: "F4 B2 C1 D2 E2 A1 (t + 4) W4 = (C2, A2, W5)" "scheduled M (t + 5) W5" "fips_round M (t + 4) (B2, C1, D2, E2, A1) = (A2, B2, C2, D2, E2)"
    using macro_step [OF assms(5) 4(2)] by (metis add_Suc_right eval_nat_numeral(3))
  have u: "[t..<t + 5] = [t, t + 1, t + 2, t + 3, t + 4]" by (simp add: upt_rec)
  show ?thesis unfolding u using 1 2 3 4 5 by simp
qed

text \<open>State of the unrolled loops before round \<open>t\<close>.\<close>

definition at_round :: "u8 list \<Rightarrow> sha_regs \<Rightarrow> nat \<Rightarrow> sha_regs \<times> u32 list \<Rightarrow> bool" where
  "at_round M r0 t s \<longleftrightarrow> fst s = fold (fips_round M) [0..<t] r0 \<and> scheduled M t (snd s)"

lemma rounds_upt: "fold (fips_round M) [t..<t + 5] (fold (fips_round M) [0..<t] r) = fold (fips_round M) [0..<t + 5] r"
  using fold_append [of "fips_round M" "[0..<t]" "[t..<t + 5]"] upt_add_eq_append [of 0 t 5] by simp

lemma unroll5_round:
  assumes "at_round M r0 t s" "\<forall>i < 5. macro_ok M F (t + i)"
  shows "at_round M r0 (t + 5) (unroll5 F t s)"
proof -
  obtain A B C D E W where s: "s = ((A, B, C, D, E), W)" by (metis surj_pair)
  have F: "macro_ok M F t" "macro_ok M F (t + 1)" "macro_ok M F (t + 2)" "macro_ok M F (t + 3)" "macro_ok M F (t + 4)"
    using assms(2) [rule_format, of 0] assms(2) [rule_format, of 1] assms(2) [rule_format, of 2]
      assms(2) [rule_format, of 3] assms(2) [rule_format, of 4] by simp_all
  have W: "scheduled M t W" using assms(1) by (simp add: at_round_def s)
  obtain A' B' C' D' E' W' where u: "unroll5 F t s = ((A', B', C', D', E'), W')" "scheduled M (t + 5) W'"
    "fold (fips_round M) [t..<t + 5] (A, B, C, D, E) = (A', B', C', D', E')"
    using unrolled [OF F W, of A B C D E] unfolding unroll5_def s add_0_right by auto
  show ?thesis using u assms(1) rounds_upt [of M t r0] unfolding at_round_def s by simp
qed

lemma rounds_15_19_round:
  assumes "at_round (ctx_buf ctx) r0 15 s" "length (ctx_buf ctx) = 64"
  shows "at_round (ctx_buf ctx) r0 20 (rounds_15_19 ctx s)"
proof -
  let ?M = "ctx_buf ctx"
  obtain A B C D E W where s: "s = ((A, B, C, D, E), W)" by (metis surj_pair)
  have F: "macro_ok ?M (SHA_F1_input ctx) 15" "macro_ok ?M SHA_F1 (15 + 1)" "macro_ok ?M SHA_F1 (15 + 2)" "macro_ok ?M SHA_F1 (15 + 3)"
    "macro_ok ?M SHA_F1 (15 + 4)"
    by (simp_all add: macros_ok [OF assms(2)])
  have W: "scheduled ?M 15 W" using assms(1) by (simp add: at_round_def s)
  obtain A' B' C' D' E' W' where u: "rounds_15_19 ctx s = ((A', B', C', D', E'), W')" "scheduled ?M (15 + 5) W'"
    "fold (fips_round ?M) [15..<15 + 5] (A, B, C, D, E) = (A', B', C', D', E')"
    using unrolled [OF F W, of A B C D E] unfolding rounds_15_19_def s by auto
  show ?thesis using u assms(1) rounds_upt [of ?M 15 r0] unfolding at_round_def s by simp
qed

lemma add_compress:
  assumes "r = fold (fips_round M) [0..<80] (load_state ctx)"
  shows "add_state ctx r = ctx\<lparr>ctx_state := compress M (ctx_state ctx)\<rparr>"
  unfolding assms by (simp add: add_state_def compress_def load_state_def Let_def split: prod.splits)

lemma SHA1_Transform_compress:
  assumes "length stk = 80" "length (ctx_buf ctx) = 64"
  shows "SHA1_Transform stk ctx = ctx\<lparr>ctx_state := compress (ctx_buf ctx) (ctx_state ctx)\<rparr>"
proof -
  let ?M = "ctx_buf ctx"
  let ?at = "at_round ?M (load_state ctx)"
  have five: "(\<forall>i < 5. P (t + i)) \<longleftrightarrow> P t \<and> P (t + 1) \<and> P (t + 2) \<and> P (t + 3) \<and> P (t + 4)" for P and t :: nat
    by (auto simp: numeral_eq_Suc less_Suc_eq)
  note m = macros_ok [OF assms(2)]
  define s0 where "s0 = (load_state ctx, stk)"
  have "?at 0 s0" using assms(1) by (simp add: at_round_def scheduled_def s0_def)
  then have "?at (0 + 5) (unroll5 (SHA_F1_input ctx) 0 s0)" by (rule unroll5_round) (simp add: five m)
  then have "?at (0 + 5 + 5) (unroll5 (SHA_F1_input ctx) 5 (unroll5 (SHA_F1_input ctx) 0 s0))"
    using unroll5_round [of ?M "load_state ctx" 5 "unroll5 (SHA_F1_input ctx) 0 s0" "SHA_F1_input ctx"] by (simp add: five m)
  then have "?at (10 + 5) (fold (unroll5 (SHA_F1_input ctx)) [0, 5, 10] s0)"
    using unroll5_round [of ?M "load_state ctx" 10 _ "SHA_F1_input ctx"] by (simp add: five m)
  then have "?at 20 (rounds_15_19 ctx (fold (unroll5 (SHA_F1_input ctx)) [0, 5, 10] s0))"
    using rounds_15_19_round [OF _ assms(2)] by simp
  moreover define s1 where "s1 = rounds_15_19 ctx (fold (unroll5 (SHA_F1_input ctx)) [0, 5, 10] s0)"
  ultimately have 1: "?at 20 s1" by simp
  have four: "?at (t + 20) (fold (unroll5 F) [t, t + 5, t + 10, t + 15] s)"
    if "?at t s" "\<And>i. t \<le> i \<Longrightarrow> i < t + 20 \<Longrightarrow> macro_ok ?M F i" for t s F
  proof -
    have a: "?at (t + 5) (unroll5 F t s)" by (rule unroll5_round) (use that in auto)
    have b: "?at (t + 5 + 5) (unroll5 F (t + 5) (unroll5 F t s))" by (rule unroll5_round) (use a that in auto)
    have c: "?at (t + 10 + 5) (unroll5 F (t + 10) (unroll5 F (t + 5) (unroll5 F t s)))" by (rule unroll5_round) (use b that in \<open>auto simp: add.assoc\<close>)
    have d: "?at (t + 15 + 5) (unroll5 F (t + 15) (unroll5 F (t + 10) (unroll5 F (t + 5) (unroll5 F t s))))"
      by (rule unroll5_round) (use c that in \<open>auto simp: add.assoc\<close>)
    then show ?thesis by (simp add: add.assoc)
  qed
  define s2 where "s2 = fold (unroll5 SHA_F2) [20, 25, 30, 35] s1"
  define s3 where "s3 = fold (unroll5 SHA_F3) [40, 45, 50, 55] s2"
  define s4 where "s4 = fold (unroll5 SHA_F4) [60, 65, 70, 75] s3"
  have 2: "?at 40 s2" using four [OF 1, of SHA_F2] m(3) by (simp add: s2_def)
  have 3: "?at 60 s3" using four [OF 2, of SHA_F3] m(4) by (simp add: s3_def)
  have 4: "?at 80 s4" using four [OF 3, of SHA_F4] m(5) by (simp add: s4_def)
  have "SHA1_Transform stk ctx = add_state ctx (fst s4)"
    unfolding SHA1_Transform_def Let_def s4_def s3_def s2_def s1_def s0_def by (rule refl)
  then show ?thesis using add_compress [of "fst s4" ?M ctx] 4 by (simp add: at_round_def)
qed

lemma SHA1_transform_compress:
  assumes "length stk = 80" "length (ctx_buf ctx) = 64"
  shows "SHA1_transform stk ctx = ctx\<lparr>ctx_state := compress (ctx_buf ctx) (ctx_state ctx)\<rparr>"
proof -
  let ?M = "ctx_buf ctx"
  define W1 where "W1 = fold (\<lambda>t W. W[t := be_word ctx t]) [0..<16] stk"
  define ex :: "nat \<Rightarrow> u32 list \<Rightarrow> u32 list" where
    "ex = (\<lambda>t W. W[t := rol 1 (W ! (t - 3) XOR W ! (t - 8) XOR W ! (t - 14) XOR W ! (t - 16))])"
  have "n \<le> 16 \<Longrightarrow> scheduled ?M n (fold (\<lambda>t W. W[t := be_word ctx t]) [0..<n] stk)" for n
    by (induction n) (use assms in \<open>auto simp: scheduled_def input_words(2) nth_list_update less_Suc_eq\<close>)
  then have W1: "scheduled ?M 16 W1" by (simp add: W1_def)
  have "n \<le> 64 \<Longrightarrow> scheduled ?M (16 + n) (fold ex [16..<16 + n] W1)" for n
  proof (induction n)
    case (Suc n)
    then have IH: "scheduled ?M (16 + n) (fold ex [16..<16 + n] W1)" by simp
    have e: "ex (16 + n) V = V[16 + n := fips_W ?M (16 + n)]" if "scheduled ?M (16 + n) V" for V
      unfolding ex_def rotations expanded_word [OF that le_add1] by (rule refl)
    have u: "[16..<16 + Suc n] = [16..<16 + n] @ [16 + n]" unfolding add_Suc_right by (rule upt_Suc_append) simp
    show ?case using scheduled_step [OF IH] Suc.prems unfolding u by (simp add: e [OF IH])
  qed (simp add: W1)
  from this [of 64] have W: "scheduled ?M 80 (fold ex [16..<80] W1)" by simp
  define W where "W = fold ex [16..<80] W1"
  have "sha_round W t r = fips_round ?M t r" if "t < 80" for t r
    using W that unfolding W_def [symmetric]
    by (cases r) (simp add: sha_round_def fips_round_def scheduled_def rotations round_functions fips_f_def fips_K_def ac_simps Let_def)
  then have "fold (sha_round W) [0..<80] (load_state ctx) = fold (fips_round ?M) [0..<80] (load_state ctx)"
    by (intro fold_cong) auto
  then show ?thesis using add_compress [of _ ?M ctx]
    unfolding SHA1_transform_def Let_def W1_def [symmetric] ex_def [symmetric] W_def [symmetric] by simp
qed

section \<open>Contexts that represent a message\<close>

lemma hash_blocks_short [simp]: "length M < 64 \<Longrightarrow> hash_blocks M H = H"
  by (simp add: hash_blocks.simps)

lemma hash_blocks_one: "length M = 64 \<Longrightarrow> hash_blocks M H = compress M H"
  using hash_blocks.simps [of M H] by simp

lemma hash_blocks_append: "64 dvd length a \<Longrightarrow> hash_blocks (a @ b) H = hash_blocks b (hash_blocks a H)"
proof (induction a H rule: hash_blocks.induct)
  case (1 a H)
  show ?case
  proof (cases "a = []")
    case False
    then have l: "64 \<le> length a" using 1 by (auto dest: dvd_imp_le)
    then have "64 dvd length (drop 64 a)" using 1 by (simp add: dvd_diff_nat)
    with 1 l show ?thesis by (simp add: hash_blocks.simps [of "a @ b"] hash_blocks.simps [of a])
  qed simp
qed

lemma length_hash_blocks: "length H = 5 \<Longrightarrow> length (hash_blocks M H) = 5"
proof (induction M H rule: hash_blocks.induct)
  case (1 M H)
  have "length (compress (take 64 M) H) = 5" by (simp add: compress_def split: prod.splits)
  with 1 show ?case by (simp add: hash_blocks.simps [of M])
qed

definition fills :: "u8 list \<Rightarrow> SHA_CTX \<Rightarrow> bool" where
  "fills M ctx \<longleftrightarrow> length (ctx_buf ctx) = 64 \<and> (\<exists>a r. M = a @ r \<and> 64 dvd length a \<and> length r < 64 \<and>
     ctx_state ctx = hash_blocks a sha1_iv \<and> take (length r) (ctx_buf ctx) = r)"

definition represents :: "u8 list \<Rightarrow> SHA_CTX \<Rightarrow> bool" where
  "represents M ctx \<longleftrightarrow> fills M ctx \<and> ctx_count ctx = of_nat (length M)"

lemma fills_init: "length (ctx_buf ctx) = 64 \<Longrightarrow> represents [] (SHA_init ctx)"
  by (simp add: represents_def fills_def SHA_init_def sha1_iv_def)

lemma fills_full:
  assumes "fills M ctx" "64 dvd length M"
  shows "ctx_state ctx = hash_blocks M sha1_iv" "length (ctx_state ctx) = 5" "length (ctx_buf ctx) = 64"
proof -
  obtain a r where M: "M = a @ r" "64 dvd length a" "length r < 64" "ctx_state ctx = hash_blocks a sha1_iv"
    using assms(1) by (auto simp: fills_def)
  have "64 dvd length r" using assms(2) M(1,2) by (simp add: dvd_add_right_iff)
  then have "r = []" using M(3) by (auto dest: dvd_imp_le)
  then show "ctx_state ctx = hash_blocks M sha1_iv" using M by simp
  then show "length (ctx_state ctx) = 5" by (simp add: length_hash_blocks sha1_iv_def)
  show "length (ctx_buf ctx) = 64" using assms(1) by (simp add: fills_def)
qed

lemma count_index: "represents M ctx \<Longrightarrow> unat (ctx_count ctx mod 64) = length M mod 64"
  by (simp add: represents_def unat_mod unat_of_nat take_bit_eq_mod mod_mod_cancel)

locale compression =
  fixes tr :: "u32 list \<Rightarrow> SHA_CTX \<Rightarrow> SHA_CTX"
  assumes tr_compress: "length stk = 80 \<Longrightarrow> length (ctx_buf ctx) = 64 \<Longrightarrow>
    tr stk ctx = ctx\<lparr>ctx_state := compress (ctx_buf ctx) (ctx_state ctx)\<rparr>"
begin

text \<open>Data that fills the buffer exactly is compressed, data that leaves room is kept.\<close>

lemma fill_block:
  assumes "length stk = 80" "fills M ctx" "length d = 64 - length M mod 64"
    and "bs = take (length M mod 64) (ctx_buf ctx) @ d"
  shows "fills (M @ d) (tr stk (ctx\<lparr>ctx_buf := bs\<rparr>))"
proof -
  obtain a r where M: "M = a @ r" "64 dvd length a" "length r < 64" "ctx_state ctx = hash_blocks a sha1_iv"
    "take (length r) (ctx_buf ctx) = r" "length (ctx_buf ctx) = 64"
    using assms(2) by (auto simp: fills_def)
  have m: "length M mod 64 = length r" using M(1-3) by (auto simp: mod_add_left_eq [symmetric])
  then have bs: "bs = r @ d" "length bs = 64" using assms(3,4) M(3,5) by simp_all
  have "hash_blocks (M @ d) sha1_iv = compress bs (hash_blocks a sha1_iv)"
    using hash_blocks_append [OF M(2), of bs sha1_iv] hash_blocks_one [OF bs(2)] by (simp add: M(1) bs(1))
  moreover have "64 dvd length (M @ d)" using M(2) bs(2) by (simp add: M(1) bs(1) add.assoc)
  ultimately show ?thesis
    unfolding fills_def using tr_compress [OF assms(1), of "ctx\<lparr>ctx_buf := bs\<rparr>"] bs(2) M(4)
    by (intro conjI exI [of _ "M @ d"] exI [of _ "[]"]) simp_all
qed

lemma fill_byte:
  assumes "fills M ctx" "length M mod 64 + 1 < 64"
  shows "fills (M @ [b]) (ctx\<lparr>ctx_buf := (ctx_buf ctx)[length M mod 64 := b]\<rparr>)"
proof -
  obtain a r where M: "M = a @ r" "64 dvd length a" "length r < 64" "ctx_state ctx = hash_blocks a sha1_iv"
    "take (length r) (ctx_buf ctx) = r" "length (ctx_buf ctx) = 64"
    using assms(1) by (auto simp: fills_def)
  have m: "length M mod 64 = length r" using M(1-3) by (auto simp: mod_add_left_eq [symmetric])
  have "take (length r + 1) ((ctx_buf ctx)[length r := b]) = r @ [b]"
    using M(3,5,6) by (simp add: take_Suc_conv_app_nth)
  then show ?thesis unfolding fills_def m using assms(2) M m
    by (intro conjI exI [of _ a] exI [of _ "r @ [b]"]) simp_all
qed

lemma byte_loop_run:
  assumes "length stk = 80"
  shows "fills M ctx \<Longrightarrow> unat len = length p \<Longrightarrow>
    \<exists>ctx'. byte_loop (tr stk) (length M mod 64) len p ctx = Ret ctx' \<and> fills (M @ p) ctx' \<and> ctx_count ctx' = ctx_count ctx"
proof (induction p arbitrary: M ctx len)
  case Nil
  then show ?case by (subst byte_loop.simps) (simp add: unat_eq_0)
next
  case (Cons b p)
  let ?i = "length M mod 64"
  let ?c = "ctx\<lparr>ctx_buf := (ctx_buf ctx)[?i := b]\<rparr>"
  have i: "?i < 64" and l: "length (ctx_buf ctx) = 64" using Cons.prems by (simp_all add: fills_def)
  have len: "len \<noteq> 0" "unat (len - 1) = length p"
    using Cons.prems(2) by (auto simp: unat_sub_u32)
  have run: "byte_loop (tr stk) ?i len (b # p) ctx =
      (if ?i + 1 = 64 then byte_loop (tr stk) 0 (len - 1) p (tr stk ?c) else byte_loop (tr stk) (?i + 1) (len - 1) p ?c)"
    using len(1) i l by (subst byte_loop.simps) (simp add: mem_simps)
  show ?case
  proof (cases "?i + 1 = 64")
    case True
    have "take 63 (ctx_buf ctx) @ [b] = (ctx_buf ctx)[63 := b]" using l
      by (simp add: upd_conv_take_nth_drop)
    then have "fills (M @ [b]) (tr stk ?c)" using True by (intro fill_block [OF assms Cons.prems(1)]) simp_all
    moreover have "length (M @ [b]) mod 64 = 0" using True by (simp add: mod_Suc)
    moreover have "ctx_count (tr stk ?c) = ctx_count ctx" using l by (simp add: tr_compress [OF assms])
    ultimately show ?thesis using Cons.IH [of "M @ [b]" "tr stk ?c" "len - 1"] len(2) True run by simp
  next
    case False
    then have "fills (M @ [b]) ?c" using i by (intro fill_byte [OF Cons.prems(1)]) simp
    moreover have "length (M @ [b]) mod 64 = ?i + 1" using False by (simp add: mod_Suc)
    ultimately show ?thesis using Cons.IH [of "M @ [b]" ?c "len - 1"] len(2) False run by simp
  qed
qed

lemma block_loop_run:
  assumes "length stk = 80"
  shows "fills M ctx \<Longrightarrow> unat len = length p \<Longrightarrow>
    \<exists>k len' ctx'. block_loop (tr stk) (length M mod 64) len p ctx = Ret (length (M @ take k p) mod 64, len', drop k p, ctx') \<and>
      fills (M @ take k p) ctx' \<and> unat len' = length (drop k p) \<and> ctx_count ctx' = ctx_count ctx"
proof (induction "length p" arbitrary: p M ctx len rule: less_induct)
  case less
  let ?i = "length M mod 64"
  have i: "?i < 64" and l: "length (ctx_buf ctx) = 64" using less.prems by (simp_all add: fills_def)
  have u: "unat (64 - of_nat ?i :: u32) = 64 - ?i" using i by (simp add: unat_sub_u32 unat_of_nat take_bit_nat_eq_self)
  show ?case
  proof (cases "len > 64 - of_nat ?i")
    case True
    then have lp: "64 - ?i < length p" using less.prems(2) u by (simp add: word_less_nat_alt)
    define bs where "bs = take ?i (ctx_buf ctx) @ take (64 - ?i) p"
    define c where "c = tr stk (ctx\<lparr>ctx_buf := bs\<rparr>)"
    have mc: "memcpy (ctx_buf ctx) ?i p (64 - ?i) = Ret bs" using lp l i by (simp add: mem_simps bs_def)
    have lt: "length (take (64 - ?i) p) = 64 - ?i" using lp by simp
    have f: "fills (M @ take (64 - ?i) p) c" unfolding c_def by (rule fill_block [OF assms less.prems(1) lt bs_def])
    have d: "length (drop (64 - ?i) p) < length p" using lp i by simp
    have len: "unat (len - (64 - of_nat ?i)) = length (drop (64 - ?i) p)"
      using u lp less.prems(2) by (simp add: unat_sub_u32)
    have m: "length (M @ take (64 - ?i) p) mod 64 = 0" unfolding length_append lt by presburger
    have cc: "ctx_count c = ctx_count ctx" using l lt i by (simp add: c_def tr_compress [OF assms] bs_def)
    obtain k len' ctx' where r: "block_loop (tr stk) 0 (len - (64 - of_nat ?i)) (drop (64 - ?i) p) c =
        Ret (length ((M @ take (64 - ?i) p) @ take k (drop (64 - ?i) p)) mod 64, len', drop k (drop (64 - ?i) p), ctx')"
      "fills ((M @ take (64 - ?i) p) @ take k (drop (64 - ?i) p)) ctx'" "unat len' = length (drop k (drop (64 - ?i) p))"
      "ctx_count ctx' = ctx_count c"
      using less.hyps [OF d f len] unfolding m by blast
    have t: "(M @ take (64 - ?i) p) @ take k (drop (64 - ?i) p) = M @ take (64 - ?i + k) p" "drop k (drop (64 - ?i) p) = drop (64 - ?i + k) p"
      unfolding take_add append_assoc drop_drop add.commute [of k] by (rule refl)+
    have "block_loop (tr stk) ?i len p ctx = block_loop (tr stk) 0 (len - (64 - of_nat ?i)) (drop (64 - ?i) p) c"
      using True mc by (subst block_loop.simps) (simp add: c_def)
    then show ?thesis using r cc unfolding t by (intro exI [of _ "64 - ?i + k"]) simp
  next
    case False
    then have "block_loop (tr stk) ?i len p ctx = Ret (?i, len, p, ctx)" by (subst block_loop.simps) simp
    then show ?thesis using less.prems by (intro exI [of _ 0] exI [of _ len] exI [of _ ctx]) simp
  qed
qed

end

interpretation le_sha: compression SHA1_Transform
  by unfold_locales (rule SHA1_Transform_compress)

interpretation portable_sha: compression SHA1_transform
  by unfold_locales (rule SHA1_transform_compress)

lemma pad_len: "(n + 1 + (55 + 64 - n mod 64) mod 64) mod 64 = (56 :: nat)"
proof -
  have "n + 1 + (119 - n mod 64) = 64 * (n div 64) + 120" using mod_less_divisor [of 64 n] mult_div_mod_eq [of 64 n] by linarith
  then have "(n + 1 + (119 - n mod 64)) mod 64 = 56" by (simp only: mod_mult_self4) simp
  then show ?thesis unfolding mod_add_right_eq by simp
qed

locale streaming =
  fixes upd :: "u32 list \<Rightarrow> sha_update"
  assumes upd_run: "length stk = 80 \<Longrightarrow> represents M ctx \<Longrightarrow> length d < 2 ^ 31 \<Longrightarrow>
    \<exists>ctx'. upd stk ctx d (of_nat (length d)) = Ret ctx' \<and> represents (M @ d) ctx'"
begin

lemma upd_byte: "length stk = 80 \<Longrightarrow> represents M ctx \<Longrightarrow> \<exists>ctx'. upd stk ctx [b] 1 = Ret ctx' \<and> represents (M @ [b]) ctx'"
  using upd_run [of stk M ctx "[b]"] by simp

lemma pad_loop_run:
  assumes "length stk = 80"
  shows "represents M ctx \<Longrightarrow> (length M + k) mod 64 = 56 \<Longrightarrow> k < 64 \<Longrightarrow>
    \<exists>ctx'. pad_loop (upd stk) ctx = Ret ctx' \<and> represents (M @ replicate k 0) ctx'"
proof (induction k arbitrary: M ctx)
  case 0
  then have "unat (ctx_count ctx mod 64) = unat (56 :: u64)" by (simp add: count_index)
  then have "ctx_count ctx mod 64 = 56" by (simp only: word_unat_eq_iff)
  then show ?case using 0 by (subst pad_loop.simps) simp
next
  case (Suc k)
  have "length M mod 64 \<noteq> 56"
  proof
    assume m: "length M mod 64 = 56"
    have "(length M mod 64 + Suc k) mod 64 = 56" using Suc.prems(2) by (simp only: mod_add_left_eq)
    then show False using m Suc.prems(3) by (simp add: mod_if split: if_splits)
  qed
  then have "unat (ctx_count ctx mod 64) \<noteq> unat (56 :: u64)" using Suc.prems(1) by (simp add: count_index)
  then have ne: "ctx_count ctx mod 64 \<noteq> 64 - 8" by auto
  obtain c where c: "upd stk ctx [0] 1 = Ret c" "represents (M @ [0]) c" using upd_byte [OF assms Suc.prems(1)] by blast
  have "pad_loop (upd stk) ctx = pad_loop (upd stk) c" using ne c(1) by (subst pad_loop.simps) simp
  moreover have "\<exists>ctx'. pad_loop (upd stk) c = Ret ctx' \<and> represents ((M @ [0]) @ replicate k 0) ctx'"
    using Suc.IH [OF c(2)] Suc.prems(2,3) by simp
  ultimately show ?case by simp
qed

lemma length_loop_run:
  assumes "length stk = 80"
  shows "represents M ctx \<Longrightarrow> \<exists>ctx'. length_loop (upd stk) cnt is ctx = Ret ctx' \<and>
    represents (M @ map (\<lambda>i. ucast (drop_bit ((7 - i) * 8) cnt)) is) ctx'"
proof (induction "is" arbitrary: M ctx)
  case (Cons i "is")
  obtain c where c: "upd stk ctx [ucast (drop_bit ((7 - i) * 8) cnt)] 1 = Ret c" "represents (M @ [ucast (drop_bit ((7 - i) * 8) cnt)]) c"
    using upd_byte [OF assms Cons.prems] by blast
  then show ?case using Cons.IH [OF c(2)] by simp
qed simp

lemma final_pad_run:
  assumes "length stk = 80" "represents M ctx"
  shows "\<exists>ctx'. final_pad (upd stk) ctx = Ret ctx' \<and> represents (sha1_pad M) ctx'"
proof -
  let ?k = "(55 + 64 - length M mod 64) mod 64"
  obtain c where c: "upd stk ctx [0x80] 1 = Ret c" "represents (M @ [0x80]) c" using upd_byte [OF assms] by blast
  have "(length (M @ [0x80]) + ?k) mod 64 = 56" using pad_len [of "length M"] by simp
  then obtain c' where c': "pad_loop (upd stk) c = Ret c'" "represents ((M @ [0x80]) @ replicate ?k 0) c'"
    using pad_loop_run [OF assms(1) c(2)] by fastforce
  have cnt: "ctx_count ctx * 8 = of_nat (8 * length M)" using assms(2) by (simp add: represents_def mult.commute)
  obtain c2 where "length_loop (upd stk) (ctx_count ctx * 8) [0..<8] c' = Ret c2"
    "represents (((M @ [0x80]) @ replicate ?k 0) @ be64 (of_nat (8 * length M))) c2"
    using length_loop_run [OF assms(1) c'(2)] unfolding cnt be64_def by blast
  then show ?thesis using c(1) c'(1) by (simp add: final_pad_def sha1_pad_def)
qed

lemma updates_run:
  assumes "length stk = 80"
  shows "represents M ctx \<Longrightarrow> \<forall>d \<in> set ds. length d < 2 ^ 31 \<Longrightarrow>
    \<exists>ctx'. foldl (\<lambda>c d. Option.bind c (\<lambda>c. upd stk c d (of_nat (length d)))) (Ret ctx) ds = Ret ctx' \<and> represents (M @ concat ds) ctx'"
proof (induction ds arbitrary: M ctx)
  case (Cons d ds)
  then obtain c where "upd stk ctx d (of_nat (length d)) = Ret c" "represents (M @ d) c" using upd_run [OF assms] by fastforce
  then show ?case using Cons.IH [of "M @ d" c] Cons.prems(2) by simp
qed simp

end

lemma length_pad: "64 dvd length (sha1_pad M)"
proof -
  let ?n = "length M + 1 + (55 + 64 - length M mod 64) mod 64"
  have "(?n + 8) mod 64 = (?n mod 64 + 8) mod 64" by (simp only: mod_add_left_eq)
  then have "(?n + 8) mod 64 = 0" unfolding pad_len by simp
  moreover have "length (sha1_pad M) = ?n + 8" by (simp add: sha1_pad_def be64_def)
  ultimately show ?thesis by (simp only: dvd_eq_mod_eq_0)
qed

lemma scast_length:
  assumes "n < 2 ^ 31"
  shows "(scast (of_nat n :: u32) :: u64) = of_nat n"
proof -
  have "unat (of_nat n :: u32) = n" using assms by (simp add: unat_of_nat take_bit_nat_eq_self)
  then have "sint (of_nat n :: u32) = int n" using sint_small_u32 [of "of_nat n"] assms by simp
  then show ?thesis by (simp add: scast_eq)
qed

lemma unat_length: "n < 2 ^ 31 \<Longrightarrow> unat (of_nat n :: u32) = n"
  by (simp add: unat_of_nat take_bit_nat_eq_self)

interpretation portable_stream: streaming SHA_update
proof unfold_locales
  fix stk :: "u32 list" and M d :: "u8 list" and ctx :: SHA_CTX
  assume a: "length stk = 80" "represents M ctx" "length d < 2 ^ 31"
  let ?c = "ctx\<lparr>ctx_count := ctx_count ctx + of_nat (length d)\<rparr>"
  have "fills M ?c" using a(2) by (simp add: represents_def fills_def)
  from portable_sha.byte_loop_run [OF a(1) this unat_length [OF a(3)]]
  show "\<exists>ctx'. SHA_update stk ctx d (of_nat (length d)) = Ret ctx' \<and> represents (M @ d) ctx'"
    using a(2) unfolding SHA_update_def count_index [OF a(2)] scast_length [OF a(3)] Let_def by (auto simp: represents_def)
qed

interpretation le_stream: streaming SHA_update_le
proof unfold_locales
  fix stk :: "u32 list" and M d :: "u8 list" and ctx :: SHA_CTX
  assume a: "length stk = 80" "represents M ctx" "length d < 2 ^ 31"
  let ?c = "ctx\<lparr>ctx_count := ctx_count ctx + of_nat (length d)\<rparr>"
  have "fills M ?c" using a(2) by (simp add: represents_def fills_def)
  from le_sha.block_loop_run [OF a(1) this unat_length [OF a(3)]] obtain k len' c where
    b: "block_loop (SHA1_Transform stk) (length M mod 64) (of_nat (length d)) d ?c =
        Ret (length (M @ take k d) mod 64, len', drop k d, c)" "fills (M @ take k d) c" "unat len' = length (drop k d)"
      "ctx_count c = ctx_count ?c" by blast
  from le_sha.byte_loop_run [OF a(1) b(2,3)] obtain c' where
    "byte_loop (SHA1_Transform stk) (length (M @ take k d) mod 64) len' (drop k d) c = Ret c'"
    "fills ((M @ take k d) @ drop k d) c'" "ctx_count c' = ctx_count c" by blast
  then show "\<exists>ctx'. SHA_update_le stk ctx d (of_nat (length d)) = Ret ctx' \<and> represents (M @ d) ctx'"
    using a(2) b unfolding SHA_update_le_def count_index [OF a(2)] scast_length [OF a(3)] Let_def by (auto simp: represents_def)
qed

section \<open>The hash of a message\<close>

lemma digest_bytes: "le32 (bswap_32 w) = be32 w" "be_bytes w = be32 w"
  unfolding bswap_32_def be32_def using le32_of_le32 [of "rev (le32 w)"] by (simp_all add: be_bytes_def le32_def)

lemma digest_state:
  assumes "length st = 5"
  shows "concat (map (\<lambda>i. be32 (st ! i)) [0..<5]) = concat (map be32 st)" "length (concat (map be32 st)) = 20"
proof -
  obtain a b c d e where "st = [a, b, c, d, e]" using assms by (auto simp: numeral_eq_Suc length_Suc_conv)
  then show "concat (map (\<lambda>i. be32 (st ! i)) [0..<5]) = concat (map be32 st)" "length (concat (map be32 st)) = 20"
    by (simp_all add: upt_rec be32_def)
qed

lemma length_sha1: "length (sha1 M) = 20"
  unfolding sha1_def by (rule digest_state(2)) (simp add: length_hash_blocks sha1_iv_def)

lemma digest_written:
  assumes "represents (sha1_pad M) c"
  shows "write_at 0 (concat (map (\<lambda>i. be32 (ctx_state c ! i)) [0..<5])) (ctx_buf c) = Ret (sha1 M @ drop 20 (ctx_buf c))"
proof -
  note f = fills_full [OF _ length_pad, of M c]
  have r: "fills (sha1_pad M) c" using assms by (simp add: represents_def)
  show ?thesis using digest_state [OF f(2) [OF r]] f(1,3) [OF r] by (simp add: mem_simps sha1_def)
qed

lemma SHA_final_run:
  assumes "length stk = 80" "represents M ctx"
  shows "\<exists>ctx'. SHA_final stk ctx = Ret ctx' \<and> take 20 (ctx_buf ctx') = sha1 M"
    "\<exists>ctx'. SHA_final_le stk ctx = Ret ctx' \<and> take 20 (ctx_buf ctx') = sha1 M"
  using portable_stream.final_pad_run [OF assms] le_stream.final_pad_run [OF assms]
  by (auto simp: SHA_final_def SHA_final_le_def digest_bytes digest_written length_sha1)

lemma SHA_run:
  assumes "length stk = 80" "length (ctx_buf ctx) = 64" "length data < 2 ^ 31" "20 \<le> length digest"
  shows "SHA stk ctx data (of_nat (length data)) digest = Ret (sha1 data @ drop 20 digest)"
    "SHA_le stk ctx data (of_nat (length data)) digest = Ret (sha1 data @ drop 20 digest)"
proof -
  note i = fills_init [OF assms(2)]
  have copy: "memcpy digest 0 b SHA_DIGEST_SIZE = Ret (sha1 data @ drop 20 digest)" if b: "take 20 b = sha1 data" for b
  proof -
    have "20 \<le> length b" using arg_cong [OF b, of length] length_sha1 [of data] by simp
    then show ?thesis using b assms(4) by (simp add: SHA_DIGEST_SIZE_def mem_simps)
  qed
  obtain c where c: "SHA_update stk (SHA_init ctx) data (of_nat (length data)) = Ret c" "represents data c"
    using portable_stream.upd_run [OF assms(1) i assms(3)] by auto
  show "SHA stk ctx data (of_nat (length data)) digest = Ret (sha1 data @ drop 20 digest)"
    using SHA_final_run(1) [OF assms(1) c(2)] c(1) copy by (auto simp: SHA_def SHA_with_def Let_def)
  obtain c where c: "SHA_update_le stk (SHA_init ctx) data (of_nat (length data)) = Ret c" "represents data c"
    using le_stream.upd_run [OF assms(1) i assms(3)] by auto
  show "SHA_le stk ctx data (of_nat (length data)) digest = Ret (sha1 data @ drop 20 digest)"
    using SHA_final_run(2) [OF assms(1) c(2)] c(1) copy by (auto simp: SHA_le_def SHA_with_def Let_def)
qed

text \<open>
  C35. The unrolled compression function for little-endian machines, with its renamed registers, its
  message expansion interleaved with the rounds and its byte-swapped input, computes the same context
  as the portable one, and both compute the compression function of FIPS 180, whatever their
  uninitialised arrays hold.\<close>

theorem SHA1_Transform_equivalence:
  assumes "length stk = 80" and "length stk' = 80" and "length (ctx_buf ctx) = 64"
  shows "SHA1_Transform stk ctx = SHA1_transform stk' ctx \<and>
    SHA1_transform stk' ctx = ctx\<lparr>ctx_state := compress (ctx_buf ctx) (ctx_state ctx)\<rparr>"
  using SHA1_Transform_compress [OF assms(1,3)] SHA1_transform_compress [OF assms(2,3)] by simp

text \<open>
  C8. Hashing a message in pieces: after \<open>SHA_init\<close>, any sequence of \<open>SHA_update\<close> calls on pieces of
  fewer than 2 GiB, empty ones included, and \<open>SHA_final\<close>, the buffer starts with the
  SHA-1 digest of the concatenated pieces, in both versions; \<open>SHA\<close> stores the digest of its data in the first
  twenty bytes of its result. No access leaves the buffer or the data, and the padding loop ends.\<close>

theorem SHA_streaming:
  assumes "length stk = 80" and "length (ctx_buf ctx) = 64" and "\<forall>d \<in> set ds. length d < 2 ^ 31"
    and "length (concat ds) < 2 ^ 31" and "20 \<le> length digest"
  shows "(\<exists>c. Option.bind (foldl (\<lambda>c d. Option.bind c (\<lambda>c. SHA_update stk c d (of_nat (length d)))) (Ret (SHA_init ctx)) ds) (SHA_final stk) = Ret c \<and>
      take 20 (ctx_buf c) = sha1 (concat ds)) \<and>
    (\<exists>c. Option.bind (foldl (\<lambda>c d. Option.bind c (\<lambda>c. SHA_update_le stk c d (of_nat (length d)))) (Ret (SHA_init ctx)) ds) (SHA_final_le stk) = Ret c \<and>
      take 20 (ctx_buf c) = sha1 (concat ds)) \<and>
    SHA stk ctx (concat ds) (of_nat (length (concat ds))) digest = Ret (sha1 (concat ds) @ drop 20 digest) \<and>
    SHA_le stk ctx (concat ds) (of_nat (length (concat ds))) digest = Ret (sha1 (concat ds) @ drop 20 digest)"
  using portable_stream.updates_run [OF assms(1) fills_init [OF assms(2)] assms(3)] le_stream.updates_run [OF assms(1) fills_init [OF assms(2)] assms(3)]
    SHA_final_run [OF assms(1)] SHA_run [OF assms(1,2,4,5)]
  by fastforce

definition demo_ctx :: SHA_CTX where
  "demo_ctx = \<lparr>ctx_count = 7, ctx_state = [1, 2, 3, 4, 5], ctx_buf = replicate 64 0xAB\<rparr>"

theorem SHA1_Transform_equivalence_witness:
  "SHA1_Transform (replicate 80 0) demo_ctx = SHA1_transform (replicate 80 1) demo_ctx"
  using SHA1_Transform_equivalence [of "replicate 80 0" "replicate 80 1" demo_ctx] by (simp add: demo_ctx_def)

theorem SHA_streaming_witness:
  "SHA_le (replicate 80 0) demo_ctx [97, 98, 99] 3 (replicate 20 0) = SHA (replicate 80 0) demo_ctx [97, 98, 99] 3 (replicate 20 0) \<and>
   SHA (replicate 80 0) demo_ctx [97, 98, 99] 3 (replicate 20 0) = Ret (sha1 [97, 98, 99])"
  using SHA_streaming [of "replicate 80 0" demo_ctx "[[97], [], [98, 99]]" "replicate 20 0"] by (simp add: demo_ctx_def)

end
