(* ===== verification/Rsa.thy ===== *)
theory Rsa
  imports Sha1
begin

text \<open>
  RSA signature verification of libmincrypt (core/libmincrypt/rsa.c, rsa_e_3.c, rsa_e_f4.c): Montgomery
  multiplication over little-endian arrays of 32-bit words with 64-bit accumulators, public
  exponentiation with the exponents 3 and 65537, and the check of the PKCS #1 padding. The theory shows that the
  multiplication never overflows an accumulator, that the exponentiation computes the power modulo
  the public modulus, and which signatures the verification accepts.

  Both source files have their own copy of the four arithmetic functions; they are modelled once. The
  callers check that the key has 64 words before any of them runs. Arrays are lists, an access
  outside is a fault; the uninitialised local arrays are arguments.
\<close>

unbundle bit_operations_syntax

section \<open>Keys\<close>

definition RSANUMBYTES :: nat where
  "RSANUMBYTES = 256"

definition RSANUMWORDS :: nat where
  "RSANUMWORDS = RSANUMBYTES div 4"

record RSAPublicKey =
  key_len :: int
  key_n0inv :: u32
  key_n :: "u32 list"
  key_rr :: "u32 list"
  key_exponent :: int

section \<open>Arithmetic on arrays of words\<close>

text \<open>\<open>a[] -= mod\<close>. The accumulator is signed; \<open>A >>= 32\<close> keeps the borrow.\<close>

fun subM_loop :: "RSAPublicKey \<Rightarrow> nat list \<Rightarrow> u64 \<Rightarrow> u32 list \<Rightarrow> u32 list exec" where
  "subM_loop key [] A a = Ret a"
| "subM_loop key (i # is) A a = do {
     ai \<leftarrow> load a i;
     ni \<leftarrow> load (key_n key) i;
     let A = A + (ucast ai - ucast ni);
     a \<leftarrow> store a i (ucast A);
     subM_loop key is (signed_drop_bit 32 A) a }"

definition subM :: "RSAPublicKey \<Rightarrow> u32 list \<Rightarrow> u32 list exec" where
  "subM key a = subM_loop key [0..<nat (key_len key)] 0 a"

text \<open>\<open>a[] >= mod\<close>, from the most significant word down.\<close>

fun geM_loop :: "RSAPublicKey \<Rightarrow> nat \<Rightarrow> u32 list \<Rightarrow> bool exec" where
  "geM_loop key 0 a = Ret True"
| "geM_loop key (Suc i) a = do {
     ai \<leftarrow> load a i;
     ni \<leftarrow> load (key_n key) i;
     if ai < ni then Ret False else if ai > ni then Ret True else geM_loop key i a }"

definition geM :: "RSAPublicKey \<Rightarrow> u32 list \<Rightarrow> bool exec" where
  "geM key a = geM_loop key (nat (key_len key)) a"

text \<open>\<open>c[] += a * b[] / R % mod\<close>.\<close>

fun montMulAdd_loop ::
    "RSAPublicKey \<Rightarrow> u32 \<Rightarrow> u32 list \<Rightarrow> u32 \<Rightarrow> nat list \<Rightarrow> u64 \<Rightarrow> u64 \<Rightarrow> u32 list \<Rightarrow> (u64 \<times> u64 \<times> u32 list) exec" where
  "montMulAdd_loop key a b d0 [] A B c = Ret (A, B, c)"
| "montMulAdd_loop key a b d0 (i # is) A B c = do {
     bi \<leftarrow> load b i;
     ci \<leftarrow> load c i;
     let A = drop_bit 32 A + ucast a * ucast bi + ucast ci;
     ni \<leftarrow> load (key_n key) i;
     let B = drop_bit 32 B + ucast d0 * ucast ni + ucast (ucast A :: u32);
     c \<leftarrow> store c (i - 1) (ucast B);
     montMulAdd_loop key a b d0 is A B c }"

definition montMulAdd :: "RSAPublicKey \<Rightarrow> u32 list \<Rightarrow> u32 \<Rightarrow> u32 list \<Rightarrow> u32 list exec" where
  "montMulAdd key c a b = do {
     b0 \<leftarrow> load b 0;
     c0 \<leftarrow> load c 0;
     let A = (ucast a * ucast b0 + ucast c0 :: u64);
     let d0 = (ucast A :: u32) * key_n0inv key;
     n0 \<leftarrow> load (key_n key) 0;
     let B = ucast d0 * ucast n0 + (ucast (ucast A :: u32) :: u64);
     (A, B, c) \<leftarrow> montMulAdd_loop key a b d0 [1..<nat (key_len key)] A B c;
     let A = drop_bit 32 A + drop_bit 32 B;
     c \<leftarrow> store c (max 1 (nat (key_len key)) - 1) (ucast A);
     if drop_bit 32 A \<noteq> 0 then subM key c else Ret c }"

text \<open>\<open>c[] = a[] * b[] / R % mod\<close>.\<close>

fun zero_loop :: "nat list \<Rightarrow> u32 list \<Rightarrow> u32 list exec" where
  "zero_loop [] c = Ret c"
| "zero_loop (i # is) c = do { c \<leftarrow> store c i 0; zero_loop is c }"

fun montMul_loop :: "RSAPublicKey \<Rightarrow> u32 list \<Rightarrow> u32 list \<Rightarrow> nat list \<Rightarrow> u32 list \<Rightarrow> u32 list exec" where
  "montMul_loop key a b [] c = Ret c"
| "montMul_loop key a b (i # is) c = do {
     ai \<leftarrow> load a i;
     c \<leftarrow> montMulAdd key c ai b;
     montMul_loop key a b is c }"

definition montMul :: "RSAPublicKey \<Rightarrow> u32 list \<Rightarrow> u32 list \<Rightarrow> u32 list \<Rightarrow> u32 list exec" where
  "montMul key c a b = do {
     c \<leftarrow> zero_loop [0..<nat (key_len key)] c;
     montMul_loop key a b [0..<nat (key_len key)] c }"

section \<open>Exponentiation\<close>

text \<open>From a big-endian byte array to a little-endian word array, and back.\<close>

definition be_word_at :: "u8 list \<Rightarrow> nat \<Rightarrow> u32 exec" where
  "be_word_at inout k = do {
     b0 \<leftarrow> load inout (k * 4 + 0);
     b1 \<leftarrow> load inout (k * 4 + 1);
     b2 \<leftarrow> load inout (k * 4 + 2);
     b3 \<leftarrow> load inout (k * 4 + 3);
     Ret (push_bit 24 (ucast b0) OR push_bit 16 (ucast b1) OR push_bit 8 (ucast b2) OR push_bit 0 (ucast b3)) }"

fun words_loop :: "nat \<Rightarrow> u8 list \<Rightarrow> nat list \<Rightarrow> u32 list \<Rightarrow> u32 list exec" where
  "words_loop len inout [] a = Ret a"
| "words_loop len inout (i # is) a = do {
     tmp \<leftarrow> be_word_at inout (len - 1 - i);
     a \<leftarrow> store a i tmp;
     words_loop len inout is a }"

fun bytes_loop :: "u32 list \<Rightarrow> nat list \<Rightarrow> nat \<Rightarrow> u8 list \<Rightarrow> u8 list exec" where
  "bytes_loop aaa [] p inout = Ret inout"
| "bytes_loop aaa (i # is) p inout = do {
     tmp \<leftarrow> load aaa i;
     inout \<leftarrow> write_at p (be_bytes tmp) inout;
     bytes_loop aaa is (p + 4) inout }"

text \<open>The final reduction, shared by both exponentiations.\<close>

definition reduce_and_store :: "RSAPublicKey \<Rightarrow> u32 list \<Rightarrow> u8 list \<Rightarrow> u8 list exec" where
  "reduce_and_store key aaa inout = do {
     ge \<leftarrow> geM key aaa;
     aaa \<leftarrow> (if ge then subM key aaa else Ret aaa);
     bytes_loop aaa (rev [0..<nat (key_len key)]) 0 inout }"

definition modpow3 :: "u32 list \<times> u32 list \<times> u32 list \<Rightarrow> RSAPublicKey \<Rightarrow> u8 list \<Rightarrow> u8 list exec" where
  "modpow3 locals key inout = do {
     let (a, aR, aaR) = locals;
     a \<leftarrow> words_loop (nat (key_len key)) inout [0..<nat (key_len key)] a;
     aR \<leftarrow> montMul key aR a (key_rr key);
     aaR \<leftarrow> montMul key aaR aR aR;
     aaa \<leftarrow> montMul key aR aaR a;
     reduce_and_store key aaa inout }"

fun square_loop :: "RSAPublicKey \<Rightarrow> nat \<Rightarrow> u32 list \<Rightarrow> u32 list \<Rightarrow> (u32 list \<times> u32 list) exec" where
  "square_loop key 0 aR aaR = Ret (aR, aaR)"
| "square_loop key (Suc k) aR aaR = do {
     aaR \<leftarrow> montMul key aaR aR aR;
     aR \<leftarrow> montMul key aR aaR aaR;
     square_loop key k aR aaR }"

text \<open>\<open>for (i = 0; i < 16; i += 2)\<close> runs eight times.\<close>

definition modpowF4 :: "u32 list \<times> u32 list \<times> u32 list \<Rightarrow> RSAPublicKey \<Rightarrow> u8 list \<Rightarrow> u8 list exec" where
  "modpowF4 locals key inout = do {
     let (a, aR, aaR) = locals;
     a \<leftarrow> words_loop (nat (key_len key)) inout [0..<nat (key_len key)] a;
     aR \<leftarrow> montMul key aR a (key_rr key);
     (aR, aaR) \<leftarrow> square_loop key (16 div 2) aR aaR;
     aaa \<leftarrow> montMul key aaR aR a;
     reduce_and_store key aaa inout }"

section \<open>Verification\<close>

definition padding :: "u8 list" where
  "padding = 0x00 # 0x01 # replicate 218 0xff @
     [0x00, 0x30, 0x21, 0x30, 0x09, 0x06, 0x05, 0x2b, 0x0e, 0x03, 0x02, 0x1a, 0x05, 0x00, 0x04, 0x14]"

text \<open>Comparing the bytes from \<open>i\<close> on with those of another array; the loop stops at the first difference.\<close>

fun compare_loop :: "u8 list \<Rightarrow> nat list \<Rightarrow> nat \<Rightarrow> u8 list \<Rightarrow> bool exec" where
  "compare_loop buf [] base other = Ret True"
| "compare_loop buf (i # is) base other = do {
     x \<leftarrow> load buf i;
     y \<leftarrow> load other (i - base);
     if x \<noteq> y then Ret False else compare_loop buf is base other }"

definition RSA_e_3_verify ::
    "u32 list \<times> u32 list \<times> u32 list \<Rightarrow> RSAPublicKey \<Rightarrow> u8 list \<Rightarrow> int \<Rightarrow> u8 list \<Rightarrow> int exec" where
  "RSA_e_3_verify locals key signature len sha =
     (if key_len key \<noteq> int RSANUMWORDS then Ret 0
      else if len \<noteq> int RSANUMBYTES then Ret 0
      else if key_exponent key \<noteq> 3 then Ret 0
      else do {
        buf \<leftarrow> read_at 0 (nat len) signature;
        buf \<leftarrow> modpow3 locals key buf;
        same \<leftarrow> compare_loop buf [0..<length padding] 0 padding;
        if \<not> same then Ret 0
        else do {
          same \<leftarrow> compare_loop buf [length padding..<nat len] (length padding) sha;
          Ret (if same then 1 else 0) } })"

definition kExpectedPadShaRsa2048 :: "u8 list" where
  "kExpectedPadShaRsa2048 =
     [0xdc, 0xbd, 0xbe, 0x42, 0xd5, 0xf5, 0xa7, 0x2e, 0x6e, 0xfc,
      0xf5, 0x5d, 0xaf, 0x9d, 0xea, 0x68, 0x7c, 0xfb, 0xf1, 0x67]"

fun xor_loop :: "u8 list \<Rightarrow> nat list \<Rightarrow> nat \<Rightarrow> u8 list \<Rightarrow> u8 list exec" where
  "xor_loop sha [] base buf = Ret buf"
| "xor_loop sha (i # is) base buf = do {
     x \<leftarrow> load buf i;
     y \<leftarrow> load sha (i - base);
     buf \<leftarrow> store buf i (x XOR y);
     xor_loop sha is base buf }"

text \<open>\<open>hash\<close> is the \<open>SHA\<close> function of the build, called on the buffer in place.\<close>

definition RSA_e_f4_verify ::
    "(u8 list \<Rightarrow> u32 \<Rightarrow> u8 list \<Rightarrow> u8 list exec) \<Rightarrow> u32 list \<times> u32 list \<times> u32 list \<Rightarrow> RSAPublicKey \<Rightarrow> u8 list \<Rightarrow> int \<Rightarrow> u8 list \<Rightarrow> int exec" where
  "RSA_e_f4_verify hash locals key signature len sha =
     (if key_len key \<noteq> int RSANUMWORDS then Ret 0
      else if len \<noteq> int RSANUMBYTES then Ret 0
      else if key_exponent key \<noteq> 65537 then Ret 0
      else do {
        buf \<leftarrow> read_at 0 (nat len) signature;
        buf \<leftarrow> modpowF4 locals key buf;
        buf \<leftarrow> xor_loop sha [nat len - SHA_DIGEST_SIZE..<nat len] (nat len - SHA_DIGEST_SIZE) buf;
        buf \<leftarrow> hash buf (of_int len) buf;
        same \<leftarrow> compare_loop buf [0..<SHA_DIGEST_SIZE] 0 kExpectedPadShaRsa2048;
        Ret (if same then 1 else 0) })"

definition RSA_verify ::
    "(u8 list \<Rightarrow> u32 \<Rightarrow> u8 list \<Rightarrow> u8 list exec) \<Rightarrow> u32 list \<times> u32 list \<times> u32 list \<Rightarrow> RSAPublicKey \<Rightarrow> u8 list \<Rightarrow> int \<Rightarrow> u8 list \<Rightarrow> int exec" where
  "RSA_verify hash locals key signature len sha =
     (if key_exponent key = 3 then RSA_e_3_verify locals key signature len sha
      else if key_exponent key = 65537 then RSA_e_f4_verify hash locals key signature len sha
      else Ret 0)"

section \<open>Values of word arrays\<close>

primrec val :: "u32 list \<Rightarrow> int" where
  "val [] = 0"
| "val (w # ws) = uint w + 2 ^ 32 * val ws"

lemma val_append: "val (xs @ ys) = val xs + 2 ^ (32 * length xs) * val ys"
  by (induction xs) (simp_all add: power_add algebra_simps)

lemma uint_lt_u32: "uint (w :: u32) < 2 ^ 32"
  using uint_lt2p [of w] by simp

lemma val_nonneg [simp]: "0 \<le> val xs"
  by (induction xs) simp_all

lemma val_less: "val xs < 2 ^ (32 * length xs)"
proof (induction xs)
  case (Cons w ws)
  have "uint w < 2 ^ 32" by (rule uint_lt_u32)
  moreover have "2 ^ 32 * val ws \<le> 2 ^ 32 * (2 ^ (32 * length ws) - 1)" using Cons.IH by (intro mult_left_mono) simp_all
  moreover have "(2 :: int) ^ (32 * length (w # ws)) = 2 ^ 32 * 2 ^ (32 * length ws)" by (simp add: power_add)
  ultimately show ?case by (simp add: right_diff_distrib)
qed simp

lemma val_take_Suc: "i < length xs \<Longrightarrow> val (take (Suc i) xs) = val (take i xs) + 2 ^ (32 * i) * uint (xs ! i)"
  by (simp add: take_Suc_conv_app_nth val_append)

lemma val_take_update: "val (take (Suc i) (xs[i := w])) = val (take i xs) + 2 ^ (32 * i) * uint w" if "i < length xs"
  using that by (simp add: val_take_Suc)

section \<open>Subtraction and comparison\<close>

lemma word_of_small_int:
  assumes "- (2 ^ 63) \<le> y" "y < 2 ^ 63"
  shows "sint (word_of_int y :: u64) = y"
  unfolding sint_sbintrunc' using assms by (simp add: signed_take_bit_int_eq_self)

lemma sub_step:
  fixes a n :: u32
  assumes "sint A = x" "- 1 \<le> x" "x \<le> 0" and y_def: "y = x + uint a - uint n"
  shows "uint (ucast (A + (ucast a - ucast n) :: u64) :: u32) = y mod 2 ^ 32"
    "sint (signed_drop_bit 32 (A + (ucast a - ucast n) :: u64)) = y div 2 ^ 32"
    "- 1 \<le> y div 2 ^ 32" "y div 2 ^ 32 \<le> 0"
proof -
  have r: "0 \<le> uint a" "uint a < 4294967296" "0 \<le> uint n" "uint n < 4294967296" using uint_lt_u32 [of a] uint_lt_u32 [of n] by simp_all
  have "- 4294967296 \<le> y" "y < 4294967296" using r assms(2,3) unfolding y_def by linarith+
  then have y: "- (2 ^ 63) \<le> y" "y < 2 ^ 63" "- (2 ^ 32) \<le> y" "y < 2 ^ 32" by simp_all
  have w: "A + (ucast a - ucast n) = (word_of_int y :: u64)"
  proof -
    have "A = word_of_int x" using assms(1) scast_eq [of A, where 'a = 64] by simp
    then show ?thesis by (simp add: y_def)
  qed
  show "uint (ucast (A + (ucast a - ucast n) :: u64) :: u32) = y mod 2 ^ 32"
    unfolding w by (simp add: unsigned_ucast_eq uint_word_of_int_eq take_bit_eq_mod mod_mod_cancel)
  show "sint (signed_drop_bit 32 (A + (ucast a - ucast n) :: u64)) = y div 2 ^ 32"
    unfolding w sint_signed_drop_bit_eq word_of_small_int [OF y(1,2)] by (simp add: drop_bit_eq_div)
  show "- 1 \<le> y div 2 ^ 32" "y div 2 ^ 32 \<le> 0" using zdiv_mono1 [OF y(3), of "2 ^ 32"] zdiv_mono1 [of y "2 ^ 32 - 1" "2 ^ 32"] y(4) by simp_all
qed

text \<open>A key whose arrays have \<open>k\<close> words.\<close>

definition key_size :: "nat \<Rightarrow> RSAPublicKey \<Rightarrow> bool" where
  "key_size k key \<longleftrightarrow> key_len key = int k \<and> length (key_n key) = k \<and> length (key_rr key) = k \<and> 0 < k"

abbreviation modulus :: "RSAPublicKey \<Rightarrow> int" where
  "modulus key \<equiv> val (key_n key)"

lemma subM_loop_run:
  assumes "key_size k key"
  shows "i \<le> k \<Longrightarrow> length a = k \<Longrightarrow> sint A = x \<Longrightarrow> - 1 \<le> x \<Longrightarrow> x \<le> 0 \<Longrightarrow>
    val (take i a) + 2 ^ (32 * i) * x = v \<Longrightarrow>
    \<exists>a' x'. subM_loop key [i..<k] A a = Ret a' \<and> length a' = k \<and>
      val a' + 2 ^ (32 * k) * x' = v + (val a - val (take i a)) - (modulus key - val (take i (key_n key)))"
proof (induction "k - i" arbitrary: i A a x v)
  case 0
  then have "i = k" by simp
  then show ?case using 0 assms by (intro exI [of _ a] exI [of _ x]) (simp add: key_size_def)
next
  case (Suc m)
  then have i: "i < k" by simp
  have n: "length (key_n key) = k" using assms by (simp add: key_size_def)
  define y where "y = x + uint (a ! i) - uint (key_n key ! i)"
  define A1 where "A1 = A + (ucast (a ! i) - ucast (key_n key ! i))"
  note st = sub_step [OF Suc.prems(3-5) y_def, folded A1_def]
  define a1 where "a1 = a[i := ucast A1]"
  have u: "[i..<k] = i # [Suc i..<k]" using i by (rule upt_conv_Cons)
  have run: "subM_loop key [i..<k] A a = subM_loop key [Suc i..<k] (signed_drop_bit 32 A1) a1"
    using i n Suc.prems(2) unfolding u by (simp add: mem_simps A1_def a1_def Let_def)
  have t: "val (take (Suc i) a1) = val (take i a) + 2 ^ (32 * i) * (y mod 2 ^ 32)"
    unfolding a1_def using i Suc.prems(2) st(1) by (simp add: val_take_update)
  have "(2 :: int) ^ (32 * Suc i) = 2 ^ (32 * i) * 2 ^ 32" by (simp add: power_add)
  then have "val (take (Suc i) a1) + 2 ^ (32 * Suc i) * (y div 2 ^ 32) = val (take i a) + 2 ^ (32 * i) * (2 ^ 32 * (y div 2 ^ 32) + y mod 2 ^ 32)"
    unfolding t by (simp only: algebra_simps)
  also have "\<dots> = v + 2 ^ (32 * i) * uint (a ! i) - 2 ^ (32 * i) * uint (key_n key ! i)"
    using Suc.prems(6) unfolding mult_div_mod_eq y_def by (simp add: algebra_simps)
  finally have v: "val (take (Suc i) a1) + 2 ^ (32 * Suc i) * (y div 2 ^ 32) =
    v + 2 ^ (32 * i) * uint (a ! i) - 2 ^ (32 * i) * uint (key_n key ! i)" .
  have d: "val a1 - val (take (Suc i) a1) = val a - val (take (Suc i) a)"
  proof -
    have "val xs = val (take (Suc i) xs) + 2 ^ (32 * Suc i) * val (drop (Suc i) xs)" if "length xs = k" for xs
      using val_append [of "take (Suc i) xs" "drop (Suc i) xs"] that i by (simp add: min_def)
    from this [of a] this [of a1] show ?thesis using Suc.prems(2) by (simp add: a1_def)
  qed
  have "m = k - Suc i" "Suc i \<le> k" "length a1 = k" using Suc.hyps(2) i Suc.prems(2) by (simp_all add: a1_def)
  from Suc.hyps(1) [OF this st(2-4) v] show ?case
    unfolding run d using i n Suc.prems(2) by (simp add: val_take_Suc algebra_simps)
qed

lemma subM_run:
  assumes "key_size k key" "length a = k"
  obtains a' where "subM key a = Ret a'" "length a' = k" "val a' = (val a - modulus key) mod 2 ^ (32 * k)"
proof -
  have k: "nat (key_len key) = k" using assms(1) by (simp add: key_size_def)
  obtain a' x' where r: "subM_loop key [0..<k] 0 a = Ret a'" "length a' = k" "val a' + 2 ^ (32 * k) * x' = val a - modulus key"
    using subM_loop_run [OF assms(1), of 0 a 0 0 0] assms(2) by auto
  have "val a' = val a' mod 2 ^ (32 * k)" using val_less [of a'] r(2) by simp
  also have "\<dots> = (val a - modulus key) mod 2 ^ (32 * k)" unfolding r(3) [symmetric] by simp
  finally show thesis using that [of a'] r(1,2) by (simp add: subM_def k)
qed

lemma geM_loop_run:
  assumes "i \<le> length a" "i \<le> length (key_n key)"
  shows "geM_loop key i a = Ret (val (take i (key_n key)) \<le> val (take i a))"
  using assms
proof (induction i)
  case (Suc i)
  let ?n = "key_n key"
  have i: "i < length a" "i < length ?n" using Suc.prems by simp_all
  have b: "0 \<le> val (take i xs)" "val (take i xs) < 2 ^ (32 * i)" if "i < length xs" for xs
    using val_less [of "take i xs"] that by simp_all
  have lt: "val (take (Suc i) xs) < val (take (Suc i) ys)" if "xs ! i < ys ! i" "i < length xs" "i < length ys" for xs ys
  proof -
    have "uint (xs ! i) + 1 \<le> uint (ys ! i)" using that(1) by (simp add: word_less_def)
    then have "2 ^ (32 * i) * (uint (xs ! i) + 1) \<le> 2 ^ (32 * i) * uint (ys ! i)" by (intro mult_left_mono) simp_all
    then show ?thesis using b [OF that(2)] b [OF that(3)]
      unfolding val_take_Suc [OF that(2)] val_take_Suc [OF that(3)] distrib_left by linarith
  qed
  consider "a ! i < ?n ! i" | "?n ! i < a ! i" | "a ! i = ?n ! i" by (metis linorder_neqE)
  then show ?case
  proof cases
    case 1
    with lt [of a ?n] i show ?thesis by (simp add: mem_simps)
  next
    case 2
    with lt [of ?n a] i show ?thesis by (simp add: mem_simps)
  next
    case 3
    with i Suc.IH show ?thesis by (simp add: mem_simps val_take_Suc)
  qed
qed simp

lemma geM_run: "key_size k key \<Longrightarrow> length a = k \<Longrightarrow> geM key a = Ret (modulus key \<le> val a)"
  using geM_loop_run [of k a key] by (simp add: geM_def key_size_def)

section \<open>Montgomery multiplication\<close>

text \<open>The accumulators never wrap.\<close>

lemma acc_step:
  fixes A :: u64 and x y z :: u32
  shows "uint (drop_bit 32 A + ucast x * ucast y + ucast z) = uint A div 2 ^ 32 + uint x * uint y + uint z"
proof -
  let ?v = "uint (drop_bit 32 A) + uint x * uint y + uint z"
  have u: "uint (w :: u32) \<le> 4294967295" for w using uint_lt_u32 [of w] by simp
  have d: "uint (drop_bit 32 A) = uint A div 2 ^ 32" by (simp add: drop_bit_eq_div uint_div)
  have "uint A < 2 ^ 64" using uint_lt2p [of A] by simp
  then have "uint A div 2 ^ 32 \<le> (2 ^ 64 - 1) div 2 ^ 32" by (intro zdiv_mono1) simp_all
  then have "uint (drop_bit 32 A) \<le> 4294967295" unfolding d by simp
  moreover have "uint x * uint y \<le> 4294967295 * 4294967295" by (intro mult_mono u) simp_all
  ultimately have "?v < 18446744073709551616" using u [of z] by linarith
  moreover have "0 \<le> ?v" by simp
  ultimately have "?v mod 2 ^ 64 = ?v" by (intro mod_pos_pos_trivial) simp_all
  moreover have "drop_bit 32 A + ucast x * ucast y + ucast z = (word_of_int ?v :: u64)" by simp
  ultimately show ?thesis unfolding d by (simp only: uint_word_of_int) simp
qed

lemma low_word: "uint (ucast (A :: u64) :: u32) = uint A mod 2 ^ 32"
  by (simp add: unsigned_ucast_eq take_bit_eq_mod)

lemma low_word64: "uint (ucast (w :: u32) :: u64) = uint w"
  by (simp add: unsigned_ucast_eq take_bit_int_eq_self uint_lt_u32 order.strict_trans [OF uint_lt_u32])

lemma montMulAdd_loop_run:
  assumes "key_size k key" "length b = k" "length c0 = k"
  shows "1 \<le> i \<Longrightarrow> i \<le> k \<Longrightarrow> length c = k \<Longrightarrow> drop i c = drop i c0 \<Longrightarrow>
    val (take i c0) + uint a * val (take i b) + uint d0 * val (take i (key_n key)) =
      2 ^ 32 * val (take (i - 1) c) + 2 ^ (32 * i) * (uint A div 2 ^ 32 + uint B div 2 ^ 32) \<Longrightarrow>
    \<exists>A' B' c'. montMulAdd_loop key a b d0 [i..<k] A B c = Ret (A', B', c') \<and> length c' = k \<and>
      val c0 + uint a * val b + uint d0 * modulus key =
        2 ^ 32 * val (take (k - 1) c') + 2 ^ (32 * k) * (uint A' div 2 ^ 32 + uint B' div 2 ^ 32)"
proof (induction "k - i" arbitrary: i A B c)
  case 0
  then have "i = k" by simp
  then show ?case using 0 assms by (intro exI [of _ A] exI [of _ B] exI [of _ c]) (simp add: key_size_def)
next
  case (Suc m)
  let ?n = "key_n key"
  have i: "i < k" using Suc.hyps(2) by simp
  have n: "length ?n = k" using assms(1) by (simp add: key_size_def)
  have ci: "c ! i = c0 ! i" using Suc.prems(3,4) i assms(3) hd_drop_conv_nth [of i c] hd_drop_conv_nth [of i c0] by simp
  define A1 where "A1 = drop_bit 32 A + ucast a * ucast (b ! i) + ucast (c ! i)"
  define B1 where "B1 = drop_bit 32 B + ucast d0 * ucast (?n ! i) + ucast (ucast A1 :: u32)"
  define c1 where "c1 = c[i - 1 := ucast B1]"
  have A1: "uint A1 = uint A div 2 ^ 32 + uint a * uint (b ! i) + uint (c0 ! i)" unfolding A1_def acc_step ci by (rule refl)
  have B1: "uint B1 = uint B div 2 ^ 32 + uint d0 * uint (?n ! i) + uint A1 mod 2 ^ 32" unfolding B1_def acc_step low_word by (rule refl)
  have u: "[i..<k] = i # [Suc i..<k]" using i by (rule upt_conv_Cons)
  have run: "montMulAdd_loop key a b d0 [i..<k] A B c = montMulAdd_loop key a b d0 [Suc i..<k] A1 B1 c1"
    using i n assms(2) Suc.prems(1,3) unfolding u by (simp add: mem_simps A1_def B1_def c1_def Let_def)
  have S: "Suc (i - 1) = i" using Suc.prems(1) by simp
  have t: "val (take i c1) = val (take (i - 1) c) + 2 ^ (32 * (i - 1)) * (uint B1 mod 2 ^ 32)"
    using val_take_update [of "i - 1" c "ucast B1"] i Suc.prems(3) unfolding c1_def S low_word by simp
  have p: "(2 :: int) ^ 32 * 2 ^ (32 * (i - 1)) = 2 ^ (32 * i)" "(2 :: int) ^ (32 * Suc i) = 2 ^ (32 * i) * 2 ^ 32"
  proof -
    obtain j where "i = Suc j" using Suc.prems(1) by (cases i) simp_all
    then show "(2 :: int) ^ 32 * 2 ^ (32 * (i - 1)) = 2 ^ (32 * i)" by (simp add: power_add)
    show "(2 :: int) ^ (32 * Suc i) = 2 ^ (32 * i) * 2 ^ 32" by (simp add: power_add)
  qed
  let ?P = "(2 :: int) ^ (32 * i)"
  let ?sA = "2 ^ 32 * (uint A1 div 2 ^ 32)" and ?sB = "2 ^ 32 * (uint B1 div 2 ^ 32)"
  have "2 ^ 32 * val (take (Suc i - 1) c1) + 2 ^ (32 * Suc i) * (uint A1 div 2 ^ 32 + uint B1 div 2 ^ 32) =
      2 ^ 32 * val (take (i - 1) c) + (2 ^ 32 * 2 ^ (32 * (i - 1))) * (uint B1 mod 2 ^ 32) + ?P * (?sA + ?sB)"
    unfolding p(2) diff_Suc_1 t by (simp only: algebra_simps)
  also have "\<dots> = 2 ^ 32 * val (take (i - 1) c) + ?P * (?sA + (?sB + uint B1 mod 2 ^ 32))"
    unfolding p(1) by (simp only: algebra_simps)
  also have "\<dots> = 2 ^ 32 * val (take (i - 1) c) + ?P * ((?sA + uint A1 mod 2 ^ 32) + uint B div 2 ^ 32 + uint d0 * uint (?n ! i))"
    unfolding mult_div_mod_eq [of _ "uint B1"] unfolding B1 by (simp only: algebra_simps)
  also have "\<dots> = (2 ^ 32 * val (take (i - 1) c) + ?P * (uint A div 2 ^ 32 + uint B div 2 ^ 32)) +
      ?P * (uint (c0 ! i) + uint a * uint (b ! i) + uint d0 * uint (?n ! i))"
    unfolding mult_div_mod_eq [of _ "uint A1"] unfolding A1 by (simp only: algebra_simps)
  also have "\<dots> = val (take (Suc i) c0) + uint a * val (take (Suc i) b) + uint d0 * val (take (Suc i) ?n)"
    unfolding Suc.prems(5) [symmetric] using i n assms(2,3) by (simp add: val_take_Suc algebra_simps)
  finally have inv: "val (take (Suc i) c0) + uint a * val (take (Suc i) b) + uint d0 * val (take (Suc i) ?n) =
      2 ^ 32 * val (take (Suc i - 1) c1) + 2 ^ (32 * Suc i) * (uint A1 div 2 ^ 32 + uint B1 div 2 ^ 32)" by (rule sym)
  have d: "drop (Suc i) c1 = drop (Suc i) c0" using arg_cong [OF Suc.prems(4), of "drop 1"] by (simp add: c1_def)
  have "m = k - Suc i" "1 \<le> Suc i" "Suc i \<le> k" "length c1 = k" using Suc.hyps(2) i Suc.prems(3) by (simp_all add: c1_def)
  from Suc.hyps(1) [OF this d inv] show ?case unfolding run .
qed

text \<open>The two numbers that the key stores beside the modulus.\<close>

definition n0inv_ok :: "RSAPublicKey \<Rightarrow> bool" where
  "n0inv_ok key \<longleftrightarrow> (uint (key_n0inv key) * uint (key_n key ! 0) + 1) mod 2 ^ 32 = 0"

lemma montgomery_digit:
  fixes A :: u64 and n0 ninv :: u32
  assumes "(uint ninv * uint n0 + 1) mod 2 ^ 32 = 0"
  defines "d0 \<equiv> (ucast A :: u32) * ninv"
  shows "(uint d0 * uint n0 + uint A mod 2 ^ 32) mod 2 ^ 32 = 0"
proof -
  have d0: "uint d0 = (uint A mod 2 ^ 32 * uint ninv) mod 2 ^ 32"
    unfolding d0_def by (simp add: uint_word_ariths low_word)
  have "(uint d0 * uint n0 + uint A mod 2 ^ 32) mod 2 ^ 32 = (uint A mod 2 ^ 32 * uint ninv * uint n0 + uint A mod 2 ^ 32) mod 2 ^ 32"
    unfolding d0 by (metis mod_add_left_eq mod_mult_left_eq)
  also have "\<dots> = (uint A mod 2 ^ 32 * (uint ninv * uint n0 + 1)) mod 2 ^ 32" by (simp add: algebra_simps)
  also have "\<dots> = 0" using assms(1) by (metis mod_mult_right_eq mult_zero_right mod_0)
  finally show ?thesis .
qed

lemma modulus_pos:
  assumes "key_size k key" "n0inv_ok key"
  shows "0 < modulus key" "odd (modulus key)"
proof -
  let ?x = "uint (key_n key ! 0)"
  have "2 dvd uint (key_n0inv key) * ?x + 1"
    using assms(2) dvd_trans [of 2 "2 ^ 32" "uint (key_n0inv key) * ?x + 1"] by (simp add: n0inv_ok_def dvd_eq_mod_eq_0)
  then have o: "odd ?x" by auto
  obtain w ws where n: "key_n key = w # ws" using assms(1) by (cases "key_n key") (auto simp: key_size_def)
  then show "odd (modulus key)" using o by simp
  then have "modulus key \<noteq> 0" by auto
  then show "0 < modulus key" using val_nonneg [of "key_n key"] by linarith
qed

lemma sum_bound:
  fixes x y z r n :: int
  shows "x \<le> 4294967295 * (r - 1) \<Longrightarrow> y \<le> 4294967295 * n \<Longrightarrow> z \<le> r - 1 \<Longrightarrow> 0 < n \<Longrightarrow> z + x + y < 4294967296 * (r + n)"
  by (simp add: algebra_simps)

lemma montMulAdd_run:
  assumes key: "key_size k key" "n0inv_ok key" and len: "length b = k" "length c = k"
  obtains c' q where "montMulAdd key c a b = Ret c'" "length c' = k" "val c' * 2 ^ 32 = val c + uint a * val b + q * modulus key"
proof -
  let ?n = "key_n key" and ?N = "modulus key" and ?R = "(2 :: int) ^ (32 * k)"
  have k: "nat (key_len key) = k" "0 < k" "length ?n = k" using key(1) by (auto simp: key_size_def)
  define A where "A = (ucast a * ucast (b ! 0) + ucast (c ! 0) :: u64)"
  define d0 where "d0 = (ucast A :: u32) * key_n0inv key"
  define B where "B = ucast d0 * ucast (?n ! 0) + (ucast (ucast A :: u32) :: u64)"
  have A: "uint A = uint a * uint (b ! 0) + uint (c ! 0)" using acc_step [of 0 a "b ! 0" "c ! 0"] by (simp add: A_def)
  have B: "uint B = uint d0 * uint (?n ! 0) + uint A mod 2 ^ 32" using acc_step [of 0 d0 "?n ! 0" "ucast A"] by (simp add: B_def low_word)
  have "uint B mod 2 ^ 32 = 0" unfolding B d0_def by (rule montgomery_digit) (use key(2) in \<open>simp add: n0inv_ok_def\<close>)
  then have B0: "2 ^ 32 * (uint B div 2 ^ 32) = uint B" using mult_div_mod_eq [of "2 ^ 32" "uint B"] by simp
  have one: "val (take 1 xs) = uint (xs ! 0)" if "length xs = k" for xs using that k(2) val_take_Suc [of 0 xs] by simp
  have "2 ^ 32 * (uint A div 2 ^ 32 + uint B div 2 ^ 32) = (2 ^ 32 * (uint A div 2 ^ 32) + uint A mod 2 ^ 32) + uint d0 * uint (?n ! 0)"
    unfolding distrib_left B0 unfolding B by simp
  also have "\<dots> = uint (c ! 0) + uint a * uint (b ! 0) + uint d0 * uint (?n ! 0)" unfolding mult_div_mod_eq A by simp
  finally have inv: "val (take 1 c) + uint a * val (take 1 b) + uint d0 * val (take 1 ?n) =
      2 ^ 32 * val (take (1 - 1) c) + 2 ^ (32 * 1) * (uint A div 2 ^ 32 + uint B div 2 ^ 32)"
    unfolding one [OF len(1)] one [OF len(2)] one [OF k(3)] by simp
  have "1 \<le> k" using k(2) by simp
  from montMulAdd_loop_run [OF key(1) len order_refl this len(2) refl inv] obtain A1 B1 c1 where
    l: "montMulAdd_loop key a b d0 [1..<k] A B c = Ret (A1, B1, c1)" "length c1 = k"
    and T: "val c + uint a * val b + uint d0 * ?N = 2 ^ 32 * val (take (k - 1) c1) + ?R * (uint A1 div 2 ^ 32 + uint B1 div 2 ^ 32)"
    by blast
  define A2 where "A2 = drop_bit 32 A1 + drop_bit 32 B1"
  define c2 where "c2 = c1[k - 1 := ucast A2]"
  have sh: "uint (drop_bit 32 w) = uint w div 2 ^ 32" "uint w div 2 ^ 32 < 2 ^ 32" for w :: u64
  proof -
    show "uint (drop_bit 32 w) = uint w div 2 ^ 32" by (simp add: drop_bit_eq_div uint_div)
    have "uint w < 2 ^ 64" using uint_lt2p [of w] by simp
    then show "uint w div 2 ^ 32 < 2 ^ 32" using zdiv_mono1 [of "uint w" "2 ^ 64 - 1" "2 ^ 32"] by simp
  qed
  have A2: "uint A2 = uint A1 div 2 ^ 32 + uint B1 div 2 ^ 32"
    unfolding A2_def using sh(2) [of A1] sh(2) [of B1] by (simp add: uint_word_ariths sh(1) mod_pos_pos_trivial pos_imp_zdiv_nonneg_iff)
  have kk: "Suc (k - 1) = k" using k(2) by simp
  have "val c2 = val (take (k - 1) c1) + 2 ^ (32 * (k - 1)) * (uint A2 mod 2 ^ 32)"
    using val_take_update [of "k - 1" c1 "ucast A2"] l(2) k(2) unfolding kk low_word c2_def by simp
  moreover have "?R = 2 ^ 32 * 2 ^ (32 * (k - 1))" using k(2) by (cases k) (simp_all add: power_add)
  ultimately have "2 ^ 32 * (val c2 + ?R * (uint A2 div 2 ^ 32)) =
      2 ^ 32 * val (take (k - 1) c1) + ?R * (2 ^ 32 * (uint A2 div 2 ^ 32) + uint A2 mod 2 ^ 32)"
    by (simp only: algebra_simps)
  then have S: "val c + uint a * val b + uint d0 * ?N = 2 ^ 32 * (val c2 + ?R * (uint A2 div 2 ^ 32))"
    unfolding T A2 [symmetric] mult_div_mod_eq by simp
  have run: "montMulAdd key c a b = (if drop_bit 32 A2 \<noteq> 0 then subM key c2 else Ret c2)"
    unfolding montMulAdd_def Let_def using l k len kk
    by (simp add: mem_simps A_def [symmetric] d0_def [symmetric] B_def [symmetric] A2_def c2_def max_def)
  define top where "top = uint A2 div 2 ^ 32"
  have top: "drop_bit 32 A2 \<noteq> 0 \<longleftrightarrow> top \<noteq> 0" "0 \<le> top"
    using sh(1) [of A2] by (auto simp: top_def word_uint_eq_iff pos_imp_zdiv_nonneg_iff)
  have len2: "length c2 = k" using l(2) by (simp add: c2_def)
  have v: "0 \<le> val c2" "val c2 < ?R" "val c \<le> ?R - 1" "val b \<le> ?R - 1" "?N < ?R"
    using val_less [of c2] val_less [of c] val_less [of b] val_less [of ?n] len len2 k(3) by simp_all
  have "uint a * val b \<le> 4294967295 * (?R - 1)" "uint d0 * ?N \<le> 4294967295 * ?N"
    using uint_lt_u32 [of a] uint_lt_u32 [of d0] v(4) by (intro mult_mono mult_right_mono; simp)+
  then have "2 ^ 32 * (val c2 + ?R * top) < 4294967296 * (?R + ?N)"
    using sum_bound v(3) modulus_pos(1) [OF key] unfolding S [folded top_def, symmetric] by blast
  then have b: "val c2 + ?R * top < ?R + ?N" by simp
  show thesis
  proof (cases "top = 0")
    case True
    then show thesis using that [of c2 "uint d0"] run top(1) len2 S [folded top_def] by simp
  next
    case False
    have "?R * top \<ge> ?R * 1" using False top(2) by (intro mult_left_mono) simp_all
    moreover have "top < 2"
    proof (rule ccontr)
      assume "\<not> top < 2"
      then have "?R * 2 \<le> ?R * top" by (intro mult_left_mono) simp_all
      then show False using b v(1,5) by linarith
    qed
    then have "top = 1" using False top(2) by linarith
    then have b1: "val c2 < ?N" using b by simp
    obtain c3 where c3: "subM key c2 = Ret c3" "length c3 = k" "val c3 = (val c2 - ?N) mod ?R"
      using subM_run [OF key(1) len2] by blast
    have "(val c2 - ?N + ?R) mod ?R = val c2 - ?N + ?R" using b1 v(1,5) by (intro mod_pos_pos_trivial) linarith+
    then have "val c3 = val c2 + ?R * top - ?N" unfolding c3(3) mod_add_self2 \<open>top = 1\<close> by simp
    then have "val c3 * 2 ^ 32 = val c + uint a * val b + (uint d0 - 2 ^ 32) * ?N"
      using S [folded top_def] by (simp add: algebra_simps)
    then show thesis using that [of c3 "uint d0 - 2 ^ 32"] run top(1) False c3(1,2) by simp
  qed
qed

lemma zero_loop_run: "i \<le> k \<Longrightarrow> length c = k \<Longrightarrow> take i c = replicate i 0 \<Longrightarrow> zero_loop [i..<k] c = Ret (replicate k 0)"
proof (induction "k - i" arbitrary: i c)
  case (Suc m)
  have i: "i < k" "[i..<k] = i # [Suc i..<k]" using Suc.hyps(2) by (simp_all add: upt_conv_Cons)
  have t: "take (Suc i) (c[i := 0]) = replicate (Suc i) 0"
    using Suc.prems(2,3) i(1) by (simp add: take_Suc_conv_app_nth replicate_append_same)
  show ?case using Suc.hyps(1) [of "Suc i" "c[i := 0]"] Suc.hyps(2) Suc.prems(2) t i by (simp add: mem_simps)
qed simp

lemma val_zero: "val (replicate k 0) = 0"
  by (induction k) simp_all

lemma montMul_loop_run:
  assumes key: "key_size k key" "n0inv_ok key" and len: "length a = k" "length b = k"
  shows "i \<le> k \<Longrightarrow> length c = k \<Longrightarrow> val c * 2 ^ (32 * i) = val (take i a) * val b + q * modulus key \<Longrightarrow>
    \<exists>c' q'. montMul_loop key a b [i..<k] c = Ret c' \<and> length c' = k \<and> val c' * 2 ^ (32 * k) = val a * val b + q' * modulus key"
proof (induction "k - i" arbitrary: i c q)
  case 0
  then have "i = k" by simp
  then show ?case using 0 len by (intro exI [of _ c] exI [of _ q]) simp
next
  case (Suc m)
  have i: "i < k" using Suc.hyps(2) by simp
  obtain c1 q1 where c1: "montMulAdd key c (a ! i) b = Ret c1" "length c1 = k"
    "val c1 * 2 ^ 32 = val c + uint (a ! i) * val b + q1 * modulus key"
    using montMulAdd_run [OF key len(2) Suc.prems(2)] by blast
  have "val c1 * 2 ^ (32 * Suc i) = (val c1 * 2 ^ 32) * 2 ^ (32 * i)" by (simp add: power_add)
  also have "\<dots> = val c * 2 ^ (32 * i) + 2 ^ (32 * i) * uint (a ! i) * val b + q1 * 2 ^ (32 * i) * modulus key"
    unfolding c1(3) by (simp only: algebra_simps)
  also have "\<dots> = val (take (Suc i) a) * val b + (q + q1 * 2 ^ (32 * i)) * modulus key"
    unfolding Suc.prems(3) using i len(1) by (simp add: val_take_Suc algebra_simps)
  finally have inv: "val c1 * 2 ^ (32 * Suc i) = val (take (Suc i) a) * val b + (q + q1 * 2 ^ (32 * i)) * modulus key" .
  have "[i..<k] = i # [Suc i..<k]" using i by (rule upt_conv_Cons)
  then have run: "montMul_loop key a b [i..<k] c = montMul_loop key a b [Suc i..<k] c1" using i len(1) c1(1) by (simp add: mem_simps)
  have "m = k - Suc i" "Suc i \<le> k" using Suc.hyps(2) i by simp_all
  from Suc.hyps(1) [OF this c1(2) inv] show ?case unfolding run .
qed

lemma montMul_run:
  assumes key: "key_size k key" "n0inv_ok key" and len: "length a = k" "length b = k" "length c = k"
  obtains c' where "montMul key c a b = Ret c'" "length c' = k"
    "val c' * 2 ^ (32 * k) mod modulus key = val a * val b mod modulus key"
proof -
  have k: "nat (key_len key) = k" using key(1) by (simp add: key_size_def)
  have z: "zero_loop [0..<k] c = Ret (replicate k 0)" by (rule zero_loop_run) (use len(3) in simp_all)
  have "val (replicate k 0) * 2 ^ (32 * 0) = val (take 0 a) * val b + 0 * modulus key" by (simp add: val_zero)
  from montMul_loop_run [OF key len(1,2) _ _ this] obtain c' q' where
    c': "montMul_loop key a b [0..<k] (replicate k 0) = Ret c'" "length c' = k" "val c' * 2 ^ (32 * k) = val a * val b + q' * modulus key"
    by auto
  show thesis by (rule that [of c']) (use c' z k in \<open>simp_all add: montMul_def\<close>)
qed

section \<open>Byte strings and numbers\<close>

text \<open>The conversions of PKCS #1 between octet strings and integers.\<close>

definition os2ip :: "u8 list \<Rightarrow> int" where
  "os2ip bs = foldl (\<lambda>n b. n * 256 + uint b) 0 bs"

primrec i2osp :: "nat \<Rightarrow> int \<Rightarrow> u8 list" where
  "i2osp 0 n = []"
| "i2osp (Suc k) n = i2osp k (n div 256) @ [word_of_int n]"

lemma os2ip_Nil [simp]: "os2ip [] = 0"
  by (simp add: os2ip_def)

lemma os2ip_snoc: "os2ip (bs @ [b]) = os2ip bs * 256 + uint b"
  by (simp add: os2ip_def)

lemma os2ip_append: "os2ip (xs @ ys) = os2ip xs * 256 ^ length ys + os2ip ys"
proof (induction ys rule: rev_induct)
  case (snoc y ys)
  have "os2ip (xs @ ys @ [y]) = os2ip (xs @ ys) * 256 + uint y" using os2ip_snoc [of "xs @ ys" y] by simp
  then show ?case using snoc by (simp add: os2ip_snoc algebra_simps)
qed simp

lemma i2osp_os2ip: "i2osp (length bs) (os2ip bs) = bs"
proof (induction bs rule: rev_induct)
  case (snoc b bs)
  have b: "0 \<le> uint b" "uint b < 256" using uint_lt2p [of b] by simp_all
  have "(os2ip bs * 256 + uint b) div 256 = os2ip bs" using b by simp
  moreover have "word_of_int (os2ip bs * 256 + uint b) = b"
    by (rule word_uint_eqI) (use b in \<open>simp add: uint_word_of_int del: of_int_add of_int_mult\<close>)
  ultimately show ?case using snoc by (simp add: os2ip_snoc)
qed simp

lemma os2ip_be_bytes: "os2ip (be_bytes w) = uint w"
proof -
  have m: "uint w mod 4294967296 = uint w" using uint_lt_u32 [of w] by simp
  have b: "uint (ucast (drop_bit n w) :: u8) = uint w div 2 ^ n mod 256" for n
    unfolding unsigned_ucast_eq unsigned_drop_bit_eq by (simp add: take_bit_eq_mod drop_bit_eq_div m)
  have "uint w div 2 ^ 24 mod 256 = uint w div 2 ^ 24"
    using uint_lt_u32 [of w] zdiv_mono1 [of "uint w" "2 ^ 32 - 1" "2 ^ 24"] by (intro mod_pos_pos_trivial) (simp_all add: pos_imp_zdiv_nonneg_iff)
  moreover have "n div 2 ^ (m + 8) * 256 + n div 2 ^ m mod 256 = n div 2 ^ m" for n :: int and m :: nat
    using div_mult_mod_eq [of "n div 2 ^ m" 256] by (simp add: power_add zdiv_zmult2_eq)
  from this [of "uint w" 16] this [of "uint w" 8] this [of "uint w" 0]
  have "uint w div 2 ^ 24 * 256 + uint w div 2 ^ 16 mod 256 = uint w div 2 ^ 16"
    "uint w div 2 ^ 16 * 256 + uint w div 2 ^ 8 mod 256 = uint w div 2 ^ 8"
    "uint w div 2 ^ 8 * 256 + uint w div 2 ^ 0 mod 256 = uint w" by simp_all
  ultimately show ?thesis unfolding be_bytes_def os2ip_def by (simp only: foldl.simps b mult_zero_left add_0_left)
qed

lemma be_word_bytes:
  "be_bytes (push_bit 24 (ucast b0) OR push_bit 16 (ucast b1) OR push_bit 8 (ucast b2) OR push_bit 0 (ucast b3)) = [b0, b1, b2, b3]"
proof -
  have "push_bit 24 (ucast b0) OR push_bit 16 (ucast b1) OR push_bit 8 (ucast b2) OR push_bit 0 (ucast b3) = of_le32 [b3, b2, b1, b0]"
    by (simp add: of_le32_def ac_simps)
  then show ?thesis using le32_of_le32 [of "[b3, b2, b1, b0]"] by (simp add: digest_bytes(2) be32_def)
qed

lemma be_word_at_run:
  assumes "length (drop (k * 4) bs) = 4"
  obtains w where "be_word_at (bs @ rest) k = Ret w" "uint w = os2ip (drop (k * 4) bs)"
proof -
  have "\<exists>b0 b1 b2 b3. xs = [b0, b1, b2, b3]" if "length xs = 4" for xs :: "u8 list"
    using that by (auto simp: numeral_eq_Suc length_Suc_conv)
  from this [OF assms] obtain b0 b1 b2 b3 where d: "drop (k * 4) bs = [b0, b1, b2, b3]" by blast
  have l: "length bs = k * 4 + 4" using assms by simp
  have n: "(bs @ rest) ! (k * 4 + i) = [b0, b1, b2, b3] ! i" if "i < 4" for i
    using that l nth_drop [of "k * 4" bs i] by (simp add: nth_append d)
  define w :: u32 where "w = push_bit 24 (ucast b0) OR push_bit 16 (ucast b1) OR push_bit 8 (ucast b2) OR push_bit 0 (ucast b3)"
  have "be_word_at (bs @ rest) k = Ret w"
    using l n [of 0] n [of 1] n [of 2] n [of 3] by (simp add: be_word_at_def mem_simps w_def)
  moreover have "uint w = os2ip (drop (k * 4) bs)" using os2ip_be_bytes [of w] be_word_bytes [of b0 b1 b2 b3] by (simp only: w_def d)
  ultimately show thesis by (rule that)
qed

text \<open>Reading the number, and writing it back.\<close>

lemma val_words:
  assumes "length bs = 4 * k" "\<And>j. j < k \<Longrightarrow> uint (w j) = os2ip (take 4 (drop (j * 4) bs))"
  shows "val (map (\<lambda>i. w (k - 1 - i)) [0..<k]) = os2ip bs"
  using assms
proof (induction k arbitrary: bs)
  case (Suc k)
  define bs' where "bs' = take (4 * k) bs"
  have bs: "bs = bs' @ drop (k * 4) bs" "length bs' = 4 * k" "length (drop (k * 4) bs) = 4"
    using Suc.prems(1) by (simp_all add: bs'_def mult.commute)
  have "uint (w j) = os2ip (take 4 (drop (j * 4) bs'))" if "j < k" for j
  proof -
    have "take 4 (drop (j * 4) bs') = take 4 (drop (j * 4) bs)" using that by (simp add: bs'_def drop_take min_def)
    then show ?thesis using Suc.prems(2) [of j] that by simp
  qed
  from Suc.IH [OF bs(2) this] have IH: "val (map (\<lambda>i. w (k - 1 - i)) [0..<k]) = os2ip bs'" .
  have "map (\<lambda>i. w (Suc k - 1 - i)) [0..<Suc k] = w k # map (\<lambda>i. w (k - 1 - i)) [0..<k]"
    by (simp add: upt_conv_Cons map_Suc_upt [symmetric] del: upt_Suc)
  moreover have "uint (w k) = os2ip (drop (k * 4) bs)" using Suc.prems(2) [of k] bs(3) by simp
  ultimately show ?case using IH os2ip_append [of bs' "drop (k * 4) bs"] bs by (simp add: algebra_simps)
qed simp

lemma words_loop_run:
  assumes "length inout = 4 * k" "length a = k"
  obtains a' where "words_loop k inout [0..<k] a = Ret a'" "length a' = k" "val a' = os2ip inout"
proof -
  have "\<exists>w. be_word_at inout j = Ret w \<and> uint w = os2ip (take 4 (drop (j * 4) inout))" if "j < k" for j
  proof -
    define bs where "bs = take (j * 4 + 4) inout"
    have l: "length (drop (j * 4) bs) = 4" using that assms(1) by (simp add: bs_def)
    obtain w where "be_word_at (bs @ drop (j * 4 + 4) inout) j = Ret w" "uint w = os2ip (drop (j * 4) bs)" by (rule be_word_at_run [OF l])
    then show ?thesis by (simp add: bs_def drop_take)
  qed
  then obtain w where w: "be_word_at inout j = Ret (w j)" "uint (w j) = os2ip (take 4 (drop (j * 4) inout))" if "j < k" for j
    by metis
  have "i \<le> k \<Longrightarrow> length b = k \<Longrightarrow> take i b = map (\<lambda>j. w (k - 1 - j)) [0..<i] \<Longrightarrow>
      words_loop k inout [i..<k] b = Ret (map (\<lambda>j. w (k - 1 - j)) [0..<k])" for i b
  proof (induction "k - i" arbitrary: i b)
    case (Suc m)
    have i: "i < k" "[i..<k] = i # [Suc i..<k]" using Suc.hyps(2) by (simp_all add: upt_conv_Cons)
    let ?b = "b[i := w (k - 1 - i)]"
    have "take (Suc i) ?b = map (\<lambda>j. w (k - 1 - j)) [0..<Suc i]"
      using Suc.prems(2,3) i(1) by (simp add: take_Suc_conv_app_nth)
    then show ?case using Suc.hyps(1) [of "Suc i" ?b] Suc.hyps(2) Suc.prems(2) i w(1) [of "k - 1 - i"] by (simp add: mem_simps)
  qed simp
  from this [of 0 a] assms(2) have r: "words_loop k inout [0..<k] a = Ret (map (\<lambda>j. w (k - 1 - j)) [0..<k])" by simp
  show thesis by (rule that [OF r]) (use val_words [OF assms(1), of w] w(2) in simp_all)
qed

lemma bytes_loop_run:
  "k \<le> length aaa \<Longrightarrow> length inout = p + 4 * k \<Longrightarrow>
   bytes_loop aaa (rev [0..<k]) p inout = Ret (take p inout @ concat (map be_bytes (rev (take k aaa))))"
proof (induction k arbitrary: p inout)
  case (Suc k)
  let ?b = "be_bytes (aaa ! k)"
  have l: "length ?b = 4" by (simp add: be_bytes_def)
  define io where "io = take p inout @ ?b @ drop (p + 4) inout"
  have w: "write_at p ?b inout = Ret io" using Suc.prems(2) l by (simp add: mem_simps io_def)
  have io: "length io = p + 4 + 4 * k" "take (p + 4) io = take p inout @ ?b" using Suc.prems(2) l by (simp_all add: io_def)
  have "rev [0..<Suc k] = k # rev [0..<k]" by simp
  moreover have "rev (take (Suc k) aaa) = aaa ! k # rev (take k aaa)" using Suc.prems(1) by (simp add: take_Suc_conv_app_nth)
  ultimately show ?case using Suc.IH [of io "p + 4"] Suc.prems(1) w io by (simp add: mem_simps)
qed simp

lemma os2ip_words: "os2ip (concat (map be_bytes (rev ws))) = val ws"
proof (induction ws)
  case (Cons w ws)
  have "length (be_bytes w) = 4" by (simp add: be_bytes_def)
  then show ?case using Cons by (simp add: os2ip_append os2ip_be_bytes algebra_simps)
qed simp

section \<open>Powers modulo the public modulus\<close>

text \<open>A key as the tool that writes it makes it: the stored inverse and square are right and the modulus has full length.\<close>

definition key_ok :: "nat \<Rightarrow> RSAPublicKey \<Rightarrow> bool" where
  "key_ok k key \<longleftrightarrow> key_size k key \<and> n0inv_ok key \<and>
     val (key_rr key) mod modulus key = (2 ^ (32 * k)) ^ 2 mod modulus key \<and> 2 ^ (32 * k) \<le> 2 * modulus key"

lemma cancel_R:
  assumes "odd (N :: int)" "x * 2 ^ m mod N = y * 2 ^ m mod N"
  shows "x mod N = y mod N"
proof -
  have "N dvd (x - y) * 2 ^ m" using assms(2) by (simp add: mod_eq_dvd_iff left_diff_distrib)
  moreover have "coprime N (2 ^ m)" using assms(1) by (simp add: coprime_right_2_iff_odd)
  ultimately show ?thesis by (simp add: coprime_dvd_mult_left_iff mod_eq_dvd_iff)
qed

definition mont :: "nat \<Rightarrow> RSAPublicKey \<Rightarrow> int \<Rightarrow> u32 list \<Rightarrow> bool" where
  "mont k key x X \<longleftrightarrow> length X = k \<and> val X mod modulus key = x * 2 ^ (32 * k) mod modulus key"

lemma montMul_cong:
  assumes "key_ok k key" "length a = k" "length b = k" "length c = k"
    and "val a * val b mod modulus key = z * 2 ^ (32 * k) mod modulus key"
  obtains c' where "montMul key c a b = Ret c'" "length c' = k" "val c' mod modulus key = z mod modulus key"
proof -
  have key: "key_size k key" "n0inv_ok key" using assms(1) by (simp_all add: key_ok_def)
  obtain c' where c': "montMul key c a b = Ret c'" "length c' = k" "val c' * 2 ^ (32 * k) mod modulus key = val a * val b mod modulus key"
    by (rule montMul_run [OF key assms(2-4)])
  show thesis by (rule that [OF c'(1,2) cancel_R [OF modulus_pos(2) [OF key]]]) (use c'(3) assms(5) in simp)
qed

lemma montMul_mont:
  assumes "key_ok k key" "mont k key x X" "mont k key y Y" "length c = k"
  obtains c' where "montMul key c X Y = Ret c'" "mont k key (x * y) c'"
proof -
  let ?R = "2 ^ (32 * k) :: int" and ?N = "modulus key"
  have X: "length X = k" "val X mod ?N = x * ?R mod ?N" and Y: "length Y = k" "val Y mod ?N = y * ?R mod ?N"
    using assms(2,3) by (simp_all add: mont_def)
  have "val X * val Y mod ?N = (val X mod ?N) * (val Y mod ?N) mod ?N" by (simp only: mod_mult_eq)
  also have "\<dots> = (x * ?R) * (y * ?R) mod ?N" unfolding X(2) Y(2) by (simp only: mod_mult_eq)
  also have "(x * ?R) * (y * ?R) = (x * y * ?R) * ?R" by (simp only: ac_simps)
  finally obtain c' where "montMul key c X Y = Ret c'" "length c' = k" "val c' mod ?N = x * y * ?R mod ?N"
    by (rule montMul_cong [OF assms(1) X(1) Y(1) assms(4)])
  then show thesis by (intro that) (simp_all add: mont_def)
qed

lemma square_loop_run:
  assumes "key_ok k key"
  shows "mont k key x aR \<Longrightarrow> length aaR = k \<Longrightarrow>
    \<exists>aR' aaR'. square_loop key n aR aaR = Ret (aR', aaR') \<and> mont k key (x ^ (4 ^ n)) aR' \<and> length aaR' = k"
proof (induction n arbitrary: x aR aaR)
  case (Suc n)
  obtain s where s: "montMul key aaR aR aR = Ret s" "mont k key (x * x) s" by (rule montMul_mont [OF assms Suc.prems(1,1,2)])
  have l: "length aR = k" using Suc.prems(1) by (simp add: mont_def)
  obtain q where q: "montMul key aR s s = Ret q" "mont k key (x * x * (x * x)) q" by (rule montMul_mont [OF assms s(2,2) l])
  have "length s = k" using s(2) by (simp add: mont_def)
  moreover have "(x * x * (x * x)) ^ (4 ^ n) = x ^ (4 ^ Suc n)" unfolding power_Suc power_mult power4_eq_xxxx by (simp only: mult.assoc)
  ultimately show ?case using Suc.IH [OF q(2)] s(1) q(1) by simp
qed simp

lemma reduce_run:
  assumes "key_ok k key" "length aaa = k" "length inout = 4 * k"
  shows "reduce_and_store key aaa inout = Ret (i2osp (4 * k) (val aaa mod modulus key))"
proof -
  let ?N = "modulus key"
  have key: "key_size k key" "n0inv_ok key" "2 ^ (32 * k) \<le> 2 * ?N" and k: "nat (key_len key) = k"
    using assms(1) by (auto simp: key_ok_def key_size_def)
  have N: "?N < 2 ^ (32 * k)" using val_less [of "key_n key"] key(1) by (simp add: key_size_def)
  have v: "0 \<le> val aaa" "val aaa < 2 * ?N" using val_less [of aaa] assms(2) key(3) by simp_all
  obtain r where r: "(if ?N \<le> val aaa then subM key aaa else Ret aaa) = Ret r" "length r = k" "val r = val aaa mod ?N"
  proof (cases "?N \<le> val aaa")
    case True
    obtain a' where a': "subM key aaa = Ret a'" "length a' = k" "val a' = (val aaa - ?N) mod 2 ^ (32 * k)"
      by (rule subM_run [OF key(1) assms(2)])
    have "(val aaa - ?N) mod 2 ^ (32 * k) = val aaa - ?N" using True v N by (intro mod_pos_pos_trivial) linarith+
    moreover have "val aaa mod ?N = (val aaa - ?N) mod ?N" by simp
    moreover have "(val aaa - ?N) mod ?N = val aaa - ?N" using True v by (intro mod_pos_pos_trivial) linarith+
    ultimately show thesis using that [of a'] a' True by simp
  next
    case False
    then show thesis using that [of aaa] assms(2) v by (simp add: mod_pos_pos_trivial)
  qed
  define bs where "bs = concat (map be_bytes (rev r))"
  have "bytes_loop r (rev [0..<k]) 0 inout = Ret bs" using bytes_loop_run [of k r inout 0] r(2) assms(3) by (simp add: bs_def)
  moreover have "length bs = 4 * k" using r(2) by (simp add: bs_def length_concat be_bytes_def comp_def sum_list_triv)
  moreover have "os2ip bs = val aaa mod ?N" using os2ip_words [of r] r(3) by (simp add: bs_def)
  ultimately show ?thesis using i2osp_os2ip [of bs] r(1) geM_run [OF key(1) assms(2)] by (simp add: reduce_and_store_def k)
qed

lemma to_mont:
  assumes "key_ok k key" "length inout = 4 * k" "length a = k" "length aR = k"
  obtains a' aR' where "words_loop k inout [0..<k] a = Ret a'" "length a' = k" "val a' = os2ip inout"
    "montMul key aR a' (key_rr key) = Ret aR'" "mont k key (os2ip inout) aR'"
proof -
  let ?R = "2 ^ (32 * k) :: int" and ?N = "modulus key"
  obtain a' where a': "words_loop k inout [0..<k] a = Ret a'" "length a' = k" "val a' = os2ip inout"
    by (rule words_loop_run [OF assms(2,3)])
  have rr: "length (key_rr key) = k" "val (key_rr key) mod ?N = ?R ^ 2 mod ?N" using assms(1) by (simp_all add: key_ok_def key_size_def)
  have "val a' * val (key_rr key) mod ?N = os2ip inout * ?R ^ 2 mod ?N" unfolding a'(3) using rr(2) by (metis mod_mult_right_eq)
  then have "val a' * val (key_rr key) mod ?N = os2ip inout * ?R * ?R mod ?N" by (simp add: power2_eq_square mult.assoc)
  then obtain aR' where "montMul key aR a' (key_rr key) = Ret aR'" "length aR' = k" "val aR' mod ?N = os2ip inout * ?R mod ?N"
    by (rule montMul_cong [OF assms(1) a'(2) rr(1) assms(4)])
  then show thesis using that a' by (simp add: mont_def)
qed

lemma from_mont:
  assumes "key_ok k key" "mont k key x X" "length a = k" "length c = k"
  obtains c' where "montMul key c X a = Ret c'" "length c' = k" "val c' mod modulus key = x * val a mod modulus key"
proof -
  let ?R = "2 ^ (32 * k) :: int" and ?N = "modulus key"
  have "val X * val a mod ?N = (x * ?R) * val a mod ?N" using assms(2) by (metis mod_mult_left_eq mont_def)
  then have "val X * val a mod ?N = x * val a * ?R mod ?N" by (simp add: mult.assoc mult.left_commute mult.commute)
  moreover have "length X = k" using assms(2) by (simp add: mont_def)
  ultimately show thesis using montMul_cong [OF assms(1) _ assms(3,4)] that by blast
qed

lemma modpow3_run:
  assumes "key_ok k key" "length inout = 4 * k" "length a = k" "length aR = k" "length aaR = k"
  shows "modpow3 (a, aR, aaR) key inout = Ret (i2osp (4 * k) (os2ip inout ^ 3 mod modulus key))"
proof -
  have k: "nat (key_len key) = k" using assms(1) by (simp add: key_ok_def key_size_def)
  obtain a' aR' where t: "words_loop k inout [0..<k] a = Ret a'" "length a' = k" "val a' = os2ip inout"
    "montMul key aR a' (key_rr key) = Ret aR'" "mont k key (os2ip inout) aR'" by (rule to_mont [OF assms(1-4)])
  obtain s where s: "montMul key aaR aR' aR' = Ret s" "mont k key (os2ip inout * os2ip inout) s"
    by (rule montMul_mont [OF assms(1) t(5,5) assms(5)])
  have l: "length aR' = k" using t(5) by (simp add: mont_def)
  obtain r where r: "montMul key aR' s a' = Ret r" "length r = k" "val r mod modulus key = os2ip inout * os2ip inout * val a' mod modulus key"
    by (rule from_mont [OF assms(1) s(2) t(2) l])
  show ?thesis using t s(1) r reduce_run [OF assms(1) r(2) assms(2)]
    by (simp add: modpow3_def k power3_eq_cube)
qed

lemma modpowF4_run:
  assumes "key_ok k key" "length inout = 4 * k" "length a = k" "length aR = k" "length aaR = k"
  shows "modpowF4 (a, aR, aaR) key inout = Ret (i2osp (4 * k) (os2ip inout ^ 65537 mod modulus key))"
proof -
  have k: "nat (key_len key) = k" using assms(1) by (simp add: key_ok_def key_size_def)
  obtain a' aR' where t: "words_loop k inout [0..<k] a = Ret a'" "length a' = k" "val a' = os2ip inout"
    "montMul key aR a' (key_rr key) = Ret aR'" "mont k key (os2ip inout) aR'" by (rule to_mont [OF assms(1-4)])
  obtain q u where q: "square_loop key 8 aR' aaR = Ret (q, u)" "mont k key (os2ip inout ^ (4 ^ 8)) q" "length u = k"
    using square_loop_run [OF assms(1) t(5) assms(5), of 8] by blast
  obtain r where r: "montMul key u q a' = Ret r" "length r = k" "val r mod modulus key = os2ip inout ^ (4 ^ 8) * val a' mod modulus key"
    by (rule from_mont [OF assms(1) q(2) t(2) q(3)])
  have "os2ip inout ^ (4 ^ 8) * os2ip inout = os2ip inout ^ (4 ^ 8 + 1)" by (simp only: power_add power_one_right)
  moreover have "(4 :: nat) ^ 8 + 1 = 65537" by simp
  ultimately have "val r mod modulus key = os2ip inout ^ 65537 mod modulus key" using r(3) t(3) by metis
  moreover have "(16 :: nat) div 2 = 8" by simp
  ultimately show ?thesis using t(1,4) q(1) r(1) reduce_run [OF assms(1) r(2) assms(2)]
    unfolding modpowF4_def k Let_def by (simp del: square_loop.simps)
qed

section \<open>Results\<close>

text \<open>
  C36. Montgomery multiplication: for a key of \<open>k\<close> words whose \<open>n0inv\<close> is the negated inverse of the lowest
  word of the modulus, \<open>montMul\<close> accesses no word outside its arrays, whatever the result array held before, and
  leaves a number below R = 2^(32 k) that times R is the product of the arguments modulo the modulus. No
  64-bit accumulator wraps around on the way and at most one subtraction is needed per word.\<close>

theorem montMul_correct:
  assumes "key_size k key" and "n0inv_ok key" and "length a = k" and "length b = k" and "length c = k"
  shows "\<exists>c'. montMul key c a b = Ret c' \<and> length c' = k \<and> 0 \<le> val c' \<and> val c' < 2 ^ (32 * k) \<and>
    val c' * 2 ^ (32 * k) mod modulus key = val a * val b mod modulus key"
proof -
  obtain c' where "montMul key c a b = Ret c'" "length c' = k"
    "val c' * 2 ^ (32 * k) mod modulus key = val a * val b mod modulus key" by (rule montMul_run [OF assms])
  then show ?thesis using val_less [of c'] by auto
qed

text \<open>
  C4. Both exponentiations compute powers: for a key with a full-length modulus, the buffer, read as a
  big-endian number, is replaced by its third, respectively 65537th, power modulo the modulus, again as a big-endian
  string of the same length, whatever the local arrays held.\<close>

theorem modpow_correct:
  assumes "key_ok k key" and "length inout = 4 * k" and "length a = k" and "length aR = k" and "length aaR = k"
  shows "modpow3 (a, aR, aaR) key inout = Ret (i2osp (4 * k) (os2ip inout ^ 3 mod modulus key)) \<and>
    modpowF4 (a, aR, aaR) key inout = Ret (i2osp (4 * k) (os2ip inout ^ 65537 mod modulus key))"
  by (rule conjI [OF modpow3_run [OF assms] modpowF4_run [OF assms]])

text \<open>The largest modulus of \<open>k\<close> words, with its Montgomery constants.\<close>

definition demo_key :: "nat \<Rightarrow> int \<Rightarrow> RSAPublicKey" where
  "demo_key k e = \<lparr>key_len = int k, key_n0inv = 1, key_n = replicate k 0xFFFFFFFF, key_rr = 1 # replicate (k - 1) 0, key_exponent = e\<rparr>"

lemma val_ones: "val (replicate k 0xFFFFFFFF) = 2 ^ (32 * k) - 1"
  by (induction k) (simp_all add: power_add)

lemma demo_key_ok: "0 < k \<Longrightarrow> key_ok k (demo_key k e)"
proof -
  assume k: "0 < k"
  let ?R = "(2 :: int) ^ (32 * k)"
  have "?R ^ 2 mod (?R - 1) = 1 mod (?R - 1)"
    unfolding mod_eq_dvd_iff by (simp add: power2_eq_square square_diff_one_factored)
  moreover have "(2 :: int) ^ 1 \<le> ?R" using k by (intro power_increasing) simp_all
  moreover have "replicate k (0xFFFFFFFF :: u32) ! 0 = 0xFFFFFFFF" using k by simp
  ultimately show ?thesis using k
    by (simp add: key_ok_def key_size_def n0inv_ok_def demo_key_def val_ones val_zero)
qed

theorem montMul_correct_witness:
  "\<exists>c'. montMul (demo_key 2 3) [7, 7] [1, 2] [3, 4] = Ret c' \<and> val c' < 2 ^ (32 * 2) \<and>
    val c' * 2 ^ (32 * 2) mod modulus (demo_key 2 3) = val [1, 2] * val [3, 4] mod modulus (demo_key 2 3)"
proof -
  have "key_size 2 (demo_key 2 3)" "n0inv_ok (demo_key 2 3)" using demo_key_ok [of 2 3] by (simp_all add: key_ok_def)
  from montMul_correct [OF this, of "[1, 2]" "[3, 4]" "[7, 7]"] show ?thesis by auto
qed

theorem modpow_correct_witness:
  "modpow3 ([1], [2], [3]) (demo_key 1 3) [0, 0, 0, 2] = Ret [0, 0, 0, 8]"
proof -
  have "os2ip [0, 0, 0, 2] = 2" by (simp add: os2ip_def)
  moreover have "i2osp 4 8 = [0, 0, 0, 8]" by code_simp
  moreover have "modulus (demo_key 1 3) = 2 ^ 32 - 1" by (simp add: demo_key_def)
  moreover have "key_ok 1 (demo_key 1 3)" by (rule demo_key_ok) simp
  note conjunct1 [OF modpow_correct [OF this, of "[0, 0, 0, 2]" "[1]" "[2]" "[3]"]]
  ultimately show ?thesis by simp
qed

end
