(* ===== verification/Rsa_Verify.thy ===== *)
theory Rsa_Verify
  imports Rsa
begin

text \<open>
  Which signatures \<open>RSA_verify\<close> accepts. For the exponent 65537 the source compares a hash of the decrypted block with
  a stored constant, so the theory first evaluates SHA-1 on the PKCS #1 padding: the rounds are mirrored by a
  function on integers that the simplifier can run.
\<close>

unbundle bit_operations_syntax

section \<open>Running the compression function\<close>

datatype sha_stage = Stage1 | Stage2 | Stage3 | Stage4

fun stage_int :: "sha_stage \<Rightarrow> int \<Rightarrow> int \<Rightarrow> int \<Rightarrow> int" where
  "stage_int Stage1 b c d = (d XOR (b AND (c XOR d))) + 0x5A827999"
| "stage_int Stage2 b c d = (b XOR c XOR d) + 0x6ED9EBA1"
| "stage_int Stage3 b c d = ((b AND c) OR (d AND (b OR c))) + 0x8F1BBCDC"
| "stage_int Stage4 b c d = (b XOR c XOR d) + 0xCA62C1D6"

definition rotl_int :: "nat \<Rightarrow> int \<Rightarrow> int" where
  "rotl_int n x = (x * 2 ^ n) mod 2 ^ 32 + x div 2 ^ (32 - n)"

text \<open>The rounds over a window of sixteen words of the schedule.\<close>

fun rounds_int :: "sha_stage list \<Rightarrow> int list \<Rightarrow> int \<Rightarrow> int \<Rightarrow> int \<Rightarrow> int \<Rightarrow> int \<Rightarrow> int list" where
  "rounds_int [] ws a b c d e = [a, b, c, d, e]"
| "rounds_int (k # ks) [w0, w1, w2, w3, w4, w5, w6, w7, w8, w9, w10, w11, w12, w13, w14, w15] a b c d e =
     rounds_int ks [w1, w2, w3, w4, w5, w6, w7, w8, w9, w10, w11, w12, w13, w14, w15, rotl_int 1 (w13 XOR w8 XOR w2 XOR w0)]
       ((rotl_int 5 a + e + w0 + stage_int k b c d) mod 2 ^ 32) a (rotl_int 30 b) c d"
| "rounds_int _ _ _ _ _ _ _ = []"

definition stage_of :: "nat \<Rightarrow> sha_stage" where
  "stage_of t = (if t < 20 then Stage1 else if t < 40 then Stage2 else if t < 60 then Stage3 else Stage4)"

lemma uint_rotl:
  assumes "0 < n" "n < 32"
  shows "uint (word_rotl n (w :: u32)) = rotl_int n (uint w)"
proof -
  let ?u = "uint w"
  have b: "bit ?u i \<Longrightarrow> i < 32" for i using bit_uint_iff [of w i] by (auto dest: bit_imp_le_length)
  have "uint (rol n w) = take_bit 32 (push_bit n ?u) OR drop_bit (32 - n) ?u"
    by (rule bit_eqI) (use assms in \<open>auto simp: rol_def bit_simps dest: b\<close>)
  also have "\<dots> = take_bit 32 (push_bit n ?u) + drop_bit (32 - n) ?u"
    by (rule disjunctive_add [symmetric]) (use assms in \<open>auto simp: bit_simps dest: b bit_imp_le_length\<close>)
  finally show ?thesis using rol_rotl [OF assms] by (simp add: rotl_int_def take_bit_eq_mod push_bit_eq_mult drop_bit_eq_div)
qed

lemma uint_stage: "(uint (fips_f t b c d) + uint (fips_K t)) mod 2 ^ 32 = stage_int (stage_of t) (uint b) (uint c) (uint d) mod 2 ^ 32"
proof -
  consider "t < 20" | "20 \<le> t" "t < 40" | "40 \<le> t" "t < 60" | "60 \<le> t" by linarith
  then show ?thesis
    by cases (simp_all add: fips_f_def fips_K_def stage_of_def unsigned_xor_eq unsigned_and_eq unsigned_or_eq flip: round_functions)
qed

lemma upt16: "[0..<16] = [0, 1, 2, 3, 4, 5, 6, 7, 8, 9, 10, 11, 12, 13, 14, 15 :: nat]"
  by (simp add: upt_rec)

lemma rounds_int_run:
  "t \<le> 80 \<Longrightarrow> fold (fips_round M) [t..<80] (a, b, c, d, e) = (a', b', c', d', e') \<Longrightarrow>
   rounds_int (map stage_of [t..<80]) (map (\<lambda>j. uint (fips_W M (t + j))) [0..<16]) (uint a) (uint b) (uint c) (uint d) (uint e) =
     [uint a', uint b', uint c', uint d', uint e']"
proof (induction "80 - t" arbitrary: t a b c d e)
  case (Suc m)
  have u: "[t..<80] = t # [Suc t..<80]" using Suc.hyps(2) by (intro upt_conv_Cons) simp
  define x where "x = word_rotl 5 a + fips_f t b c d + e + fips_K t + fips_W M t"
  have f: "fold (fips_round M) [Suc t..<80] (x, a, word_rotl 30 b, c, d) = (a', b', c', d', e')"
    using Suc.prems(2) unfolding u by (simp add: fips_round_def x_def)
  have r: "rotl_int 5 (uint a) = uint (word_rotl 5 a)" "rotl_int 30 (uint b) = uint (word_rotl 30 b)" by (simp_all add: uint_rotl)
  have "uint x = (uint (word_rotl 5 a) + uint e + uint (fips_W M t) + (uint (fips_f t b c d) + uint (fips_K t))) mod 2 ^ 32"
    unfolding x_def by (simp add: uint_word_ariths mod_simps ac_simps)
  also have "\<dots> = (uint (word_rotl 5 a) + uint e + uint (fips_W M t) + stage_int (stage_of t) (uint b) (uint c) (uint d)) mod 2 ^ 32"
    unfolding mod_add_right_eq [of _ "uint (fips_f t b c d) + uint (fips_K t)", symmetric] uint_stage by (simp only: mod_add_right_eq)
  finally have x: "(rotl_int 5 (uint a) + uint e + uint (fips_W M t) + stage_int (stage_of t) (uint b) (uint c) (uint d)) mod 2 ^ 32 = uint x"
    by (simp add: r)
  have w: "rotl_int 1 (uint (fips_W M (t + 13)) XOR uint (fips_W M (t + 8)) XOR uint (fips_W M (t + 2)) XOR uint (fips_W M t)) = uint (fips_W M (t + 16))"
    by (subst fips_W.simps [of M "t + 16"]) (simp add: unsigned_xor_eq [symmetric] uint_rotl [symmetric] add.commute)
  have "rounds_int (map stage_of [t..<80]) (map (\<lambda>j. uint (fips_W M (t + j))) [0..<16]) (uint a) (uint b) (uint c) (uint d) (uint e) =
      rounds_int (map stage_of [Suc t..<80]) (map (\<lambda>j. uint (fips_W M (Suc t + j))) [0..<16]) (uint x) (uint a) (uint (word_rotl 30 b)) (uint c) (uint d)"
    unfolding u upt16 list.map rounds_int.simps add_0_right x r(2) w by (simp add: numeral_eq_Suc)
  then show ?case using Suc.hyps(1) [of "Suc t", OF _ _ f] Suc.hyps(2) by simp
qed simp

fun words_of :: "u8 list \<Rightarrow> int list" where
  "words_of (b0 # b1 # b2 # b3 # bs) = (((uint b0 * 256 + uint b1) * 256 + uint b2) * 256 + uint b3) # words_of bs"
| "words_of _ = []"

lemma uint_of_be32: "uint (of_be32 [b0, b1, b2, b3]) = ((uint b0 * 256 + uint b1) * 256 + uint b2) * 256 + uint b3"
proof -
  have "of_be32 [b0, b1, b2, b3] = push_bit 24 (ucast b0) OR push_bit 16 (ucast b1) OR push_bit 8 (ucast b2) OR push_bit 0 (ucast b3)"
    by (simp add: of_be32_def of_le32_def ac_simps)
  then show ?thesis using os2ip_be_bytes [of "of_be32 [b0, b1, b2, b3]"] be_word_bytes [of b0 b1 b2 b3] by (simp add: os2ip_def)
qed

lemma words_of_chunks: "length M = 4 * k \<Longrightarrow> map (\<lambda>j. uint (of_be32 (take 4 (drop (4 * j) M)))) [0..<k] = words_of M"
proof (induction k arbitrary: M)
  case (Suc k)
  have "length M = Suc (Suc (Suc (Suc (4 * k))))" using Suc.prems by simp
  then obtain b0 b1 b2 b3 M' where M: "M = b0 # b1 # b2 # b3 # M'" "length M' = 4 * k" unfolding length_Suc_conv by blast
  have u: "[0..<Suc k] = 0 # map Suc [0..<k]" by (simp add: upt_conv_Cons map_Suc_upt del: upt_Suc)
  have "drop (4 * Suc j) M = drop (4 * j) M'" for j by (simp add: M(1) numeral_eq_Suc)
  then show ?case using Suc.IH [OF M(2)] unfolding u by (simp add: uint_of_be32 comp_def) (simp add: M(1) uint_of_be32)
qed simp

lemma input_window: "length M = 64 \<Longrightarrow> map (\<lambda>j. uint (fips_W M (0 + j))) [0..<16] = words_of M"
proof -
  assume M: "length M = 64"
  have "map (\<lambda>j. uint (fips_W M (0 + j))) [0..<16] = map (\<lambda>j. uint (of_be32 (take 4 (drop (4 * j) M)))) [0..<16]"
    by (rule map_cong) (simp_all add: fips_W.simps)
  then show ?thesis using words_of_chunks [of M 16] M by simp
qed

definition stages :: "sha_stage list" where
  "stages = map stage_of [0..<80]"

lemma compress_eval:
  assumes "length M = 64" "words_of M = ws" "rounds_int stages ws h0 h1 h2 h3 h4 = [a, b, c, d, e]"
    and "\<forall>h \<in> {h0, h1, h2, h3, h4}. 0 \<le> h \<and> h < 2 ^ 32"
  shows "compress M (map word_of_int [h0, h1, h2, h3, h4]) =
    map word_of_int [(h0 + a) mod 2 ^ 32, (h1 + b) mod 2 ^ 32, (h2 + c) mod 2 ^ 32, (h3 + d) mod 2 ^ 32, (h4 + e) mod 2 ^ 32]"
proof -
  have u: "uint (word_of_int h :: u32) = h" if "h \<in> {h0, h1, h2, h3, h4}" for h
    using assms(4) [rule_format, OF that] by (simp add: uint_word_of_int)
  obtain a' b' c' d' e' where f: "fold (fips_round M) [0..<80] (word_of_int h0, word_of_int h1, word_of_int h2, word_of_int h3, word_of_int h4) =
    (a', b', c', d', e')" by (metis surj_pair)
  from rounds_int_run [OF _ f] have "[a, b, c, d, e] = [uint a', uint b', uint c', uint d', uint e']"
    using assms(2,3) unfolding input_window [OF assms(1)] stages_def [symmetric] by (simp add: u)
  moreover have "word_of_int (x mod 2 ^ 32) = (word_of_int x :: u32)" for x by (rule word_uint_eqI) (simp add: uint_word_of_int)
  ultimately show ?thesis by (simp add: compress_def f)
qed

lemmas run_rounds = rotl_int_def stage_int.simps

lemma stages_list: "stages = [Stage1, Stage1, Stage1, Stage1, Stage1, Stage1, Stage1, Stage1, Stage1, Stage1, Stage1, Stage1, Stage1, Stage1, Stage1, Stage1, Stage1, Stage1, Stage1, Stage1, Stage2, Stage2, Stage2, Stage2, Stage2, Stage2, Stage2, Stage2, Stage2, Stage2, Stage2, Stage2, Stage2, Stage2, Stage2, Stage2, Stage2, Stage2, Stage2, Stage2, Stage3, Stage3, Stage3, Stage3, Stage3, Stage3, Stage3, Stage3, Stage3, Stage3, Stage3, Stage3, Stage3, Stage3, Stage3, Stage3, Stage3, Stage3, Stage3, Stage3, Stage4, Stage4, Stage4, Stage4, Stage4, Stage4, Stage4, Stage4, Stage4, Stage4, Stage4, Stage4, Stage4, Stage4, Stage4, Stage4, Stage4, Stage4, Stage4, Stage4]"
  by code_simp

section \<open>The hash of the padding\<close>

definition pad_blocks :: "u8 list list" where
  "pad_blocks = [0x00 # 0x01 # replicate 62 0xff,
     replicate 64 0xff,
     replicate 64 0xff,
     replicate 28 0xff @ [0x00, 0x30, 0x21, 0x30, 0x09, 0x06, 0x05, 0x2b, 0x0e, 0x03, 0x02, 0x1a, 0x05, 0x00, 0x04, 0x14] @ replicate 20 0x00,
     0x80 # replicate 55 0x00 @ [0, 0, 0, 0, 0, 0, 8, 0]]"

lemma pad_block1: "compress (pad_blocks ! 0) (map word_of_int [0x67452301, 0xEFCDAB89, 0x98BADCFE, 0x10325476, 0xC3D2E1F0]) = map word_of_int [0x4003F2F0, 0x75C62E8B, 0x9044A738, 0xDAA81547, 0xE09843A8]"
proof -
  have w: "words_of (pad_blocks ! 0) = [0x1FFFF, 0xFFFFFFFF, 0xFFFFFFFF, 0xFFFFFFFF, 0xFFFFFFFF, 0xFFFFFFFF, 0xFFFFFFFF, 0xFFFFFFFF, 0xFFFFFFFF, 0xFFFFFFFF, 0xFFFFFFFF, 0xFFFFFFFF, 0xFFFFFFFF, 0xFFFFFFFF, 0xFFFFFFFF, 0xFFFFFFFF]" by code_simp
  have r: "rounds_int stages [0x1FFFF, 0xFFFFFFFF, 0xFFFFFFFF, 0xFFFFFFFF, 0xFFFFFFFF, 0xFFFFFFFF, 0xFFFFFFFF, 0xFFFFFFFF, 0xFFFFFFFF, 0xFFFFFFFF, 0xFFFFFFFF, 0xFFFFFFFF, 0xFFFFFFFF, 0xFFFFFFFF, 0xFFFFFFFF, 0xFFFFFFFF] 0x67452301 0xEFCDAB89 0x98BADCFE 0x10325476 0xC3D2E1F0 = [0xD8BECFEF, 0x85F88302, 0xF789CA3A, 0xCA75C0D1, 0x1CC561B8]"
    unfolding stages_list by (simp add: run_rounds)
  have "length (pad_blocks ! 0) = 64" by (simp add: pad_blocks_def)
  from compress_eval [OF this w r] show ?thesis by simp
qed

lemma pad_block2: "compress (pad_blocks ! 1) (map word_of_int [0x4003F2F0, 0x75C62E8B, 0x9044A738, 0xDAA81547, 0xE09843A8]) = map word_of_int [0x69B147D3, 0xF655E90, 0xBD4C7E23, 0x3100D38E, 0x2778430E]"
proof -
  have w: "words_of (pad_blocks ! 1) = [0xFFFFFFFF, 0xFFFFFFFF, 0xFFFFFFFF, 0xFFFFFFFF, 0xFFFFFFFF, 0xFFFFFFFF, 0xFFFFFFFF, 0xFFFFFFFF, 0xFFFFFFFF, 0xFFFFFFFF, 0xFFFFFFFF, 0xFFFFFFFF, 0xFFFFFFFF, 0xFFFFFFFF, 0xFFFFFFFF, 0xFFFFFFFF]" by code_simp
  have r: "rounds_int stages [0xFFFFFFFF, 0xFFFFFFFF, 0xFFFFFFFF, 0xFFFFFFFF, 0xFFFFFFFF, 0xFFFFFFFF, 0xFFFFFFFF, 0xFFFFFFFF, 0xFFFFFFFF, 0xFFFFFFFF, 0xFFFFFFFF, 0xFFFFFFFF, 0xFFFFFFFF, 0xFFFFFFFF, 0xFFFFFFFF, 0xFFFFFFFF] 0x4003F2F0 0x75C62E8B 0x9044A738 0xDAA81547 0xE09843A8 = [0x29AD54E3, 0x999F3005, 0x2D07D6EB, 0x5658BE47, 0x46DFFF66]"
    unfolding stages_list by (simp add: run_rounds)
  have "length (pad_blocks ! 1) = 64" by (simp add: pad_blocks_def)
  from compress_eval [OF this w r] show ?thesis by simp
qed

lemma pad_block3: "compress (pad_blocks ! 2) (map word_of_int [0x69B147D3, 0xF655E90, 0xBD4C7E23, 0x3100D38E, 0x2778430E]) = map word_of_int [0x7BF5BA85, 0xCD86FE7D, 0x3BC37161, 0xEEECE7E, 0x4F86BA5C]"
proof -
  have w: "words_of (pad_blocks ! 2) = [0xFFFFFFFF, 0xFFFFFFFF, 0xFFFFFFFF, 0xFFFFFFFF, 0xFFFFFFFF, 0xFFFFFFFF, 0xFFFFFFFF, 0xFFFFFFFF, 0xFFFFFFFF, 0xFFFFFFFF, 0xFFFFFFFF, 0xFFFFFFFF, 0xFFFFFFFF, 0xFFFFFFFF, 0xFFFFFFFF, 0xFFFFFFFF]" by code_simp
  have r: "rounds_int stages [0xFFFFFFFF, 0xFFFFFFFF, 0xFFFFFFFF, 0xFFFFFFFF, 0xFFFFFFFF, 0xFFFFFFFF, 0xFFFFFFFF, 0xFFFFFFFF, 0xFFFFFFFF, 0xFFFFFFFF, 0xFFFFFFFF, 0xFFFFFFFF, 0xFFFFFFFF, 0xFFFFFFFF, 0xFFFFFFFF, 0xFFFFFFFF] 0x69B147D3 0xF655E90 0xBD4C7E23 0x3100D38E 0x2778430E = [0x124472B2, 0xBE219FED, 0x7E76F33E, 0xDDEDFAF0, 0x280E774E]"
    unfolding stages_list by (simp add: run_rounds)
  have "length (pad_blocks ! 2) = 64" by (simp add: pad_blocks_def)
  from compress_eval [OF this w r] show ?thesis by simp
qed

lemma pad_block4: "compress (pad_blocks ! 3) (map word_of_int [0x7BF5BA85, 0xCD86FE7D, 0x3BC37161, 0xEEECE7E, 0x4F86BA5C]) = map word_of_int [0x1CF8F9A1, 0x46AD33C4, 0xD22449BA, 0xC6A1830, 0xA008D5E2]"
proof -
  have w: "words_of (pad_blocks ! 3) = [0xFFFFFFFF, 0xFFFFFFFF, 0xFFFFFFFF, 0xFFFFFFFF, 0xFFFFFFFF, 0xFFFFFFFF, 0xFFFFFFFF, 0x302130, 0x906052B, 0xE03021A, 0x5000414, 0x0, 0x0, 0x0, 0x0, 0x0]" by code_simp
  have r: "rounds_int stages [0xFFFFFFFF, 0xFFFFFFFF, 0xFFFFFFFF, 0xFFFFFFFF, 0xFFFFFFFF, 0xFFFFFFFF, 0xFFFFFFFF, 0x302130, 0x906052B, 0xE03021A, 0x5000414, 0x0, 0x0, 0x0, 0x0, 0x0] 0x7BF5BA85 0xCD86FE7D 0x3BC37161 0xEEECE7E 0x4F86BA5C = [0xA1033F1C, 0x79263547, 0x9660D859, 0xFD7B49B2, 0x50821B86]"
    unfolding stages_list by (simp add: run_rounds)
  have "length (pad_blocks ! 3) = 64" by (simp add: pad_blocks_def)
  from compress_eval [OF this w r] show ?thesis by simp
qed

lemma pad_block5: "compress (pad_blocks ! 4) (map word_of_int [0x1CF8F9A1, 0x46AD33C4, 0xD22449BA, 0xC6A1830, 0xA008D5E2]) = map word_of_int [0xDCBDBE42, 0xD5F5A72E, 0x6EFCF55D, 0xAF9DEA68, 0x7CFBF167]"
proof -
  have w: "words_of (pad_blocks ! 4) = [0x80000000, 0x0, 0x0, 0x0, 0x0, 0x0, 0x0, 0x0, 0x0, 0x0, 0x0, 0x0, 0x0, 0x0, 0x0, 0x800]" by code_simp
  have r: "rounds_int stages [0x80000000, 0x0, 0x0, 0x0, 0x0, 0x0, 0x0, 0x0, 0x0, 0x0, 0x0, 0x0, 0x0, 0x0, 0x0, 0x800] 0x1CF8F9A1 0x46AD33C4 0xD22449BA 0xC6A1830 0xA008D5E2 = [0xBFC4C4A1, 0x8F48736A, 0x9CD8ABA3, 0xA333D238, 0xDCF31B85]"
    unfolding stages_list by (simp add: run_rounds)
  have "length (pad_blocks ! 4) = 64" by (simp add: pad_blocks_def)
  from compress_eval [OF this w r] show ?thesis by simp
qed

lemma sha1_padding: "sha1 (padding @ replicate 20 0) = kExpectedPadShaRsa2048"
proof -
  have blocks: "sha1_pad (padding @ replicate 20 0) = concat pad_blocks" by code_simp
  have iv: "sha1_iv = map word_of_int [0x67452301, 0xEFCDAB89, 0x98BADCFE, 0x10325476, 0xC3D2E1F0]" by (simp add: sha1_iv_def)
  have b: "pad_blocks = [pad_blocks ! 0, pad_blocks ! 1, pad_blocks ! 2, pad_blocks ! 3, pad_blocks ! 4]"
    by (simp add: pad_blocks_def)
  have l: "length (pad_blocks ! 0) = 64" "length (pad_blocks ! 1) = 64" "length (pad_blocks ! 2) = 64" "length (pad_blocks ! 3) = 64"
    "length (pad_blocks ! 4) = 64" by (simp_all add: pad_blocks_def)
  have next_block: "hash_blocks (B @ rest) H = hash_blocks rest (compress B H)" if "length B = 64" for B rest H
    using hash_blocks_append [of B rest H] hash_blocks_one [of B H] that by simp
  have "hash_blocks (concat pad_blocks) sha1_iv = map word_of_int [0xDCBDBE42, 0xD5F5A72E, 0x6EFCF55D, 0xAF9DEA68, 0x7CFBF167]"
    unfolding iv by (subst b) (simp only: concat.simps append_Nil2 next_block l pad_block1 pad_block2 pad_block3 pad_block4 hash_blocks_one pad_block5)
  then show ?thesis unfolding sha1_def blocks by (simp add: be32_def le32_def kExpectedPadShaRsa2048_def)
qed

section \<open>Accepted signatures\<close>

lemma compare_loop_run:
  "base \<le> i \<Longrightarrow> i \<le> j \<Longrightarrow> j \<le> length buf \<Longrightarrow> j - base \<le> length other \<Longrightarrow>
   compare_loop buf [i..<j] base other = Ret (take (j - i) (drop i buf) = take (j - i) (drop (i - base) other))"
proof (induction "j - i" arbitrary: i)
  case (Suc m)
  have i: "i < j" "[i..<j] = i # [Suc i..<j]" using Suc.hyps(2) by (simp_all add: upt_conv_Cons)
  have d: "drop i buf = buf ! i # drop (Suc i) buf" using i Suc.prems by (simp add: Cons_nth_drop_Suc)
  have e: "drop (i - base) other = other ! (i - base) # drop (Suc i - base) other"
    using i Suc.prems by (simp add: Cons_nth_drop_Suc Suc_diff_le)
  have n: "j - i = Suc (j - Suc i)" using i by simp
  show ?case using Suc.hyps(1) [of "Suc i"] Suc.hyps(2) Suc.prems i unfolding d e n by (simp add: mem_simps)
qed simp

text \<open>The decrypted block with the expected digest xored into its tail.\<close>

definition xor_tail :: "u8 list \<Rightarrow> u8 list \<Rightarrow> u8 list" where
  "xor_tail buf sha = take (length buf - 20) buf @ map2 (XOR) (drop (length buf - 20) buf) (take 20 sha)"

lemma xor_loop_run:
  "base \<le> i \<Longrightarrow> i \<le> j \<Longrightarrow> j = length buf \<Longrightarrow> j - base \<le> length sha \<Longrightarrow>
   xor_loop sha [i..<j] base buf = Ret (take i buf @ map2 (XOR) (drop i buf) (take (j - i) (drop (i - base) sha)))"
proof (induction "j - i" arbitrary: i buf)
  case (Suc m)
  have i: "i < j" "[i..<j] = i # [Suc i..<j]" using Suc.hyps(2) by (simp_all add: upt_conv_Cons)
  let ?x = "buf ! i XOR sha ! (i - base)"
  have d: "drop i buf = buf ! i # drop (Suc i) buf" using i Suc.prems by (simp add: Cons_nth_drop_Suc)
  have e: "drop (i - base) sha = sha ! (i - base) # drop (Suc i - base) sha"
    using i Suc.prems by (simp add: Cons_nth_drop_Suc Suc_diff_le)
  have n: "j - i = Suc (j - Suc i)" using i by simp
  have "take (Suc i) (buf[i := ?x]) = take i buf @ [?x]" using i Suc.prems(3) by (simp add: take_Suc_conv_app_nth)
  moreover have "drop (Suc i) (buf[i := ?x]) = drop (Suc i) buf" by simp
  ultimately show ?case using Suc.hyps(1) [of "Suc i" "buf[i := ?x]"] Suc.hyps(2) Suc.prems i unfolding d e n by (simp add: mem_simps)
qed simp

lemma length_i2osp [simp]: "length (i2osp k n) = k"
  by (induction k arbitrary: n) simp_all

lemma length_padding: "length padding = 236"
  by (simp add: padding_def)

definition decrypted :: "RSAPublicKey \<Rightarrow> u8 list \<Rightarrow> nat \<Rightarrow> u8 list" where
  "decrypted key signature e = i2osp 256 (os2ip (take 256 signature) ^ e mod modulus key)"

lemma verify3_run:
  assumes "key_ok 64 key" "key_exponent key = 3" "256 \<le> length signature" "20 \<le> length sha"
    and "length a = 64" "length aR = 64" "length aaR = 64"
  shows "RSA_e_3_verify (a, aR, aaR) key signature 256 sha = Ret (if decrypted key signature 3 = padding @ take 20 sha then 1 else 0)"
proof -
  define buf where "buf = decrypted key signature 3"
  have kl: "key_len key = 64" using assms(1) by (simp add: key_ok_def key_size_def)
  have m: "modpow3 (a, aR, aaR) key (take 256 signature) = Ret buf"
    using modpow3_run [OF assms(1), of "take 256 signature" a aR aaR] assms(3,5-7) by (simp add: buf_def decrypted_def)
  have l: "length buf = 256" by (simp add: buf_def decrypted_def)
  have c1: "compare_loop buf [0..<236] 0 padding = Ret (take 236 buf = padding)"
    using compare_loop_run [of 0 0 236 buf padding] l length_padding by (simp del: upt_rec_numeral)
  have c2: "compare_loop buf [236..<256] 236 sha = Ret (drop 236 buf = take 20 sha)"
    using compare_loop_run [of 236 236 256 buf sha] l assms(4) by (simp del: upt_rec_numeral)
  have "buf = padding @ take 20 sha \<longleftrightarrow> take 236 buf = padding \<and> drop 236 buf = take 20 sha"
    using append_take_drop_id [of 236 buf] length_padding by (metis append_eq_conv_conj)
  then show ?thesis
    using kl m c1 c2 assms(2,3) unfolding buf_def [symmetric]
    by (simp add: RSA_e_3_verify_def RSANUMWORDS_def RSANUMBYTES_def length_padding mem_simps del: upt_rec_numeral)
qed

lemma verifyF4_run:
  assumes "key_ok 64 key" "key_exponent key = 65537" "256 \<le> length signature" "20 \<le> length sha"
    and "length a = 64" "length aR = 64" "length aaR = 64"
    and hash: "\<And>data. length data = 256 \<Longrightarrow> hash data 256 data = Ret (sha1 data @ drop 20 data)"
  shows "RSA_e_f4_verify hash (a, aR, aaR) key signature 256 sha =
    Ret (if sha1 (xor_tail (decrypted key signature 65537) sha) = kExpectedPadShaRsa2048 then 1 else 0)"
proof -
  define buf where "buf = decrypted key signature 65537"
  have kl: "key_len key = 64" using assms(1) by (simp add: key_ok_def key_size_def)
  have m: "modpowF4 (a, aR, aaR) key (take 256 signature) = Ret buf"
    using modpowF4_run [OF assms(1), of "take 256 signature" a aR aaR] assms(3,5-7) by (simp add: buf_def decrypted_def)
  have l: "length buf = 256" by (simp add: buf_def decrypted_def)
  have x: "xor_loop sha [236..<256] 236 buf = Ret (xor_tail buf sha)"
  proof -
    have "xor_loop sha [236..<256] 236 buf = Ret (take 236 buf @ map2 (XOR) (drop 236 buf) (take (256 - 236) (drop (236 - 236) sha)))"
      by (rule xor_loop_run) (use l assms(4) in simp_all)
    moreover have "(256 :: nat) - 236 = 20" "(236 :: nat) - 236 = 0" "(256 :: nat) - 20 = 236" by simp_all
    ultimately show ?thesis unfolding xor_tail_def l by (simp only: drop_0)
  qed
  have lx: "length (xor_tail buf sha) = 256" using l assms(4) by (simp add: xor_tail_def)
  let ?d = "sha1 (xor_tail buf sha) @ drop 20 (xor_tail buf sha)"
  have "compare_loop ?d [0..<20] 0 kExpectedPadShaRsa2048 = Ret (sha1 (xor_tail buf sha) = kExpectedPadShaRsa2048)"
    using compare_loop_run [of 0 0 20 ?d kExpectedPadShaRsa2048] length_sha1 [of "xor_tail buf sha"]
    by (simp add: kExpectedPadShaRsa2048_def del: upt_rec_numeral)
  then show ?thesis
    using kl m x hash [OF lx] assms(2,3) unfolding buf_def [symmetric]
    by (simp add: RSA_e_f4_verify_def RSANUMWORDS_def RSANUMBYTES_def SHA_DIGEST_SIZE_def mem_simps del: upt_rec_numeral)
qed

lemma xor_valid:
  assumes "20 \<le> length sha"
  shows "xor_tail (padding @ take 20 sha) sha = padding @ replicate 20 0"
proof -
  have "map2 (XOR) xs xs = replicate (length xs) (0 :: u8)" for xs by (induction xs) simp_all
  from this [of "take 20 sha"] show ?thesis using assms by (simp add: xor_tail_def length_padding)
qed

text \<open>
  C7. What \<open>RSA_verify\<close> accepts, for a well-formed 2048-bit key, a signature buffer of at least 256 bytes
  and a digest of at least 20, with either version of \<open>SHA\<close>: it returns 1 exactly when the length argument is
  256 and either the exponent is 3 and the signature to the third power is the PKCS #1 padding followed by the
  digest, or the exponent is 65537 and the 65537th power, with the digest xored into its tail, has the SHA-1
  hash of the padding followed by zeros. In particular the stored constant is that hash, and with either exponent a
  signature that decrypts to the padding and the digest is accepted. It never faults.\<close>

theorem RSA_verify_correct:
  assumes "key_ok 64 key" and "256 \<le> length signature" and "20 \<le> length sha"
    and "length a = 64" and "length aR = 64" and "length aaR = 64"
    and "length stk = 80" and "length (ctx_buf ctx) = 64" and "hash = SHA stk ctx \<or> hash = SHA_le stk ctx"
  shows "RSA_verify hash (a, aR, aaR) key signature len sha = Ret (if len = 256 \<and>
      (key_exponent key = 3 \<and> decrypted key signature 3 = padding @ take 20 sha \<or>
       key_exponent key = 65537 \<and> sha1 (xor_tail (decrypted key signature 65537) sha) = sha1 (padding @ replicate 20 0))
      then 1 else 0) \<and>
    (key_exponent key \<in> {3, 65537} \<and> decrypted key signature (nat (key_exponent key)) = padding @ take 20 sha \<longrightarrow>
      RSA_verify hash (a, aR, aaR) key signature 256 sha = Ret 1)"
proof -
  have h: "hash data 256 data = Ret (sha1 data @ drop 20 data)" if "length data = 256" for data
    using SHA_run [OF assms(7,8), of data data] assms(9) that by auto
  have kl: "key_len key = 64" using assms(1) by (simp add: key_ok_def key_size_def)
  note v3 = verify3_run [OF assms(1) _ assms(2-6)] and v4 = verifyF4_run [where hash = hash, OF assms(1) _ assms(2-6) h, unfolded sha1_padding [symmetric]]
  have "RSA_verify hash (a, aR, aaR) key signature l sha = Ret 0" if "l \<noteq> 256" for l
    using that kl by (simp add: RSA_verify_def RSA_e_3_verify_def RSA_e_f4_verify_def RSANUMWORDS_def RSANUMBYTES_def)
  then have main: "RSA_verify hash (a, aR, aaR) key signature l sha = Ret (if l = 256 \<and>
      (key_exponent key = 3 \<and> decrypted key signature 3 = padding @ take 20 sha \<or>
       key_exponent key = 65537 \<and> sha1 (xor_tail (decrypted key signature 65537) sha) = sha1 (padding @ replicate 20 0))
      then 1 else 0)" for l
    using v3 v4 by (cases "l = 256") (auto simp: RSA_verify_def)
  have x: "sha1 (xor_tail d sha) = sha1 (padding @ replicate 20 0)" if "d = padding @ take 20 sha" for d
    unfolding that xor_valid [OF assms(3)] by (rule refl)
  show ?thesis
  proof (rule conjI [OF main], intro impI, elim conjE)
    assume e: "key_exponent key \<in> {3, 65537}" and d: "decrypted key signature (nat (key_exponent key)) = padding @ take 20 sha"
    from e consider "key_exponent key = 3" | "key_exponent key = 65537" by auto
    then show "RSA_verify hash (a, aR, aaR) key signature 256 sha = Ret 1"
    proof cases
      case 1
      then have "decrypted key signature 3 = padding @ take 20 sha" using d by simp
      then show ?thesis unfolding main using 1 by simp
    next
      case 2
      then have "decrypted key signature 65537 = padding @ take 20 sha" using d by simp
      from x [OF this] show ?thesis unfolding main using 2 by simp
    qed
  qed
qed

theorem RSA_verify_correct_witness:
  "RSA_verify (SHA (replicate 80 0) demo_ctx) (replicate 64 0, replicate 64 0, replicate 64 0) (demo_key 64 3)
     (replicate 256 0) 256 (replicate 20 0) = Ret 0"
proof -
  have z: "os2ip (replicate n 0) = 0" for n by (induction n) (simp_all add: os2ip_def)
  have "i2osp n 0 = replicate n 0" for n by (induction n) (simp_all flip: replicate_append_same)
  then have "decrypted (demo_key 64 3) (replicate 256 0) 3 = replicate 256 0" by (simp add: decrypted_def z)
  moreover have "replicate 256 (0 :: u8) \<noteq> padding @ take 20 (replicate 20 0)"
  proof
    assume "replicate 256 (0 :: u8) = padding @ take 20 (replicate 20 0)"
    then have "replicate 256 (0 :: u8) ! 1 = (padding @ take 20 (replicate 20 0)) ! 1" by (simp only:)
    then show False by (simp add: padding_def)
  qed
  ultimately show ?thesis
    using RSA_verify_correct [of "demo_key 64 3" "replicate 256 0" "replicate 20 0" "replicate 64 0" "replicate 64 0" "replicate 64 0"
        "replicate 80 0" demo_ctx "SHA (replicate 80 0) demo_ctx" 256] demo_key_ok [of 64 3]
    by (simp add: demo_ctx_def demo_key_def)
qed

end
