(* ===== verification/Init_Tokens.thy ===== *)
theory Init_Tokens
  imports C_Memory
begin

text \<open>
  The tokenizer of the configuration language of init (\<open>core/init/parser.c\<close>). The source
  unescapes each word in place: it reads through one pointer and writes the word through
  another one that never overtakes it. The model works on the same buffer with the same two
  indices; \<open>lex_text\<close> and \<open>lex_tokens\<close> are the language it accepts, as functions of the
  unread text, and \<open>next_token_lex\<close> relates the two.
\<close>

section \<open>The tokenizer\<close>

abbreviation NUL :: char where "NUL \<equiv> CHR 0x00"
abbreviation LF :: char where "LF \<equiv> CHR 0x0A"
abbreviation CR :: char where "CR \<equiv> CHR 0x0D"
abbreviation TAB :: char where "TAB \<equiv> CHR 0x09"
abbreviation DQUOTE :: char where "DQUOTE \<equiv> CHR 0x22"
abbreviation BACKSLASH :: char where "BACKSLASH \<equiv> CHR 0x5C"

datatype token = T_EOF | T_TEXT | T_NEWLINE

text \<open>
  The parser state up to the fields of the section parsers. \<open>data\<close> is the buffer that
  \<open>ptr\<close> and \<open>tok_text\<close> (the field \<open>text\<close>) point into.
\<close>

record parse_state =
  data :: string
  ptr :: nat
  tok_text :: nat
  line :: nat
  nexttoken :: token

text \<open>The loop that skips blanks and comments, up to the first character of a word.\<close>

function skip_comment :: "string \<Rightarrow> nat \<Rightarrow> nat exec" where
  "skip_comment buf x = do {
     c \<leftarrow> load buf x;
     if c \<noteq> NUL \<and> c \<noteq> LF then skip_comment buf (x + 1) else Ret x
   }"
  by auto

termination by (relation "measure (\<lambda>(buf, x). length buf - x)") (auto simp: load_def split: if_splits)

function skip_blank :: "string \<Rightarrow> nat \<Rightarrow> (token ptr \<times> nat) exec" where
  "skip_blank buf x = do {
     c \<leftarrow> load buf x;
     if c = NUL then Ret (Some T_EOF, x)
     else if c = LF then Ret (Some T_NEWLINE, x + 1)
     else if c = CHR '' '' \<or> c = TAB \<or> c = CR then skip_blank buf (x + 1)
     else if c = CHR ''#'' then do {
       x \<leftarrow> skip_comment buf x;
       c \<leftarrow> load buf x;
       if c = LF then Ret (Some T_NEWLINE, x + 1) else Ret (Some T_EOF, x)
     }
     else Ret (NULL, x)
   }"
  by auto

termination by (relation "measure (\<lambda>(buf, x). length buf - x)") (auto simp: load_def split: if_splits)

function eat_blank :: "string \<Rightarrow> nat \<Rightarrow> nat exec" where
  "eat_blank buf x = do {
     c \<leftarrow> load buf x;
     if c = CHR '' '' \<or> c = TAB then eat_blank buf (x + 1) else Ret x
   }"
  by auto

termination by (relation "measure (\<lambda>(buf, x). length buf - x)") (auto simp: load_def split: if_splits)

declare skip_comment.simps [simp del] skip_blank.simps [simp del] eat_blank.simps [simp del]

lemma eat_blank_ge: "eat_blank buf x = Ret y \<Longrightarrow> x \<le> y"
proof (induction buf x rule: eat_blank.induct)
  case (1 buf x)
  then show ?case by (subst (asm) (2) eat_blank.simps) (auto simp: bind_eq_Some_conv split: if_splits)
qed

text \<open>
  The loop \<open>textresume\<close>, which copies a word from \<open>x\<close> to \<open>s\<close>; \<open>quoted\<close> tells the loop
  inside quotes from the one outside.
\<close>

datatype text_end = Text_done | Text_newline | Unterminated

function text_loop :: "bool \<Rightarrow> nat \<Rightarrow> nat \<Rightarrow> nat \<Rightarrow> string \<Rightarrow> (text_end \<times> nat \<times> nat \<times> nat \<times> string) exec" where
  "text_loop quoted ln x s buf = do {
     c \<leftarrow> load buf x;
     if quoted then
       if c = NUL then Ret (Unterminated, ln, x, s, buf)
       else if c = DQUOTE then text_loop False ln (x + 1) s buf
       else do {
         buf \<leftarrow> store buf s c;
         text_loop True ln (x + 1) (s + 1) buf
       }
     else if c = NUL then Ret (Text_done, ln, x, s, buf)
     else if c = CHR '' '' \<or> c = TAB \<or> c = CR then Ret (Text_done, ln, x + 1, s, buf)
     else if c = LF then Ret (Text_newline, ln, x + 1, s, buf)
     else if c = DQUOTE then text_loop True ln (x + 1) s buf
     else if c = BACKSLASH then do {
       e \<leftarrow> load buf (x + 1);
       if e = NUL then Ret (Text_done, ln, x + 1, s, buf)
       else if e = CHR ''n'' then do {
         buf \<leftarrow> store buf s LF;
         text_loop False ln (x + 1) (s + 1) buf
       }
       else if e = CHR ''r'' then do {
         buf \<leftarrow> store buf s CR;
         text_loop False ln (x + 1) (s + 1) buf
       }
       else if e = CHR ''t'' then do {
         buf \<leftarrow> store buf s TAB;
         text_loop False ln (x + 1) (s + 1) buf
       }
       else if e = BACKSLASH then do {
         buf \<leftarrow> store buf s BACKSLASH;
         text_loop False ln (x + 1) (s + 1) buf
       }
       else if e = CR then do {
         e' \<leftarrow> load buf (x + 2);
         if e' \<noteq> LF then text_loop False ln (x + 2) s buf
         else do {
           y \<leftarrow> eat_blank buf (x + 2);
           text_loop False (ln + 1) y s buf
         }
       }
       else if e = LF then do {
         y \<leftarrow> eat_blank buf (x + 2);
         text_loop False (ln + 1) y s buf
       }
       else do {
         buf \<leftarrow> store buf s e;
         text_loop False ln (x + 2) (s + 1) buf
       }
     }
     else do {
       buf \<leftarrow> store buf s c;
       text_loop False ln (x + 1) (s + 1) buf
     }
   }"
  by auto

termination
proof (relation "measure (\<lambda>(_, _, x, _, buf). length buf - x)", goal_cases)
  case 1
  show ?case by simp
qed (auto simp: load_def store_def split: if_splits dest!: eat_blank_ge)

declare text_loop.simps [simp del]

definition next_token :: "'a parse_state_scheme \<Rightarrow> (token \<times> 'a parse_state_scheme) exec" where
  "next_token state =
     (if nexttoken state \<noteq> T_EOF then Ret (nexttoken state, state\<lparr>nexttoken := T_EOF\<rparr>)
      else do {
        (t, x) \<leftarrow> skip_blank (data state) (ptr state);
        case t of
          Some t \<Rightarrow> Ret (t, state\<lparr>ptr := x\<rparr>)
        | None \<Rightarrow> do {
            (e, ln, y, s, buf) \<leftarrow> text_loop False (line state) x x (data state);
            case e of
              Unterminated \<Rightarrow> Ret (T_EOF, state\<lparr>data := buf, tok_text := x, line := ln, ptr := y\<rparr>)
            | _ \<Rightarrow> do {
                buf \<leftarrow> store buf s NUL;
                Ret (T_TEXT, state\<lparr>data := buf, tok_text := x, line := ln, ptr := y,
                       nexttoken := (if e = Text_newline then T_NEWLINE else T_EOF)\<rparr>)
              }
          }
      })"

section \<open>The language of words\<close>

abbreviation blank :: "char \<Rightarrow> bool" where
  "blank c \<equiv> c = CHR '' '' \<or> c = TAB"

text \<open>
  The word at the start of a text that the tokenizer reads: its characters, how it ends, the
  line continuations in it and the text behind it.
\<close>

type_synonym lexed = "string \<times> text_end \<times> nat \<times> string"

definition emit :: "char \<Rightarrow> lexed \<Rightarrow> lexed" where
  "emit c = (\<lambda>(w, r). (c # w, r))"

definition continued :: "lexed \<Rightarrow> lexed" where
  "continued = (\<lambda>(w, e, n, r). (w, e, Suc n, r))"

lemma emit_simp [simp]: "emit c (w, r) = (c # w, r)"
  by (simp add: emit_def)

lemma continued_simp [simp]: "continued (w, e, n, r) = (w, e, Suc n, r)"
  by (simp add: continued_def)

text \<open>The characters that a backslash leaves in place and what is written before them.\<close>

definition escape :: "char \<Rightarrow> char ptr" where
  "escape e = (if e = CHR ''n'' then Some LF else if e = CHR ''r'' then Some CR
     else if e = CHR ''t'' then Some TAB else if e = BACKSLASH then Some BACKSLASH else NULL)"

abbreviation word_end :: "char \<Rightarrow> bool" where
  "word_end c \<equiv> c = CHR '' '' \<or> c = TAB \<or> c = CR"

function lex_text :: "bool \<Rightarrow> string \<Rightarrow> lexed" where
  "lex_text True [] = ([], Unterminated, 0, [])"
| "lex_text True (c # cs) =
     (if c = DQUOTE then lex_text False cs else emit c (lex_text True cs))"
| "lex_text False [] = ([], Text_done, 0, [])"
| "lex_text False (c # cs) =
     (if word_end c then ([], Text_done, 0, cs)
      else if c = LF then ([], Text_newline, 0, cs)
      else if c = DQUOTE then lex_text True cs
      else if c = BACKSLASH then
        (case cs of
           [] \<Rightarrow> ([], Text_done, 0, [])
         | e # es \<Rightarrow>
             case escape e of
               Some v \<Rightarrow> emit v (lex_text False cs)
             | None \<Rightarrow>
                 if e = CR then
                   if take 1 es = [LF] then continued (lex_text False es) else lex_text False es
                 else if e = LF then continued (lex_text False (dropWhile blank es))
                 else emit e (lex_text False es))
      else emit c (lex_text False cs))"
  by pat_completeness auto

termination
  by (relation "measure (\<lambda>(_, cs). length cs)") (auto intro: le_less_trans [OF length_dropWhile_le])

declare lex_text.simps(2,4) [simp del]

text \<open>The same as a relation, one rule per case.\<close>

inductive lexes :: "bool \<Rightarrow> string \<Rightarrow> lexed \<Rightarrow> bool" where
  unterminated: "lexes True [] ([], Unterminated, 0, [])"
| close_quote: "lexes False cs l \<Longrightarrow> lexes True (DQUOTE # cs) l"
| quoted: "c \<noteq> DQUOTE \<Longrightarrow> lexes True cs l \<Longrightarrow> lexes True (c # cs) (emit c l)"
| text_eof: "lexes False [] ([], Text_done, 0, [])"
| text_blank: "word_end c \<Longrightarrow> lexes False (c # cs) ([], Text_done, 0, cs)"
| text_lf: "lexes False (LF # cs) ([], Text_newline, 0, cs)"
| open_quote: "lexes True cs l \<Longrightarrow> lexes False (DQUOTE # cs) l"
| escape_eof: "lexes False [BACKSLASH] ([], Text_done, 0, [])"
| escape_char: "escape e = Some v \<Longrightarrow> lexes False (e # es) l \<Longrightarrow> lexes False (BACKSLASH # e # es) (emit v l)"
| escape_crlf: "lexes False (LF # es) l \<Longrightarrow> lexes False (BACKSLASH # CR # LF # es) (continued l)"
| escape_cr: "take 1 es \<noteq> [LF] \<Longrightarrow> lexes False es l \<Longrightarrow> lexes False (BACKSLASH # CR # es) l"
| escape_lf: "lexes False (dropWhile blank es) l \<Longrightarrow> lexes False (BACKSLASH # LF # es) (continued l)"
| escape_other: "escape e = NULL \<Longrightarrow> e \<noteq> CR \<Longrightarrow> e \<noteq> LF \<Longrightarrow> lexes False es l \<Longrightarrow>
     lexes False (BACKSLASH # e # es) (emit e l)"
| text_char: "\<not> word_end c \<Longrightarrow> c \<noteq> LF \<Longrightarrow> c \<noteq> DQUOTE \<Longrightarrow> c \<noteq> BACKSLASH \<Longrightarrow> lexes False cs l \<Longrightarrow>
     lexes False (c # cs) (emit c l)"

lemma lexes_lex_text: "lexes q cs l \<Longrightarrow> lex_text q cs = l"
  by (induction rule: lexes.induct) (auto simp: lex_text.simps(2,4) escape_def)

lemma lex_text_backslash:
  "escape e = Some v \<Longrightarrow> lex_text False (BACKSLASH # e # es) = emit v (lex_text False (e # es))"
  "lex_text False (BACKSLASH # CR # LF # es) = continued (lex_text False (LF # es))"
  "take 1 es \<noteq> [LF] \<Longrightarrow> lex_text False (BACKSLASH # CR # es) = lex_text False es"
  "lex_text False (BACKSLASH # LF # es) = continued (lex_text False (dropWhile blank es))"
  "escape e = NULL \<Longrightarrow> e \<noteq> CR \<Longrightarrow> e \<noteq> LF \<Longrightarrow> lex_text False (BACKSLASH # e # es) = emit e (lex_text False es)"
  by (subst lex_text.simps(4), simp add: escape_def)+

lemma lex_text_lexes: "lexes q cs (lex_text q cs)"
proof (induction cs arbitrary: q rule: length_induct)
  case (1 cs)
  then have IH: "lexes q' ds (lex_text q' ds)" if "length ds < length cs" for q' ds using that by blast
  show ?case
  proof (cases cs)
    case Nil
    then show ?thesis by (cases q) (auto intro: lexes.intros)
  next
    case c: (Cons c ds)
    with IH [of ds] have d: "lexes q' ds (lex_text q' ds)" for q' by simp
    show ?thesis
    proof (cases q)
      case True
      with c d show ?thesis by (auto simp: lex_text.simps(2) intro: lexes.intros)
    next
      case q: False
      show ?thesis
      proof (cases "c = BACKSLASH")
        case False
        with c d q show ?thesis by (auto simp: lex_text.simps(4) intro: lexes.intros)
      next
        case b: True
        show ?thesis
        proof (cases ds)
          case Nil
          with c b q show ?thesis by (auto simp: lex_text.simps(4) intro: lexes.intros)
        next
          case e: (Cons e es)
          with c IH [of es] IH [of "dropWhile blank es"] length_dropWhile_le [of blank es]
          have es: "lexes False es (lex_text False es)" "lexes False (dropWhile blank es) (lex_text False (dropWhile blank es))" by auto
          consider v where "escape e = Some v" | es' where "e = CR" "es = LF # es'" | "e = CR" "take 1 es \<noteq> [LF]" | "e = LF"
            | "escape e = NULL" "e \<noteq> CR" "e \<noteq> LF" by (cases es; cases "escape e"; fastforce)
          then show ?thesis
            using c b q e es d [of False] by cases (simp_all add: lex_text_backslash lexes.intros)
        qed
      qed
    qed
  qed
qed

lemma lexes_lengths: "lexes q cs l \<Longrightarrow> case l of (w, e, n, r) \<Rightarrow> length w + length r \<le> length cs \<and> (cs \<noteq> [] \<longrightarrow> length r < length cs)"
proof (induction rule: lexes.induct)
  case (escape_lf es l)
  then show ?case using length_dropWhile_le [of blank es] by (cases "dropWhile blank es") (auto split: prod.splits)
qed (auto split: prod.splits)

section \<open>The tokenizer reads that language in place\<close>

text \<open>Reading at an index and writing at or below it, in terms of the unread suffix.\<close>

lemma drop_Cons_load:
  assumes "drop x buf = c # cs"
  shows "load buf x = Ret c" "drop (Suc x) buf = cs" "x < length buf"
proof -
  show l: "x < length buf" using assms by (metis drop_all list.distinct(1) not_le)
  with assms show "load buf x = Ret c" "drop (Suc x) buf = cs" by (metis load_ok Cons_nth_drop_Suc list.inject)+
qed

lemma emit_store:
  assumes "s \<le> x" "drop x buf = c # cs"
  shows "store buf s d = Ret (buf[s := d])" "drop (Suc x) (buf[s := d]) = cs"
    "take (Suc s) (buf[s := d]) @ w @ drop (Suc s + length w) (buf[s := d]) = take s buf @ (d # w) @ drop (s + length (d # w)) buf"
proof -
  have l: "s < length buf" using assms drop_Cons_load(3) by (metis le_less_trans)
  then show "store buf s d = Ret (buf[s := d])" by (rule store_ok)
  show "drop (Suc x) (buf[s := d]) = cs" using assms drop_Cons_load(2) by (metis drop_update_cancel le_imp_less_Suc)
  have "take (Suc s) (buf[s := d]) = take s buf @ [d]" using l by (simp add: take_Suc_conv_app_nth)
  then show "take (Suc s) (buf[s := d]) @ w @ drop (Suc s + length w) (buf[s := d]) = take s buf @ (d # w) @ drop (s + length (d # w)) buf"
    by simp
qed

lemma eat_blank_dropWhile:
  "drop x buf = es @ NUL # r \<Longrightarrow> eat_blank buf x = Ret (x + (length es - length (dropWhile blank es)))"
proof (induction es arbitrary: x)
  case Nil
  then have "load buf x = Ret NUL" by (simp add: drop_Cons_load)
  then show ?case by (subst eat_blank.simps) simp
next
  case (Cons e es)
  then have "load buf x = Ret e" "drop (Suc x) buf = es @ NUL # r" using drop_Cons_load [of x buf e "es @ NUL # r"] by auto
  with Cons.IH [of "Suc x"] show ?case
    using length_dropWhile_le [of blank es] by (subst eat_blank.simps) (auto simp: Suc_diff_le)
qed

lemma drop_length_dropWhile: "drop (length es - length (dropWhile P es)) (es @ r) = dropWhile P es @ r"
proof (induction es)
  case (Cons e es)
  then show ?case using length_dropWhile_le [of P es] by (simp add: Suc_diff_le)
qed simp

text \<open>What the loop returns for a word \<open>l\<close> read at \<open>x\<close> and written to \<open>s\<close>.\<close>

definition text_result :: "string \<Rightarrow> lexed \<Rightarrow> nat \<Rightarrow> nat \<Rightarrow> nat \<Rightarrow> string \<Rightarrow> text_end \<times> nat \<times> nat \<times> nat \<times> string" where
  "text_result cs l ln x s buf = (case l of (w, e, n, r) \<Rightarrow>
     (e, ln + n, x + (length cs - length r), s + length w, take s buf @ w @ drop (s + length w) buf))"

lemma text_result_emit:
  assumes "s \<le> x" "drop x buf = c # ds" "length (snd (snd (snd l))) \<le> length cs"
  shows "text_result (c # cs) (emit d l) ln x s buf = text_result cs l ln (Suc x) (Suc s) (buf[s := d])"
  using assms emit_store(3) [OF assms(1,2), of d]
  by (cases l) (auto simp: text_result_def Suc_diff_le)

lemma lexes_rest: "lexes q cs l \<Longrightarrow> length (snd (snd (snd l))) \<le> length cs"
  using lexes_lengths [of q cs l] by (cases l) auto

lemma lexes_text_rest:
  "lexes q cs l \<Longrightarrow> case l of (w, e, n, r) \<Rightarrow> (\<exists>p. cs = p @ r) \<and> set w \<subseteq> set cs \<union> {LF, CR, TAB, BACKSLASH} \<and>
     (e \<noteq> Unterminated \<and> r \<noteq> [] \<longrightarrow> length w + length r < length cs)"
proof (induction rule: lexes.induct)
  case (escape_lf es l)
  obtain p where "es = p @ dropWhile blank es" by (metis takeWhile_dropWhile_id)
  then have "set (dropWhile blank es) \<subseteq> set es" "\<And>p' r. dropWhile blank es = p' @ r \<Longrightarrow> BACKSLASH # LF # es = (BACKSLASH # LF # p @ p') @ r"
    by (auto dest: set_dropWhileD)
  with escape_lf length_dropWhile_le [of blank es] show ?case by (fastforce split: prod.splits)
next
  case (escape_char e v es l)
  then have "v \<in> {LF, CR, TAB, BACKSLASH}" by (auto simp: escape_def split: if_splits)
  with escape_char show ?case by (fastforce split: prod.splits intro: Cons_eq_appendI)
qed (fastforce split: prod.splits intro: Cons_eq_appendI)+

lemma text_result_skip:
  "length (snd (snd (snd l))) \<le> length cs \<Longrightarrow> text_result (c # cs) l ln x s buf = text_result cs l ln (Suc x) s buf"
  by (cases l) (auto simp: text_result_def Suc_diff_le)

lemma text_result_continued:
  "text_result cs (continued l) ln x s buf = text_result cs l (Suc ln) x s buf"
  by (cases l) (auto simp: text_result_def)

lemma text_result_drop:
  "length ds \<le> length cs \<Longrightarrow> length (snd (snd (snd l))) \<le> length ds \<Longrightarrow>
     text_result cs l ln x s buf = text_result ds l ln (x + (length cs - length ds)) s buf"
  by (cases l) (auto simp: text_result_def)

lemma text_loop_lexes:
  assumes "lexes q cs l" "drop x buf = cs @ NUL # r" "NUL \<notin> set cs" "s \<le> x"
  shows "text_loop q ln x s buf = Ret (text_result cs l ln x s buf)"
  using assms
proof (induction arbitrary: x s buf ln rule: lexes.induct)
  case unterminated
  then have "load buf x = Ret NUL" by (simp add: drop_Cons_load)
  then show ?case by (subst text_loop.simps) (simp add: text_result_def)
next
  case (close_quote cs l)
  from close_quote.prems(1) have d: "drop x buf = DQUOTE # cs @ NUL # r" by simp
  with close_quote lexes_rest [OF close_quote.hyps] show ?case
    by (subst text_loop.simps) (simp add: drop_Cons_load [OF d] text_result_skip)
next
  case (quoted c cs l)
  from quoted.prems(1) have d: "drop x buf = c # cs @ NUL # r" by simp
  note e = emit_store [OF quoted.prems(3) d, of c]
  from quoted e lexes_rest [OF quoted.hyps(2)] show ?case
    by (subst text_loop.simps) (auto simp: drop_Cons_load [OF d] text_result_emit [OF quoted.prems(3) d])
next
  case text_eof
  then have "load buf x = Ret NUL" by (simp add: drop_Cons_load)
  then show ?case by (subst text_loop.simps) (simp add: text_result_def)
next
  case (text_blank c cs)
  from text_blank.prems(1) have d: "drop x buf = c # cs @ NUL # r" by simp
  with text_blank show ?case by (subst text_loop.simps) (auto simp: drop_Cons_load [OF d] text_result_def)
next
  case (text_lf cs)
  from text_lf.prems(1) have d: "drop x buf = LF # cs @ NUL # r" by simp
  show ?case by (subst text_loop.simps) (simp add: drop_Cons_load [OF d] text_result_def)
next
  case (open_quote cs l)
  from open_quote.prems(1) have d: "drop x buf = DQUOTE # cs @ NUL # r" by simp
  with open_quote lexes_rest [OF open_quote.hyps] show ?case
    by (subst text_loop.simps) (simp add: drop_Cons_load [OF d] text_result_skip)
next
  case escape_eof
  then have d: "drop x buf = BACKSLASH # NUL # r" by simp
  show ?case
    by (subst text_loop.simps) (simp add: drop_Cons_load [OF d] drop_Cons_load [OF drop_Cons_load(2) [OF d]] text_result_def)
next
  case (escape_char e v es l)
  from escape_char.prems(1) have d: "drop x buf = BACKSLASH # e # es @ NUL # r" by simp
  note d2 = drop_Cons_load [OF drop_Cons_load(2) [OF d]]
  note st = emit_store [OF escape_char.prems(3) d, of v]
  have "e \<noteq> NUL" using escape_char.prems(2) by auto
  moreover have "text_loop False ln (Suc x) (Suc s) (buf[s := v]) = Ret (text_result (BACKSLASH # e # es) (emit v l) ln x s buf)"
    using escape_char st lexes_rest [OF escape_char.hyps(2)] by (simp add: text_result_emit [OF escape_char.prems(3) d])
  ultimately show ?case using escape_char.hyps(1) st(1)
    by (subst text_loop.simps) (auto simp: drop_Cons_load [OF d] d2 escape_def split: if_splits)
next
  case (escape_crlf es l)
  from escape_crlf.prems(1) have d: "drop x buf = BACKSLASH # CR # LF # es @ NUL # r" by simp
  note d2 = drop_Cons_load [OF drop_Cons_load(2) [OF d]] drop_Cons_load [OF drop_Cons_load(2) [OF drop_Cons_load(2) [OF d]]]
  have "eat_blank buf (Suc (Suc x)) = Ret (Suc (Suc x))"
    using eat_blank_dropWhile [of "Suc (Suc x)" buf "LF # es" r] d2 by simp
  moreover have "drop (Suc (Suc x)) buf = LF # es @ NUL # r" using d by (metis d2(2))
  ultimately show ?case using escape_crlf lexes_rest [OF escape_crlf.hyps]
    by (subst text_loop.simps) (simp add: drop_Cons_load [OF d] d2 text_result_continued text_result_skip)
next
  case (escape_cr es l)
  from escape_cr.prems(1) have d: "drop x buf = BACKSLASH # CR # es @ NUL # r" by simp
  note d2 = drop_Cons_load [OF drop_Cons_load(2) [OF d]]
  obtain e where e: "load buf (Suc (Suc x)) = Ret e" "e \<noteq> LF"
    using escape_cr.hyps(1) drop_Cons_load(1) [of "Suc (Suc x)" buf] d2(2) by (cases es) auto
  with escape_cr lexes_rest [OF escape_cr.hyps(2)] show ?case
    by (subst text_loop.simps) (simp add: drop_Cons_load [OF d] d2 text_result_skip)
next
  case (escape_lf es l)
  from escape_lf.prems(1) have d: "drop x buf = BACKSLASH # LF # es @ NUL # r" by simp
  note d2 = drop_Cons_load [OF drop_Cons_load(2) [OF d]]
  let ?y = "Suc (Suc x) + (length es - length (dropWhile blank es))"
  have y: "eat_blank buf (Suc (Suc x)) = Ret ?y" using d2(2) by (rule eat_blank_dropWhile)
  have "drop ?y buf = drop (length es - length (dropWhile blank es)) (drop (Suc (Suc x)) buf)"
    by (simp add: add.commute)
  also have "\<dots> = dropWhile blank es @ NUL # r" unfolding d2(2) by (rule drop_length_dropWhile)
  finally have "text_loop False (Suc ln) ?y s buf = Ret (text_result (dropWhile blank es) l (Suc ln) ?y s buf)"
    using escape_lf.prems by (intro escape_lf.IH) (auto dest: set_dropWhileD)
  with y lexes_rest [OF escape_lf.hyps] length_dropWhile_le [of blank es]
  show ?case using text_result_drop [of "dropWhile blank es" "BACKSLASH # LF # es" l "Suc ln" x s buf]
    by (subst text_loop.simps) (simp add: drop_Cons_load [OF d] d2 text_result_continued Suc_diff_le)
next
  case (escape_other e es l)
  from escape_other.prems(1) have d: "drop x buf = BACKSLASH # e # es @ NUL # r" by simp
  note d2 = drop_Cons_load [OF drop_Cons_load(2) [OF d]]
  note st = emit_store [OF escape_other.prems(3) d, of e]
  have "drop (Suc (Suc x)) (buf[s := e]) = es @ NUL # r" by (rule drop_Cons_load(2) [OF st(2)])
  then have "text_loop False ln (Suc (Suc x)) (Suc s) (buf[s := e]) = Ret (text_result (BACKSLASH # e # es) (emit e l) ln x s buf)"
    using escape_other lexes_rest [OF escape_other.hyps(4)]
    by (simp add: text_result_emit [OF escape_other.prems(3) d] text_result_skip)
  moreover have "e \<noteq> NUL" using escape_other.prems(2) by auto
  ultimately show ?case using escape_other.hyps(1-3) st(1)
    by (subst text_loop.simps) (auto simp: drop_Cons_load [OF d] d2 escape_def split: if_splits)
next
  case (text_char c cs l)
  from text_char.prems(1) have d: "drop x buf = c # cs @ NUL # r" by simp
  note e = emit_store [OF text_char.prems(3) d, of c]
  from text_char e lexes_rest [OF text_char.hyps(5)] show ?case
    by (subst text_loop.simps) (auto simp: drop_Cons_load [OF d] text_result_emit [OF text_char.prems(3) d])
qed

section \<open>Token sequences\<close>

text \<open>The blanks, comments and line ends before a word.\<close>

fun lex_skip :: "string \<Rightarrow> token ptr \<times> string" where
  "lex_skip [] = (Some T_EOF, [])"
| "lex_skip (c # cs) =
     (if c = LF then (Some T_NEWLINE, cs)
      else if word_end c then lex_skip cs
      else if c = CHR ''#'' then
        (case dropWhile (\<lambda>c. c \<noteq> LF) cs of
           [] \<Rightarrow> (Some T_EOF, [])
         | _ # r \<Rightarrow> (Some T_NEWLINE, r))
      else (NULL, c # cs))"

lemma lex_skip_length:
  "lex_skip cs = (t, r) \<Longrightarrow> length r \<le> length cs \<and> (t = Some T_NEWLINE \<longrightarrow> length r < length cs) \<and> (t = NULL \<longrightarrow> r \<noteq> []) \<and> t \<noteq> Some T_TEXT"
proof (induction cs arbitrary: t r)
  case (Cons c cs)
  show ?case
  proof (cases "c = CHR ''#''")
    case True
    with Cons.prems length_dropWhile_le [of "\<lambda>c. c \<noteq> LF" cs] show ?thesis by (auto split: list.splits)
  next
    case False
    with Cons show ?thesis by (fastforce split: if_splits)
  qed
qed auto

lemma lex_newline_shorter: "(Some T_NEWLINE, r) = lex_skip cs \<Longrightarrow> length r < length cs"
  using lex_skip_length [of cs "Some T_NEWLINE" r] by simp

lemma lex_word_shorter:
  assumes "(NULL, r) = lex_skip cs" "(w, e, n, r') = lex_text False r"
  shows "length r' < length cs"
proof -
  have "length r \<le> length cs" "r \<noteq> []" using lex_skip_length [of cs NULL r] assms(1) by simp_all
  then show ?thesis using lexes_lengths [OF lex_text_lexes [of False r]] by (simp flip: assms(2))
qed

datatype word_token = Word string | Newline

function lex_tokens :: "string \<Rightarrow> word_token list" where
  "lex_tokens cs =
     (case lex_skip cs of
        (Some t, r) \<Rightarrow> if t = T_NEWLINE then Newline # lex_tokens r else []
      | (None, r) \<Rightarrow>
          (case lex_text False r of
             (w, Text_done, _, r') \<Rightarrow> Word w # lex_tokens r'
           | (w, Text_newline, _, r') \<Rightarrow> Word w # Newline # lex_tokens r'
           | (w, Unterminated, _, r') \<Rightarrow> []))"
  by auto

termination by (relation "measure length") (auto dest: lex_word_shorter lex_newline_shorter)

declare lex_tokens.simps [simp del]

text \<open>The C string at an index of the buffer, and the tokens the parser has still to read.\<close>

definition cstr :: "string \<Rightarrow> nat \<Rightarrow> string" where
  "cstr buf p = takeWhile (\<lambda>c. c \<noteq> NUL) (drop p buf)"

definition tok_wf :: "'a parse_state_scheme \<Rightarrow> bool" where
  "tok_wf st \<longleftrightarrow> NUL \<in> set (drop (ptr st) (data st)) \<and> nexttoken st \<noteq> T_TEXT"

definition pending :: "'a parse_state_scheme \<Rightarrow> word_token list" where
  "pending st = (if nexttoken st = T_NEWLINE then [Newline] else []) @ lex_tokens (cstr (data st) (ptr st))"

lemma cstr_split:
  assumes "NUL \<in> set (drop x buf)"
  obtains r where "drop x buf = cstr buf x @ NUL # r" "NUL \<notin> set (cstr buf x)"
proof -
  have ne: "dropWhile (\<lambda>c. c \<noteq> NUL) (drop x buf) \<noteq> []" using assms by (auto simp: dropWhile_eq_Nil_conv)
  obtain c r where cr: "dropWhile (\<lambda>c. c \<noteq> NUL) (drop x buf) = c # r" using ne by (cases "dropWhile (\<lambda>c. c \<noteq> NUL) (drop x buf)") auto
  with hd_dropWhile [OF ne] have "c = NUL" by simp
  with cr takeWhile_dropWhile_id [of "\<lambda>c. c \<noteq> NUL" "drop x buf"] have "drop x buf = cstr buf x @ NUL # r" by (simp add: cstr_def)
  moreover have "NUL \<notin> set (cstr buf x)" by (auto simp: cstr_def dest: set_takeWhileD)
  ultimately show thesis by (rule that)
qed

lemma cstr_eqI: "drop x buf = cs @ NUL # r \<Longrightarrow> NUL \<notin> set cs \<Longrightarrow> cstr buf x = cs"
  by (simp add: cstr_def) (subst takeWhile_append2; auto)

lemma skip_comment_lex:
  "drop x buf = cs @ NUL # r \<Longrightarrow> NUL \<notin> set cs \<Longrightarrow>
     skip_comment buf x = Ret (x + (length cs - length (dropWhile (\<lambda>c. c \<noteq> LF) cs)))"
proof (induction cs arbitrary: x)
  case Nil
  then have "load buf x = Ret NUL" by (simp add: drop_Cons_load)
  then show ?case by (subst skip_comment.simps) simp
next
  case (Cons c cs)
  then have "load buf x = Ret c" "drop (Suc x) buf = cs @ NUL # r" using drop_Cons_load [of x buf c "cs @ NUL # r"] by auto
  with Cons show ?case
    using length_dropWhile_le [of "\<lambda>c. c \<noteq> LF" cs] by (subst skip_comment.simps) (auto simp: Suc_diff_le)
qed

lemma skip_blank_lex:
  assumes "drop x buf = cs @ NUL # r" "NUL \<notin> set cs" "lex_skip cs = (t, rest)"
  shows "skip_blank buf x = Ret (t, x + (length cs - length rest)) \<and> drop (x + (length cs - length rest)) buf = rest @ NUL # r \<and> NUL \<notin> set rest"
  using assms
proof (induction cs arbitrary: x)
  case Nil
  then have "load buf x = Ret NUL" by (simp add: drop_Cons_load)
  with Nil show ?case by (subst skip_blank.simps) simp
next
  case (Cons c cs)
  from Cons.prems(1) have d: "drop x buf = c # cs @ NUL # r" by simp
  note l = drop_Cons_load [OF d]
  show ?case
  proof (cases "c = CHR ''#''")
    case False
    consider "c = LF" | "word_end c" | "c \<noteq> LF" "\<not> word_end c" by blast
    then show ?thesis
    proof cases
      case 1
      with Cons.prems l show ?thesis by (subst skip_blank.simps) auto
    next
      case 2
      then have s: "lex_skip cs = (t, rest)" using Cons.prems(3) by auto
      with Cons.IH [OF l(2) _ s] Cons.prems(2) lex_skip_length [OF s] 2 l(1) show ?thesis
        by (subst skip_blank.simps) (auto simp: Suc_diff_le)
    next
      case 3
      have "c \<noteq> NUL" using Cons.prems(2) by auto
      with 3 False Cons.prems l d show ?thesis by (subst skip_blank.simps) auto
    qed
  next
    case True
    let ?ds = "dropWhile (\<lambda>c. c \<noteq> LF) cs"
    define y where "y = x + (length (c # cs) - length ?ds)"
    have "dropWhile (\<lambda>c. c \<noteq> LF) (c # cs) = ?ds" using True by simp
    then have sc: "skip_comment buf x = Ret y" using skip_comment_lex [OF Cons.prems(1,2)] by (simp add: y_def)
    have "drop y buf = drop (length (c # cs) - length ?ds) (drop x buf)" by (simp add: y_def add.commute)
    also have "\<dots> = ?ds @ NUL # r"
      using drop_length_dropWhile [of "c # cs" "\<lambda>c. c \<noteq> LF" "NUL # r"] True d by simp
    finally have y: "drop y buf = ?ds @ NUL # r" .
    show ?thesis
    proof (cases ?ds)
      case Nil
      then have "load buf y = Ret NUL" using drop_Cons_load(1) [of y buf NUL r] y by simp
      with Nil True Cons.prems(3) sc l y show ?thesis by (subst skip_blank.simps) (simp add: y_def del: dropWhile_eq_Nil_conv)
    next
      case ds: (Cons e es)
      then have e: "e = LF" using hd_dropWhile [of "\<lambda>c. c \<noteq> LF" cs] by simp
      then have "load buf y = Ret LF" "drop (Suc y) buf = es @ NUL # r" using drop_Cons_load [of y buf e "es @ NUL # r"] y ds by auto
      moreover have "Suc y = x + (length (c # cs) - length es)"
        using ds length_dropWhile_le [of "\<lambda>c. c \<noteq> LF" cs] by (simp add: y_def)
      moreover have "NUL \<notin> set es" using Cons.prems(2) ds set_dropWhileD [of NUL "\<lambda>c. c \<noteq> LF" cs] by auto
      moreover have "skip_blank buf x = Ret (Some T_NEWLINE, Suc y)"
        using \<open>load buf y = Ret LF\<close> True sc l by (subst skip_blank.simps) simp
      moreover have "t = Some T_NEWLINE" "rest = es" using ds e True Cons.prems(3) by auto
      ultimately show ?thesis by simp
    qed
  qed
qed

text \<open>
  One call returns the next token of the language. It writes only at and behind the pointer,
  so the words it returned earlier stay as they are.
\<close>

lemma cstr_take_cong:
  assumes "take n buf' = take n buf" "p + length (cstr buf p) < n" "n \<le> length buf"
  shows "cstr buf' p = cstr buf p"
proof -
  have "NUL \<in> set (drop p buf)"
  proof (rule ccontr)
    assume "NUL \<notin> set (drop p buf)"
    then have "cstr buf p = drop p buf" by (auto simp: cstr_def takeWhile_eq_all_conv)
    with assms(2,3) show False by simp
  qed
  then obtain r where r: "drop p buf = cstr buf p @ NUL # r" "NUL \<notin> set (cstr buf p)" by (rule cstr_split)
  have "take (n - p) (drop p buf') = take (n - p) (drop p buf)" using assms(1) by (metis drop_take)
  also have "\<dots> = cstr buf p @ NUL # take (n - p - Suc (length (cstr buf p))) r"
    using assms(2) by (subst r(1)) (simp add: take_Cons')
  finally have "drop p buf' = (cstr buf p @ NUL # take (n - p - Suc (length (cstr buf p))) r) @ drop (n - p) (drop p buf')"
    by (metis append_take_drop_id)
  then show ?thesis using r(2) by (intro cstr_eqI [of p buf' "cstr buf p"]) auto
qed

lemma next_token_lex:
  assumes "tok_wf st"
  shows "\<exists>t st'. next_token st = Ret (t, st') \<and> tok_wf st' \<and> parse_state.more st' = parse_state.more st \<and>
     ptr st \<le> ptr st' \<and> take (ptr st) (data st') = take (ptr st) (data st) \<and> length (data st') = length (data st) \<and>
     (cstr (data st) (ptr st) = [] \<longrightarrow> data st' = data st) \<and>
     (case pending st of
        [] \<Rightarrow> t = T_EOF
      | Newline # ts \<Rightarrow> t = T_NEWLINE \<and> pending st' = ts
      | Word w # ts \<Rightarrow> t = T_TEXT \<and> pending st' = ts \<and> cstr (data st') (tok_text st') = w \<and>
          tok_text st' + length w \<le> ptr st')"
proof (cases "nexttoken st = T_EOF")
  case False
  with assms have "nexttoken st = T_NEWLINE" by (cases "nexttoken st") (auto simp: tok_wf_def)
  with assms show ?thesis by (simp add: next_token_def pending_def tok_wf_def)
next
  case eof: True
  let ?x = "ptr st" and ?buf = "data st"
  define cs where "cs = cstr ?buf ?x"
  obtain r where d: "drop ?x ?buf = cs @ NUL # r" "NUL \<notin> set cs"
    using assms cstr_split by (metis tok_wf_def cs_def)
  have p: "pending st = lex_tokens cs" using eof by (simp add: pending_def cs_def)
  obtain t rest where s: "lex_skip cs = (t, rest)" by fastforce
  define y where "y = ?x + (length cs - length rest)"
  have sk: "skip_blank ?buf ?x = Ret (t, y)" "drop y ?buf = rest @ NUL # r" "NUL \<notin> set rest" "?x \<le> y"
    using skip_blank_lex [OF d s] by (auto simp: y_def)
  show ?thesis
  proof (cases t)
    case (Some t')
    have c: "cstr ?buf y = rest" using sk(2,3) by (rule cstr_eqI)
    have "NUL \<in> set (drop y ?buf)" using sk(2) by simp
    moreover have "t' \<noteq> T_TEXT" using lex_skip_length [OF s] Some by simp
    ultimately show ?thesis
      using eof sk s Some p c
      by (cases t') (auto simp: next_token_def tok_wf_def pending_def lex_tokens.simps [of cs])
  next
    case None
    obtain w e n r' where l: "lex_text False rest = (w, e, n, r')" by (metis prod_cases4)
    define z where "z = y + (length rest - length r')"
    let ?s = "y + length w"
    define b where "b = take y ?buf @ w @ drop ?s ?buf"
    have lx: "lexes False rest (w, e, n, r')" using lex_text_lexes [of False rest] l by simp
    have tl: "text_loop False (line st) y y ?buf = Ret (e, line st + n, z, ?s, b)"
      using text_loop_lexes [OF lx sk(2,3), of y "line st"] by (simp add: text_result_def z_def b_def)
    have len: "length w + length r' \<le> length rest" using lexes_lengths [OF lx] by simp
    have tr: "\<exists>q. rest = q @ r'" "NUL \<notin> set w" "e \<noteq> Unterminated \<Longrightarrow> r' \<noteq> [] \<Longrightarrow> length w + length r' < length rest"
      using lexes_text_rest [OF lx] sk(3) by auto
    have yl: "y + length rest < length ?buf" using arg_cong [OF sk(2), of length] by simp
    then have lb: "length b = length ?buf" "?s < length b" using len by (simp_all add: b_def)
    have "drop z ?buf = drop (length rest - length r') (drop y ?buf)" by (simp add: z_def add.commute)
    then have dz: "drop z ?buf = r' @ NUL # r" "NUL \<notin> set r'" "?s \<le> z"
      using tr(1) sk(2,3) len by (auto simp: z_def)
    have bz: "drop z b = r' @ NUL # r"
      using dz(1,3) yl by (simp add: b_def)
    have rest: "cs \<noteq> []" using lex_skip_length [OF s] None by auto
    have tk: "take ?x b = take ?x ?buf" "take ?x (b[?s := NUL]) = take ?x ?buf"
      using sk(4) yl by (simp_all add: b_def)
    have b2: "cstr (b[?s := NUL]) y = w"
    proof (rule cstr_eqI)
      show "drop y (b[?s := NUL]) = w @ NUL # drop (Suc ?s) ?buf"
        using yl len Cons_nth_drop_Suc [of ?s ?buf, symmetric] by (simp add: b_def list_update_append)
    qed (rule tr(2))
    have bz': "drop z (b[?s := NUL]) = r' @ NUL # r" if "e \<noteq> Unterminated"
    proof (cases "?s < z")
      case True
      with bz show ?thesis by simp
    next
      case False
      then have sz: "length w + length r' = length rest" "?s = z" using dz(3) len by (auto simp: z_def)
      then have rz: "r' = []" "?s = z" using tr(3) [OF that] by force+
      then have "b ! ?s = NUL" using bz lb(2) by (metis append_Nil hd_drop_conv_nth list.sel(1))
      with rz bz show ?thesis by (metis list_update_id)
    qed
    have le: "?x \<le> z" using sk(4) by (simp add: z_def)
    show ?thesis
    proof (cases "e = Unterminated")
      case True
      then have "pending st = []" using p s None l by (simp add: lex_tokens.simps [of cs])
      with True eof sk(1) None tl le lb(1) tk(1) rest bz show ?thesis
        by (simp add: next_token_def tok_wf_def cs_def)
    next
      case False
      let ?st = "st\<lparr>data := b[?s := NUL], tok_text := y, line := line st + n, ptr := z,
        nexttoken := (if e = Text_newline then T_NEWLINE else T_EOF)\<rparr>"
      have "next_token st = Ret (T_TEXT, ?st)"
        using False eof sk(1) None tl lb(2) by (cases e) (simp_all add: next_token_def store_ok)
      moreover have "cstr (b[?s := NUL]) z = r'" using bz' [OF False] dz(2) by (rule cstr_eqI)
      moreover have "pending st = Word w # pending ?st"
        using False p s None l \<open>cstr (b[?s := NUL]) z = r'\<close> by (cases e) (simp_all add: lex_tokens.simps [of cs] pending_def)
      moreover have "NUL \<in> set (drop z (b[?s := NUL]))" using bz' [OF False] by simp
      ultimately show ?thesis using le lb(1) tk(2) rest b2 dz(3) by (simp add: tok_wf_def cs_def)
    qed
  qed
qed

end
