(* ===== verification/Init_Keywords.thy ===== *)
theory Init_Keywords
  imports C_Memory
begin

text \<open>
  The keywords of the configuration language of init: the enumeration and the table of
  \<open>core/init/keywords.h\<close>, the functions that commands run, and the look-up by name of
  \<open>core/init/init_parser.c\<close>.
\<close>

datatype (plugins only: code size) keyword =
  K_UNKNOWN |
  K_capability | K_chdir | K_chroot | K_class | K_class_start | K_class_stop | K_class_reset |
  K_console | K_critical | K_disabled | K_domainname | K_exec | K_export | K_group | K_hostname |
  K_ifup | K_insmod | K_import | K_keycodes | K_mkdir | K_mount_all | K_mount | K_on |
  K_oneshot | K_onrestart | K_restart | K_restorecon | K_rm | K_rmdir | K_seclabel | K_service |
  K_setcon | K_setenforce | K_setenv | K_setkey | K_setprop | K_setrlimit | K_setsebool |
  K_socket | K_start | K_stop | K_trigger | K_symlink | K_sysclktz | K_user | K_wait | K_write |
  K_copy | K_chown | K_chmod | K_loglevel | K_mknod | K_load_persist_props | K_ioprio |
  K_optbcp | K_unexport_for_sdexternal | K_export_for_sdexternal | K_symlink_for_sdexternal |
  K_rm_for_sdexternal

text \<open>The functions of \<open>core/init/builtins.c\<close> and the built-in actions of \<open>core/init/init.c\<close>.\<close>

datatype (plugins only: code size) func =
  do_chroot | do_chdir | do_class_start | do_class_stop | do_class_reset | do_domainname |
  do_exec | do_export | do_hostname | do_ifup | do_insmod | do_mkdir | do_mount_all | do_mount |
  do_restart | do_restorecon | do_rm | do_rmdir | do_setcon | do_setenforce | do_setkey |
  do_setprop | do_setrlimit | do_setsebool | do_start | do_stop | do_trigger | do_symlink |
  do_sysclktz | do_write | do_copy | do_chown | do_chmod | do_loglevel | do_load_persist_props |
  do_wait | do_optbcp | do_mknod | do_unexport_for_sdexternal | do_export_for_sdexternal |
  do_symlink_for_sdexternal | do_rm_for_sdexternal | wait_for_coldboot_done_action |
  keychord_init_action | console_init_action | property_service_init_action |
  signal_init_action | check_startup_action | queue_property_triggers_action

abbreviation (input) SECTION :: u8 where "SECTION \<equiv> 1"
abbreviation (input) COMMAND :: u8 where "COMMAND \<equiv> 2"
abbreviation (input) OPTION :: u8 where "OPTION \<equiv> 4"

primrec keyword_info :: "keyword \<Rightarrow> string \<times> func ptr \<times> nat \<times> u8" where
  "keyword_info K_UNKNOWN = (''unknown'', NULL, 0, 0)"
| "keyword_info K_capability = (''capability'', NULL, 0 + 1, OPTION)"
| "keyword_info K_chdir = (''chdir'', Some do_chdir, 1 + 1, COMMAND)"
| "keyword_info K_chroot = (''chroot'', Some do_chroot, 1 + 1, COMMAND)"
| "keyword_info K_class = (''class'', NULL, 0 + 1, OPTION)"
| "keyword_info K_class_start = (''class_start'', Some do_class_start, 1 + 1, COMMAND)"
| "keyword_info K_class_stop = (''class_stop'', Some do_class_stop, 1 + 1, COMMAND)"
| "keyword_info K_class_reset = (''class_reset'', Some do_class_reset, 1 + 1, COMMAND)"
| "keyword_info K_console = (''console'', NULL, 0 + 1, OPTION)"
| "keyword_info K_critical = (''critical'', NULL, 0 + 1, OPTION)"
| "keyword_info K_disabled = (''disabled'', NULL, 0 + 1, OPTION)"
| "keyword_info K_domainname = (''domainname'', Some do_domainname, 1 + 1, COMMAND)"
| "keyword_info K_exec = (''exec'', Some do_exec, 1 + 1, COMMAND)"
| "keyword_info K_export = (''export'', Some do_export, 2 + 1, COMMAND)"
| "keyword_info K_group = (''group'', NULL, 0 + 1, OPTION)"
| "keyword_info K_hostname = (''hostname'', Some do_hostname, 1 + 1, COMMAND)"
| "keyword_info K_ifup = (''ifup'', Some do_ifup, 1 + 1, COMMAND)"
| "keyword_info K_insmod = (''insmod'', Some do_insmod, 1 + 1, COMMAND)"
| "keyword_info K_import = (''import'', NULL, 1 + 1, SECTION)"
| "keyword_info K_keycodes = (''keycodes'', NULL, 0 + 1, OPTION)"
| "keyword_info K_mkdir = (''mkdir'', Some do_mkdir, 1 + 1, COMMAND)"
| "keyword_info K_mount_all = (''mount_all'', Some do_mount_all, 1 + 1, COMMAND)"
| "keyword_info K_mount = (''mount'', Some do_mount, 3 + 1, COMMAND)"
| "keyword_info K_on = (''on'', NULL, 0 + 1, SECTION)"
| "keyword_info K_oneshot = (''oneshot'', NULL, 0 + 1, OPTION)"
| "keyword_info K_onrestart = (''onrestart'', NULL, 0 + 1, OPTION)"
| "keyword_info K_restart = (''restart'', Some do_restart, 1 + 1, COMMAND)"
| "keyword_info K_restorecon = (''restorecon'', Some do_restorecon, 1 + 1, COMMAND)"
| "keyword_info K_rm = (''rm'', Some do_rm, 1 + 1, COMMAND)"
| "keyword_info K_rmdir = (''rmdir'', Some do_rmdir, 1 + 1, COMMAND)"
| "keyword_info K_seclabel = (''seclabel'', NULL, 0 + 1, OPTION)"
| "keyword_info K_service = (''service'', NULL, 0 + 1, SECTION)"
| "keyword_info K_setcon = (''setcon'', Some do_setcon, 1 + 1, COMMAND)"
| "keyword_info K_setenforce = (''setenforce'', Some do_setenforce, 1 + 1, COMMAND)"
| "keyword_info K_setenv = (''setenv'', NULL, 2 + 1, OPTION)"
| "keyword_info K_setkey = (''setkey'', Some do_setkey, 0 + 1, COMMAND)"
| "keyword_info K_setprop = (''setprop'', Some do_setprop, 2 + 1, COMMAND)"
| "keyword_info K_setrlimit = (''setrlimit'', Some do_setrlimit, 3 + 1, COMMAND)"
| "keyword_info K_setsebool = (''setsebool'', Some do_setsebool, 1 + 1, COMMAND)"
| "keyword_info K_socket = (''socket'', NULL, 0 + 1, OPTION)"
| "keyword_info K_start = (''start'', Some do_start, 1 + 1, COMMAND)"
| "keyword_info K_stop = (''stop'', Some do_stop, 1 + 1, COMMAND)"
| "keyword_info K_trigger = (''trigger'', Some do_trigger, 1 + 1, COMMAND)"
| "keyword_info K_symlink = (''symlink'', Some do_symlink, 1 + 1, COMMAND)"
| "keyword_info K_sysclktz = (''sysclktz'', Some do_sysclktz, 1 + 1, COMMAND)"
| "keyword_info K_user = (''user'', NULL, 0 + 1, OPTION)"
| "keyword_info K_wait = (''wait'', Some do_wait, 1 + 1, COMMAND)"
| "keyword_info K_write = (''write'', Some do_write, 2 + 1, COMMAND)"
| "keyword_info K_copy = (''copy'', Some do_copy, 2 + 1, COMMAND)"
| "keyword_info K_chown = (''chown'', Some do_chown, 2 + 1, COMMAND)"
| "keyword_info K_chmod = (''chmod'', Some do_chmod, 2 + 1, COMMAND)"
| "keyword_info K_loglevel = (''loglevel'', Some do_loglevel, 1 + 1, COMMAND)"
| "keyword_info K_mknod = (''mknod'', Some do_mknod, 4 + 1, COMMAND)"
| "keyword_info K_load_persist_props = (''load_persist_props'', Some do_load_persist_props, 0 + 1, COMMAND)"
| "keyword_info K_ioprio = (''ioprio'', NULL, 0 + 1, OPTION)"
| "keyword_info K_optbcp = (''optbcp'', Some do_optbcp, 1 + 1, COMMAND)"
| "keyword_info K_unexport_for_sdexternal = (''unexport_for_sdexternal'', Some do_unexport_for_sdexternal, 2 + 1, COMMAND)"
| "keyword_info K_export_for_sdexternal = (''export_for_sdexternal'', Some do_export_for_sdexternal, 2 + 1, COMMAND)"
| "keyword_info K_symlink_for_sdexternal = (''symlink_for_sdexternal'', Some do_symlink_for_sdexternal, 2 + 1, COMMAND)"
| "keyword_info K_rm_for_sdexternal = (''rm_for_sdexternal'', Some do_rm_for_sdexternal, 1 + 1, COMMAND)"

definition kw_name :: "keyword \<Rightarrow> string" where
  "kw_name kw = fst (keyword_info kw)"

definition kw_func :: "keyword \<Rightarrow> func ptr" where
  "kw_func kw = fst (snd (keyword_info kw))"

definition kw_nargs :: "keyword \<Rightarrow> nat" where
  "kw_nargs kw = fst (snd (snd (keyword_info kw)))"

definition kw_is :: "keyword \<Rightarrow> u8 \<Rightarrow> bool" where
  "kw_is kw type \<longleftrightarrow> snd (snd (snd (keyword_info kw))) AND type \<noteq> 0"

definition lookup_keyword :: "string \<Rightarrow> keyword" where
  "lookup_keyword s =
     (let t = tl s in
      if take 1 s = ''c'' then
        (if t = ''opy'' then K_copy
         else if t = ''apability'' then K_capability
         else if t = ''hdir'' then K_chdir
         else if t = ''hroot'' then K_chroot
         else if t = ''lass'' then K_class
         else if t = ''lass_start'' then K_class_start
         else if t = ''lass_stop'' then K_class_stop
         else if t = ''lass_reset'' then K_class_reset
         else if t = ''onsole'' then K_console
         else if t = ''hown'' then K_chown
         else if t = ''hmod'' then K_chmod
         else if t = ''ritical'' then K_critical
         else K_UNKNOWN)
      else if take 1 s = ''d'' then
        (if t = ''isabled'' then K_disabled
         else if t = ''omainname'' then K_domainname
         else K_UNKNOWN)
      else if take 1 s = ''e'' then
        (if t = ''xec'' then K_exec
         else if t = ''xport'' then K_export
         else if t = ''xport_for_sdexternal'' then K_export_for_sdexternal
         else K_UNKNOWN)
      else if take 1 s = ''g'' then
        (if t = ''roup'' then K_group
         else K_UNKNOWN)
      else if take 1 s = ''h'' then
        (if t = ''ostname'' then K_hostname
         else K_UNKNOWN)
      else if take 1 s = ''i'' then
        (if t = ''oprio'' then K_ioprio
         else if t = ''fup'' then K_ifup
         else if t = ''nsmod'' then K_insmod
         else if t = ''mport'' then K_import
         else K_UNKNOWN)
      else if take 1 s = ''k'' then
        (if t = ''eycodes'' then K_keycodes
         else K_UNKNOWN)
      else if take 1 s = ''l'' then
        (if t = ''oglevel'' then K_loglevel
         else if t = ''oad_persist_props'' then K_load_persist_props
         else K_UNKNOWN)
      else if take 1 s = ''m'' then
        (if t = ''kdir'' then K_mkdir
         else if t = ''ount_all'' then K_mount_all
         else if t = ''ount'' then K_mount
         else if t = ''knod'' then K_mknod
         else K_UNKNOWN)
      else if take 1 s = ''o'' then
        (if t = ''n'' then K_on
         else if t = ''neshot'' then K_oneshot
         else if t = ''nrestart'' then K_onrestart
         else if t = ''ptbcp'' then K_optbcp
         else K_UNKNOWN)
      else if take 1 s = ''r'' then
        (if t = ''estart'' then K_restart
         else if t = ''estorecon'' then K_restorecon
         else if t = ''mdir'' then K_rmdir
         else if t = ''m'' then K_rm
         else if t = ''m_for_sdexternal'' then K_rm_for_sdexternal
         else K_UNKNOWN)
      else if take 1 s = ''s'' then
        (if t = ''eclabel'' then K_seclabel
         else if t = ''ervice'' then K_service
         else if t = ''etcon'' then K_setcon
         else if t = ''etenforce'' then K_setenforce
         else if t = ''etenv'' then K_setenv
         else if t = ''etkey'' then K_setkey
         else if t = ''etprop'' then K_setprop
         else if t = ''etrlimit'' then K_setrlimit
         else if t = ''etsebool'' then K_setsebool
         else if t = ''ocket'' then K_socket
         else if t = ''tart'' then K_start
         else if t = ''top'' then K_stop
         else if t = ''ymlink'' then K_symlink
         else if t = ''ysclktz'' then K_sysclktz
         else if t = ''ymlink_for_sdexternal'' then K_symlink_for_sdexternal
         else K_UNKNOWN)
      else if take 1 s = ''t'' then
        (if t = ''rigger'' then K_trigger
         else K_UNKNOWN)
      else if take 1 s = ''u'' then
        (if t = ''ser'' then K_user
         else if t = ''nexport_for_sdexternal'' then K_unexport_for_sdexternal
         else K_UNKNOWN)
      else if take 1 s = ''w'' then
        (if t = ''rite'' then K_write
         else if t = ''ait'' then K_wait
         else K_UNKNOWN)
      else K_UNKNOWN)"

text \<open>The look-up inverts the table; a command has a function and a section or option has none.\<close>

lemma lookup_kw_name: "kw \<noteq> K_UNKNOWN \<Longrightarrow> lookup_keyword (kw_name kw) = kw"
  by (cases kw) (simp_all add: lookup_keyword_def kw_name_def)

definition names :: "string \<Rightarrow> keyword \<Rightarrow> bool" where
  "names s kw \<longleftrightarrow> kw = K_UNKNOWN \<or> kw_name kw = s"

lemma names_if: "(b \<Longrightarrow> names s x) \<Longrightarrow> names s y \<Longrightarrow> names s (if b then x else y)"
  by simp

lemma kw_name_lookup:
  assumes "lookup_keyword s \<noteq> K_UNKNOWN"
  shows "kw_name (lookup_keyword s) = s"
proof (cases s)
  case (Cons c t)
  have "names (c # t) (lookup_keyword (c # t))"
    unfolding lookup_keyword_def Let_def list.sel
    by (intro names_if) (simp_all add: names_def kw_name_def)
  with Cons assms show ?thesis by (simp add: names_def)
qed (use assms in \<open>simp add: lookup_keyword_def\<close>)

lemma kw_func_command: "kw_is kw COMMAND \<longleftrightarrow> kw_func kw \<noteq> NULL"
  by (cases kw) (simp_all add: kw_is_def kw_func_def)

lemma kw_nargs_command: "kw_is kw COMMAND \<Longrightarrow> 1 \<le> kw_nargs kw"
  by (cases kw) (simp_all add: kw_is_def kw_nargs_def)

end
