(* ===== verification/Linked_List.thy ===== *)
theory Linked_List
  imports C_Memory
begin

text \<open>
  The doubly linked lists of \<open>core/libcutils/list.c\<close> and \<open>core/include/cutils/list.h\<close>,
  over an explicit store of list nodes. A list is a ring of nodes through its head;
  \<open>is_list\<close> relates the ring to the sequence of its items. The operations refine the
  operations on sequences as long as an item that is added is in no list. The last section
  shows what \<open>list_add_tail\<close> does to an item that is already queued.
\<close>

section \<open>Nodes and operations\<close>

record 'n listnode =
  ln_next :: "'n ptr"
  ln_prev :: "'n ptr"

type_synonym 'n lstore = "'n \<Rightarrow> 'n listnode"

text \<open>Assignments \<open>p->next = v\<close> and \<open>p->prev = v\<close>.\<close>

fun set_next :: "'n ptr \<Rightarrow> 'n ptr \<Rightarrow> 'n lstore \<Rightarrow> 'n lstore exec" where
  "set_next NULL v \<sigma> = Fault"
| "set_next (Some p) v \<sigma> = Ret (\<sigma>(p := (\<sigma> p)\<lparr>ln_next := v\<rparr>))"

fun set_prev :: "'n ptr \<Rightarrow> 'n ptr \<Rightarrow> 'n lstore \<Rightarrow> 'n lstore exec" where
  "set_prev NULL v \<sigma> = Fault"
| "set_prev (Some p) v \<sigma> = Ret (\<sigma>(p := (\<sigma> p)\<lparr>ln_prev := v\<rparr>))"

definition list_init :: "'n \<Rightarrow> 'n lstore \<Rightarrow> 'n lstore exec" where
  "list_init node \<sigma> = do {
     \<sigma> \<leftarrow> set_next (Some node) (Some node) \<sigma>;
     set_prev (Some node) (Some node) \<sigma>
   }"

definition list_add_tail :: "'n \<Rightarrow> 'n \<Rightarrow> 'n lstore \<Rightarrow> 'n lstore exec" where
  "list_add_tail head item \<sigma> = do {
     \<sigma> \<leftarrow> set_next (Some item) (Some head) \<sigma>;
     \<sigma> \<leftarrow> set_prev (Some item) (ln_prev (\<sigma> head)) \<sigma>;
     \<sigma> \<leftarrow> set_next (ln_prev (\<sigma> head)) (Some item) \<sigma>;
     set_prev (Some head) (Some item) \<sigma>
   }"

definition list_remove :: "'n \<Rightarrow> 'n lstore \<Rightarrow> 'n lstore exec" where
  "list_remove item \<sigma> = do {
     \<sigma> \<leftarrow> set_prev (ln_next (\<sigma> item)) (ln_prev (\<sigma> item)) \<sigma>;
     set_next (ln_prev (\<sigma> item)) (ln_next (\<sigma> item)) \<sigma>
   }"

definition list_empty :: "'n \<Rightarrow> 'n lstore \<Rightarrow> bool" where
  "list_empty list \<sigma> \<longleftrightarrow> ln_next (\<sigma> list) = Some list"

definition list_head :: "'n \<Rightarrow> 'n lstore \<Rightarrow> 'n ptr" where
  "list_head list \<sigma> = ln_next (\<sigma> list)"

definition list_tail :: "'n \<Rightarrow> 'n lstore \<Rightarrow> 'n ptr" where
  "list_tail list \<sigma> = ln_prev (\<sigma> list)"

text \<open>\<open>list_for_each\<close> from a node on: the nodes its body sees.\<close>

partial_function (option) for_each_from :: "'n \<Rightarrow> 'n lstore \<Rightarrow> 'n ptr \<Rightarrow> 'n list exec" where
  "for_each_from list \<sigma> node =
     (case node of
        None \<Rightarrow> Fault
      | Some n \<Rightarrow>
          if n = list then Ret []
          else do {
            ns \<leftarrow> for_each_from list \<sigma> (ln_next (\<sigma> n));
            Ret (n # ns)
          })"

definition list_for_each :: "'n \<Rightarrow> 'n lstore \<Rightarrow> 'n list exec" where
  "list_for_each list \<sigma> = for_each_from list \<sigma> (ln_next (\<sigma> list))"

section \<open>Rings\<close>

fun links :: "'n lstore \<Rightarrow> 'n list \<Rightarrow> bool" where
  "links \<sigma> (a # b # r) \<longleftrightarrow> ln_next (\<sigma> a) = Some b \<and> ln_prev (\<sigma> b) = Some a \<and> links \<sigma> (b # r)"
| "links \<sigma> _ \<longleftrightarrow> True"

definition is_list :: "'n \<Rightarrow> 'n lstore \<Rightarrow> 'n list \<Rightarrow> bool" where
  "is_list h \<sigma> xs \<longleftrightarrow> distinct (h # xs) \<and> links \<sigma> (h # xs @ [h])"

lemma links_append: "links \<sigma> (xs @ b # ys) \<longleftrightarrow> links \<sigma> (xs @ [b]) \<and> links \<sigma> (b # ys)"
  by (induction xs rule: links.induct [where ?a0.0 = \<sigma>]) auto

lemma links_cong:
  assumes "\<And>n. n \<in> set (butlast ns) \<Longrightarrow> ln_next (\<tau> n) = ln_next (\<sigma> n)"
    and "\<And>n. n \<in> set (tl ns) \<Longrightarrow> ln_prev (\<tau> n) = ln_prev (\<sigma> n)"
  shows "links \<tau> ns = links \<sigma> ns"
  using assms
proof (induction ns rule: induct_list012)
  case (3 a b r)
  have "links \<tau> (b # r) = links \<sigma> (b # r)"
    by (rule 3(2)) (use 3(3,4) in \<open>auto split: if_splits\<close>)
  with 3(3) [of a] 3(4) [of b] show ?case by simp
qed auto

lemma is_list_emptyD: "is_list h \<sigma> [] \<longleftrightarrow> ln_next (\<sigma> h) = Some h \<and> ln_prev (\<sigma> h) = Some h"
  by (simp add: is_list_def)

lemma is_list_Cons_head: "is_list h \<sigma> (x # xs) \<Longrightarrow> ln_next (\<sigma> h) = Some x \<and> ln_prev (\<sigma> x) = Some h \<and> x \<noteq> h"
  by (auto simp: is_list_def)

lemma is_list_last: "is_list h \<sigma> xs \<Longrightarrow> ln_prev (\<sigma> h) = Some (last (h # xs)) \<and> ln_next (\<sigma> (last (h # xs))) = Some h"
proof (cases xs rule: rev_cases)
  case (snoc ys y)
  assume "is_list h \<sigma> xs"
  with snoc links_append [of \<sigma> "h # ys" y "[h]"] show ?thesis by (simp add: is_list_def)
qed (simp add: is_list_def)

text \<open>The operations on rings.\<close>

lemma list_init_correct: "\<exists>\<sigma>'. list_init h \<sigma> = Ret \<sigma>' \<and> is_list h \<sigma>' [] \<and> (\<forall>n. n \<noteq> h \<longrightarrow> \<sigma>' n = \<sigma> n)"
  by (auto simp: list_init_def is_list_def)

lemma list_empty_iff: "is_list h \<sigma> xs \<Longrightarrow> list_empty h \<sigma> \<longleftrightarrow> xs = []"
  by (cases xs) (auto simp: is_list_def list_empty_def)

lemma list_head_is_list: "is_list h \<sigma> (x # xs) \<Longrightarrow> list_head h \<sigma> = Some x"
  by (simp add: is_list_def list_head_def)

lemma links_snoc: "links \<sigma> (xs @ [a, b]) \<longleftrightarrow> links \<sigma> (xs @ [a]) \<and> ln_next (\<sigma> a) = Some b \<and> ln_prev (\<sigma> b) = Some a"
  using links_append [of \<sigma> xs a "[b]"] by simp

text \<open>
  A ring around an item: the item before it, the item after it, and the two stretches between
  them and the head.
\<close>

lemma is_list_around:
  "is_list h \<sigma> (xs @ x # ys) \<longleftrightarrow>
     distinct (h # xs @ x # ys) \<and> links \<sigma> (h # xs) \<and> links \<sigma> (ys @ [h]) \<and>
     ln_next (\<sigma> (last (h # xs))) = Some x \<and> ln_prev (\<sigma> x) = Some (last (h # xs)) \<and>
     ln_next (\<sigma> x) = Some (hd (ys @ [h])) \<and> ln_prev (\<sigma> (hd (ys @ [h]))) = Some x"
proof -
  have "links \<sigma> (h # xs @ [x]) \<longleftrightarrow> links \<sigma> (h # xs) \<and> ln_next (\<sigma> (last (h # xs))) = Some x \<and> ln_prev (\<sigma> x) = Some (last (h # xs))"
    using links_snoc [of \<sigma> "butlast (h # xs)" "last (h # xs)" x] append_butlast_last_id [of "h # xs"]
    by (metis append.assoc append_Cons append_Nil list.distinct(1))
  moreover have "links \<sigma> (x # ys @ [h]) \<longleftrightarrow> ln_next (\<sigma> x) = Some (hd (ys @ [h])) \<and> ln_prev (\<sigma> (hd (ys @ [h]))) = Some x \<and> links \<sigma> (ys @ [h])"
    by (cases ys) auto
  ultimately show ?thesis using links_append [of \<sigma> "h # xs" x "ys @ [h]"] by (auto simp: is_list_def)
qed

lemma is_list_between:
  "is_list h \<sigma> (xs @ ys) \<longleftrightarrow>
     distinct (h # xs @ ys) \<and> links \<sigma> (h # xs) \<and> links \<sigma> (ys @ [h]) \<and>
     ln_next (\<sigma> (last (h # xs))) = Some (hd (ys @ [h])) \<and> ln_prev (\<sigma> (hd (ys @ [h]))) = Some (last (h # xs))"
proof -
  obtain us l where us: "h # xs = us @ [l]" by (metis rev_exhaust list.distinct(1))
  obtain n vs where vs: "ys @ [h] = n # vs" by (cases ys) auto
  have "h # (xs @ ys) @ [h] = us @ l # n # vs" using us vs by (metis append.assoc append_Cons append_Nil)
  moreover have "last (h # xs) = l" "hd (ys @ [h]) = n" using us vs by auto
  moreover have "links \<sigma> (us @ l # n # vs) \<longleftrightarrow> links \<sigma> (us @ [l]) \<and> ln_next (\<sigma> l) = Some n \<and> ln_prev (\<sigma> n) = Some l \<and> links \<sigma> (n # vs)"
    using links_append [of \<sigma> us l "n # vs"] by simp
  ultimately show ?thesis using us vs unfolding is_list_def by metis
qed

lemma last_notin_butlast: "distinct xs \<Longrightarrow> xs \<noteq> [] \<Longrightarrow> last xs \<notin> set (butlast xs)"
  by (metis append_butlast_last_id distinct_append disjoint_insert(1) list.simps(15))

lemma links_upd_stretches:
  assumes "distinct (h # xs @ ys)"
    and "\<And>n. n \<in> set (h # xs @ ys) \<Longrightarrow> n \<noteq> last (h # xs) \<Longrightarrow> ln_next (\<tau> n) = ln_next (\<sigma> n)"
    and "\<And>n. n \<in> set (h # xs @ ys) \<Longrightarrow> n \<noteq> hd (ys @ [h]) \<Longrightarrow> ln_prev (\<tau> n) = ln_prev (\<sigma> n)"
  shows "links \<tau> (h # xs) = links \<sigma> (h # xs)" "links \<tau> (ys @ [h]) = links \<sigma> (ys @ [h])"
proof -
  have l: "last (h # xs) \<notin> set (butlast (h # xs))" "last (h # xs) \<in> set (h # xs)"
    using assms(1) last_notin_butlast [of "h # xs"] by auto
  show "links \<tau> (h # xs) = links \<sigma> (h # xs)"
  proof (rule links_cong)
    fix n assume "n \<in> set (butlast (h # xs))"
    then show "ln_next (\<tau> n) = ln_next (\<sigma> n)" using l in_set_butlastD [of n "h # xs"] by (intro assms(2)) auto
  next
    fix n assume "n \<in> set (tl (h # xs))"
    then show "ln_prev (\<tau> n) = ln_prev (\<sigma> n)" using assms(1) by (intro assms(3)) (cases ys; auto)+
  qed
  show "links \<tau> (ys @ [h]) = links \<sigma> (ys @ [h])"
  proof (rule links_cong)
    fix n assume "n \<in> set (butlast (ys @ [h]))"
    then show "ln_next (\<tau> n) = ln_next (\<sigma> n)" using l(2) assms(1) by (intro assms(2)) auto
  next
    fix n assume "n \<in> set (tl (ys @ [h]))"
    then show "ln_prev (\<tau> n) = ln_prev (\<sigma> n)" using assms(1) by (intro assms(3)) (cases ys; auto)+
  qed
qed

lemma list_add_tail_correct:
  assumes "is_list h \<sigma> xs" "x \<notin> set (h # xs)"
  shows "\<exists>\<sigma>'. list_add_tail h x \<sigma> = Ret \<sigma>' \<and> is_list h \<sigma>' (xs @ [x]) \<and>
           (\<forall>n. n \<notin> set (h # x # xs) \<longrightarrow> \<sigma>' n = \<sigma> n)"
proof -
  let ?l = "last (h # xs)"
  have b: "distinct (h # xs)" "links \<sigma> (h # xs)" "ln_prev (\<sigma> h) = Some ?l"
    using assms(1) is_list_between [of h \<sigma> xs "[]"] by auto
  have ls: "?l \<in> set (h # xs)" by simp
  with assms(2) have lx: "?l \<noteq> x" "x \<noteq> h" by auto
  define \<sigma>' where "\<sigma>' = (\<lambda>n. if n = x then \<lparr>ln_next = Some h, ln_prev = Some ?l, \<dots> = listnode.more (\<sigma> x)\<rparr>
      else (\<sigma> n)\<lparr>ln_next := (if n = ?l then Some x else ln_next (\<sigma> n)), ln_prev := (if n = h then Some x else ln_prev (\<sigma> n))\<rparr>)"
  have r: "list_add_tail h x \<sigma> = Ret \<sigma>'"
    using b(3) lx by (simp add: list_add_tail_def \<sigma>'_def fun_eq_iff)
  have "links \<sigma>' (h # xs) = links \<sigma> (h # xs)"
    by (rule links_upd_stretches(1) [where ys = "[]"])
      (use b(1) assms(2) in \<open>auto simp: \<sigma>'_def simp del: last.simps\<close>)
  with b(2) have "links \<sigma>' (h # xs)" by simp
  with lx b(1) assms(2) have "is_list h \<sigma>' (xs @ [x])"
    unfolding is_list_around by (simp add: \<sigma>'_def del: last.simps)
  moreover have "\<sigma>' n = \<sigma> n" if "n \<notin> set (h # x # xs)" for n
    using that ls by (auto simp: \<sigma>'_def)
  ultimately show ?thesis using r by blast
qed

lemma list_remove_correct:
  assumes "is_list h \<sigma> (xs @ x # ys)"
  shows "\<exists>\<sigma>'. list_remove x \<sigma> = Ret \<sigma>' \<and> is_list h \<sigma>' (xs @ ys) \<and>
           (\<forall>n. n \<notin> set (h # xs @ ys) \<longrightarrow> \<sigma>' n = \<sigma> n)"
proof -
  let ?p = "last (h # xs)" and ?n = "hd (ys @ [h])"
  have b: "distinct (h # xs @ x # ys)" "links \<sigma> (h # xs)" "links \<sigma> (ys @ [h])"
      "ln_next (\<sigma> ?p) = Some x" "ln_prev (\<sigma> x) = Some ?p" "ln_next (\<sigma> x) = Some ?n" "ln_prev (\<sigma> ?n) = Some x"
    using assms unfolding is_list_around by blast+
  have ps: "?p \<in> set (h # xs)" "?n \<in> set (h # ys)" by (auto simp: hd_append)
  with b(1) have ne: "?p \<noteq> x" "?n \<noteq> x" by auto
  define \<sigma>' where "\<sigma>' = (\<lambda>n. (\<sigma> n)\<lparr>ln_next := (if n = ?p then Some ?n else ln_next (\<sigma> n)),
      ln_prev := (if n = ?n then Some ?p else ln_prev (\<sigma> n))\<rparr>)"
  have r: "list_remove x \<sigma> = Ret \<sigma>'"
    using b ne by (auto simp: list_remove_def \<sigma>'_def fun_eq_iff)
  have "distinct (h # xs @ ys)" using b(1) by auto
  then have "links \<sigma>' (h # xs) = links \<sigma> (h # xs)" "links \<sigma>' (ys @ [h]) = links \<sigma> (ys @ [h])"
    by (rule links_upd_stretches; simp add: \<sigma>'_def del: last.simps)+
  with b(2,3) have "links \<sigma>' (h # xs)" "links \<sigma>' (ys @ [h])" by simp_all
  with \<open>distinct (h # xs @ ys)\<close> have "is_list h \<sigma>' (xs @ ys)"
    unfolding is_list_between by (simp add: \<sigma>'_def del: last.simps)
  moreover have "\<sigma>' n = \<sigma> n" if "n \<notin> set (h # xs @ ys)" for n
    using that ps by (auto simp: \<sigma>'_def)
  ultimately show ?thesis using r by blast
qed

lemma for_each_from_links:
  "h \<notin> set xs \<Longrightarrow> links \<sigma> (xs @ [h]) \<Longrightarrow> for_each_from h \<sigma> (Some (hd (xs @ [h]))) = Ret xs"
proof (induction xs)
  case Nil
  then show ?case by (subst for_each_from.simps) simp
next
  case (Cons x xs)
  then have "ln_next (\<sigma> x) = Some (hd (xs @ [h]))" "links \<sigma> (xs @ [h])" by (cases xs; simp)+
  with Cons show ?case by (subst for_each_from.simps) auto
qed

text \<open>The loop over a list visits its items in order and ends.\<close>

lemma list_for_each_correct: "is_list h \<sigma> xs \<Longrightarrow> list_for_each h \<sigma> = Ret xs"
  using is_list_between [of h \<sigma> "[]" xs] for_each_from_links [of h xs \<sigma>] by (simp add: list_for_each_def)

section \<open>Adding an item that is already in the list\<close>

text \<open>
  An item that is first in the ring but whose backward link does not lead to the head cannot be
  taken off: removing it leaves the store in the same situation.
\<close>

definition stuck :: "'n \<Rightarrow> 'n \<Rightarrow> 'n lstore \<Rightarrow> bool" where
  "stuck h x \<sigma> \<longleftrightarrow> x \<noteq> h \<and> ln_next (\<sigma> h) = Some x \<and> (\<exists>n. ln_next (\<sigma> x) = Some n) \<and>
     (\<exists>p. ln_prev (\<sigma> x) = Some p \<and> p \<noteq> h)"

lemma stuck_remove:
  assumes "stuck h x \<sigma>"
  shows "\<exists>\<sigma>'. list_remove x \<sigma> = Ret \<sigma>' \<and> stuck h x \<sigma>'"
  using assms by (auto simp: stuck_def list_remove_def)

lemma requeue_first_stuck:
  assumes "is_list h \<sigma> (x # xs)"
  shows "\<exists>\<sigma>'. list_add_tail h x \<sigma> = Ret \<sigma>' \<and> stuck h x \<sigma>'"
proof -
  have "x \<noteq> h" "ln_next (\<sigma> h) = Some x" using is_list_Cons_head [OF assms] by auto
  moreover have "ln_prev (\<sigma> h) = Some (last (x # xs))" "last (x # xs) \<in> set (x # xs)"
    using is_list_last [OF assms] by auto
  moreover have "h \<notin> set (x # xs)" using assms by (auto simp: is_list_def)
  ultimately show ?thesis by (auto simp: list_add_tail_def stuck_def simp del: last.simps)
qed

text \<open>Adding an item from the middle again drops every item behind it.\<close>

lemma requeue_drops:
  assumes "is_list h \<sigma> (xs @ x # ys)" "ys \<noteq> []"
  shows "\<exists>\<sigma>'. list_add_tail h x \<sigma> = Ret \<sigma>' \<and> list_for_each h \<sigma>' = Ret (xs @ [x])"
proof -
  let ?l = "last ys"
  have l: "ln_prev (\<sigma> h) = Some ?l" using is_list_last [OF assms(1)] assms(2) by simp
  have d: "distinct (h # xs @ x # ys)" and k: "links \<sigma> (h # xs)" "ln_next (\<sigma> (last (h # xs))) = Some x"
    using assms(1) unfolding is_list_around by blast+
  have ly: "?l \<in> set ys" using assms(2) by simp
  with d have ne: "?l \<noteq> x" "?l \<noteq> h" "?l \<notin> set xs" "x \<noteq> h" by auto
  define \<sigma>' where "\<sigma>' = (\<lambda>n. if n = x then \<lparr>ln_next = Some h, ln_prev = Some ?l, \<dots> = listnode.more (\<sigma> x)\<rparr>
      else (\<sigma> n)\<lparr>ln_next := (if n = ?l then Some x else ln_next (\<sigma> n)), ln_prev := (if n = h then Some x else ln_prev (\<sigma> n))\<rparr>)"
  have r: "list_add_tail h x \<sigma> = Ret \<sigma>'" using l ne by (auto simp: list_add_tail_def \<sigma>'_def fun_eq_iff)
  have "for_each_from h \<sigma>' (Some (hd (zs @ [x]))) = Ret (zs @ [x])"
    if "set zs \<subseteq> set xs" "zs \<noteq> [] \<Longrightarrow> links \<sigma> zs \<and> ln_next (\<sigma> (last zs)) = Some x" for zs
    using that
  proof (induction zs)
    case Nil
    have "for_each_from h \<sigma>' (Some h) = Ret []" by (subst for_each_from.simps) simp
    with ne show ?case by (subst for_each_from.simps) (simp add: \<sigma>'_def)
  next
    case (Cons z zs)
    from Cons.prems have z: "z \<in> set xs" by simp
    with d ne have "z \<noteq> h" "z \<noteq> x" "z \<noteq> ?l" by auto
    moreover have "ln_next (\<sigma> z) = Some (hd (zs @ [x]))" using Cons.prems by (cases zs) auto
    moreover have "zs \<noteq> [] \<Longrightarrow> links \<sigma> zs \<and> ln_next (\<sigma> (last zs)) = Some x" using Cons.prems by (cases zs) auto
    ultimately show ?case using Cons by (subst for_each_from.simps) (auto simp: \<sigma>'_def)
  qed
  from this [of xs] k have "for_each_from h \<sigma>' (Some (hd (xs @ [x]))) = Ret (xs @ [x])" by (cases xs) auto
  moreover have "ln_next (\<sigma>' h) = Some (hd (xs @ [x]))" using k ne by (cases xs) (auto simp: \<sigma>'_def)
  ultimately show ?thesis using r by (simp add: list_for_each_def)
qed

end
