(* ===== verification/Init_State.thy ===== *)
theory Init_State
  imports Init_Keywords Linked_List
begin

text \<open>
  The data of init (\<open>core/init/init.h\<close> and the file-scope variables of its sources): commands,
  actions, services, the property area, and the environment init asks. A service is
  named by its position in \<open>service_list\<close>, an action by its position in \<open>action_list\<close>; nothing
  is ever taken off these lists. The queue of pending actions is the ring of list nodes that
  the source has, because an action can be put on it twice.
\<close>

section \<open>Commands, actions and services\<close>

record command =
  cmd_func :: func
  cmd_nargs :: nat
  cmd_args :: "string list"

record action =
  act_name :: string
  act_commands :: "command list"

record socketinfo =
  si_name :: string
  si_type :: string
  si_uid :: u32
  si_gid :: u32
  si_perm :: u32

record svcenvinfo =
  ei_name :: string
  ei_value :: string

datatype IoSchedClass = IoSchedClass_NONE | IoSchedClass_RT | IoSchedClass_BE | IoSchedClass_IDLE

record service =
  svc_name :: string
  svc_classname :: string
  svc_flags :: u32
  svc_pid :: int
  svc_time_started :: int
  svc_time_crashed :: int
  svc_nr_crashed :: int
  svc_uid :: u32
  svc_gid :: u32
  svc_supp_gids :: "u32 list"
  svc_nr_supp_gids :: nat
  svc_sockets :: "socketinfo list"
  svc_envvars :: "svcenvinfo list"
  svc_onrestart :: "command list"
  svc_keycodes :: "int list ptr"
  svc_nkeycodes :: nat
  svc_keychord_id :: int
  svc_ioprio_class :: IoSchedClass
  svc_ioprio_pri :: int
  svc_nargs :: nat
  svc_args :: "string list"

definition SVC_DISABLED :: u32 where "SVC_DISABLED = 0x01"
definition SVC_ONESHOT :: u32 where "SVC_ONESHOT = 0x02"
definition SVC_RUNNING :: u32 where "SVC_RUNNING = 0x04"
definition SVC_RESTARTING :: u32 where "SVC_RESTARTING = 0x08"
definition SVC_CONSOLE :: u32 where "SVC_CONSOLE = 0x10"
definition SVC_CRITICAL :: u32 where "SVC_CRITICAL = 0x20"
definition SVC_RESET :: u32 where "SVC_RESET = 0x40"
definition SVC_RC_DISABLED :: u32 where "SVC_RC_DISABLED = 0x80"

definition NR_SVC_SUPP_GIDS :: nat where "NR_SVC_SUPP_GIDS = 12"

lemmas svc_flag_defs = SVC_DISABLED_def SVC_ONESHOT_def SVC_RUNNING_def SVC_RESTARTING_def
  SVC_CONSOLE_def SVC_CRITICAL_def SVC_RESET_def SVC_RC_DISABLED_def

text \<open>\<open>svc->flags & f\<close> as a condition.\<close>

definition flagged :: "service \<Rightarrow> u32 \<Rightarrow> bool" where
  "flagged svc f \<longleftrightarrow> svc_flags svc AND f \<noteq> 0"

section \<open>The property area\<close>

definition PROP_NAME_MAX :: nat where "PROP_NAME_MAX = 32"
definition PROP_VALUE_MAX :: nat where "PROP_VALUE_MAX = 92"
definition PA_COUNT_MAX :: nat where "PA_COUNT_MAX = 247"
definition PA_INFO_START :: nat where "PA_INFO_START = 1024"

record prop_info =
  pi_name :: string
  pi_serial :: u32
  pi_value :: string

text \<open>The entries in use and their table of contents, whose length is \<open>pa->count\<close>.\<close>

record prop_area =
  pa_serial :: u32
  pa_toc :: "u32 list"
  pa_infos :: "prop_info list"

section \<open>What init asks the system, and what it tells it\<close>

text \<open>
  The answers of the kernel and of libraries outside the repository are arguments: each
  may depend on how many questions were asked before, so no answer is fixed. \<open>os_zombies\<close> are
  the processes \<open>waitpid\<close> returns before it has no more. \<open>os_find\<close> is
  bionic's \<open>__system_property_find\<close>, the position of the entry with a name, and \<open>os_path\<close> its
  names of the property files.
\<close>

datatype prop_path = PROP_PATH_RAMDISK_DEFAULT | PROP_PATH_SYSTEM_BUILD | PROP_PATH_SYSTEM_DEFAULT | PROP_PATH_LOCAL_OVERRIDE

record os =
  os_time :: "nat \<Rightarrow> int"
  os_stat :: "nat \<Rightarrow> string \<Rightarrow> bool"
  os_fork :: "nat \<Rightarrow> int"
  os_file :: "nat \<Rightarrow> string \<Rightarrow> (u32 \<times> string) ptr"
  os_persist_dir :: "nat \<Rightarrow> (string \<times> string ptr) list ptr"
  os_syspara :: "nat \<Rightarrow> string \<Rightarrow> string ptr"
  os_socket :: "nat \<Rightarrow> string \<Rightarrow> int"
  os_workspace :: "nat \<Rightarrow> string"
  os_zombies :: "nat \<Rightarrow> int list"
  os_command :: "nat \<Rightarrow> func \<Rightarrow> string list \<Rightarrow> int"
  os_path :: "prop_path \<Rightarrow> string"
  os_find :: "prop_area \<Rightarrow> string \<Rightarrow> nat ptr"

text \<open>The contract of \<open>__system_property_find\<close>.\<close>

definition find_ok :: "(prop_area \<Rightarrow> string \<Rightarrow> nat ptr) \<Rightarrow> bool" where
  "find_ok fnd \<longleftrightarrow> (\<forall>pa name. case fnd pa name of
     None \<Rightarrow> name \<notin> pi_name ` set (pa_infos pa)
   | Some i \<Rightarrow> i < length (pa_infos pa) \<and> pi_name (pa_infos pa ! i) = name)"

record child =
  ch_args :: "string list"
  ch_env :: "string ptr list"
  ch_uid :: u32
  ch_gid :: u32
  ch_groups :: "u32 list"
  ch_console :: bool

datatype signal = SIGTERM | SIGKILL

text \<open>The effects of init on the system, in the order they happen.\<close>

datatype effect =
    Fork int child
  | Kill int signal
  | Reboot string
  | Persist string string
  | Unlink string
  | Gpio bool string
  | Command func "string list"
  | Exit

section \<open>The state of init\<close>

datatype qnode = Queue | Qlist nat

record init_state =
  service_list :: "service list"
  action_list :: "action list"
  action_queue :: "qnode lstore"
  cur_action :: "nat ptr"
  cur_command :: "nat ptr"
  property_triggers_enabled :: bool
  prop_area :: prop_area
  property_area_inited :: bool
  persistent_properties_loaded :: bool
  property_set_fd :: int
  signal_fd :: int
  have_console :: bool
  process_needs_restart :: int
  ENV :: "string ptr list"
  os_calls :: nat
  effects :: "effect list"

text \<open>One question to the system.\<close>

definition ask :: "(nat \<Rightarrow> 'a) \<Rightarrow> init_state \<Rightarrow> 'a \<times> init_state" where
  "ask q st = (q (os_calls st), st\<lparr>os_calls := Suc (os_calls st)\<rparr>)"

definition tell :: "effect \<Rightarrow> init_state \<Rightarrow> init_state" where
  "tell e st = st\<lparr>effects := effects st @ [e]\<rparr>"

text \<open>\<open>gettime\<close> of \<open>core/init/util.c\<close>: the seconds of the monotonic clock.\<close>

definition gettime :: "os \<Rightarrow> init_state \<Rightarrow> int \<times> init_state" where
  "gettime os st = ask (os_time os) st"

text \<open>Assignments through a pointer to a service.\<close>

definition upd_svc :: "nat \<Rightarrow> (service \<Rightarrow> service) \<Rightarrow> init_state \<Rightarrow> init_state" where
  "upd_svc i f st = st\<lparr>service_list := (service_list st)[i := f (service_list st ! i)]\<rparr>"

text \<open>\<open>strncmp(p, s, strlen(p)) == 0\<close>.\<close>

definition prefixed :: "string \<Rightarrow> string \<Rightarrow> bool" where
  "prefixed p s \<longleftrightarrow> strncmp_eq p s (length p)"

lemma prefixed_iff: "prefixed p s \<longleftrightarrow> (\<exists>t. s = p @ t)"
  by (auto simp: prefixed_def strncmp_eq_def) (metis append_take_drop_id)

text \<open>A loop over a list whose body may fault.\<close>

fun for_each :: "('a \<Rightarrow> 's \<Rightarrow> 's exec) \<Rightarrow> 'a list \<Rightarrow> 's \<Rightarrow> 's exec" where
  "for_each f [] st = Ret st"
| "for_each f (x # xs) st = do { st \<leftarrow> f x st; for_each f xs st }"

lemma for_each_append: "for_each f (xs @ ys) st = do { st \<leftarrow> for_each f xs st; for_each f ys st }"
  by (induction xs arbitrary: st) (auto simp: Option.bind_assoc intro!: Option.bind_cong)

text \<open>A loop keeps what its body keeps.\<close>

lemma for_each_inv:
  assumes "for_each f xs st = Ret st'" "P st"
    and "\<And>x st st'. x \<in> set xs \<Longrightarrow> P st \<Longrightarrow> f x st = Ret st' \<Longrightarrow> P st'"
  shows "P st'"
  using assms
proof (induction xs arbitrary: st)
  case (Cons x xs)
  then obtain st1 where "f x st = Ret st1" "for_each f xs st1 = Ret st'" by (auto simp: bind_eq_Some_conv)
  with Cons show ?case by (metis list.set_intros)
qed simp

lemma for_each_total:
  assumes "P st" "\<And>x st. x \<in> set xs \<Longrightarrow> P st \<Longrightarrow> \<exists>st'. f x st = Ret st' \<and> P st'"
  shows "\<exists>st'. for_each f xs st = Ret st' \<and> P st'"
  using assms
proof (induction xs arbitrary: st)
  case (Cons x xs)
  obtain st1 where "f x st = Ret st1" "P st1" using Cons.prems by (meson list.set_intros(1))
  with Cons show ?case by (metis list.set_intros(2) for_each.simps(2) Option.bind_lunit)
qed simp

end
