(* ===== verification/Init_Queue.thy ===== *)
theory Init_Queue
  imports Init_State
begin

text \<open>
  The queue of pending actions of init (\<open>core/init/init_parser.c\<close>): adding, removing and the
  loops that queue the actions of a trigger or of a changed property. The locale \<open>fifo\<close> is what
  the users of the queue rely on; it holds as long as no action is queued twice, which the
  sources do not ensure.
\<close>

section \<open>Operations\<close>

definition action_add_queue_tail :: "nat \<Rightarrow> init_state \<Rightarrow> init_state exec" where
  "action_add_queue_tail act st = do {
     \<sigma> \<leftarrow> list_add_tail Queue (Qlist act) (action_queue st);
     Ret (st\<lparr>action_queue := \<sigma>\<rparr>)
   }"

definition action_remove_queue_head :: "init_state \<Rightarrow> (nat ptr \<times> init_state) exec" where
  "action_remove_queue_head st =
     (if list_empty Queue (action_queue st) then Ret (NULL, st)
      else case list_head Queue (action_queue st) of
        Some (Qlist act) \<Rightarrow> do {
          \<sigma> \<leftarrow> list_remove (Qlist act) (action_queue st);
          Ret (Some act, st\<lparr>action_queue := \<sigma>\<rparr>)
        }
      | _ \<Rightarrow> Fault)"

definition action_queue_empty :: "init_state \<Rightarrow> bool" where
  "action_queue_empty st \<longleftrightarrow> list_empty Queue (action_queue st)"

definition action_for_each_trigger :: "string \<Rightarrow> (nat \<Rightarrow> init_state \<Rightarrow> init_state exec) \<Rightarrow> init_state \<Rightarrow> init_state exec" where
  "action_for_each_trigger trigger fn st =
     for_each (\<lambda>act st. if act_name (action_list st ! act) = trigger then fn act st else Ret st)
       [0..<length (action_list st)] st"

text \<open>Does the trigger \<open>property:<name>=<value>\<close> match a property that is set?\<close>

definition property_trigger :: "string \<Rightarrow> string \<Rightarrow> string \<Rightarrow> bool" where
  "property_trigger trigger name value \<longleftrightarrow>
     prefixed ''property:'' trigger \<and>
     (let test = drop (length ''property:'') trigger; name_length = length name
      in strncmp_eq name test name_length \<and> take 1 (drop name_length test) = ''='' \<and>
         (drop (name_length + 1) test = value \<or> drop (name_length + 1) test = ''*''))"

definition queue_property_triggers :: "string \<Rightarrow> string \<Rightarrow> init_state \<Rightarrow> init_state exec" where
  "queue_property_triggers name value st =
     for_each (\<lambda>act st. if property_trigger (act_name (action_list st ! act)) name value
         then action_add_queue_tail act st else Ret st)
       [0..<length (action_list st)] st"

text \<open>\<open>calloc\<close> clears the list nodes of the new action.\<close>

definition queue_builtin_action :: "func \<Rightarrow> string \<Rightarrow> init_state \<Rightarrow> init_state exec" where
  "queue_builtin_action fn name st =
     (let cmd = \<lparr>cmd_func = fn, cmd_nargs = 0, cmd_args = [name]\<rparr>;
          act = \<lparr>act_name = name, act_commands = [cmd]\<rparr>;
          i = length (action_list st)
      in action_add_queue_tail i (st\<lparr>action_list := action_list st @ [act],
           action_queue := (action_queue st)(Qlist i := \<lparr>ln_next = NULL, ln_prev = NULL\<rparr>)\<rparr>))"

definition property_changed :: "string \<Rightarrow> string \<Rightarrow> init_state \<Rightarrow> init_state exec" where
  "property_changed name value st =
     (if property_triggers_enabled st then queue_property_triggers name value st else Ret st)"

section \<open>The contract of a queue\<close>

fun drain :: "('s \<Rightarrow> ('a ptr \<times> 's) exec) \<Rightarrow> nat \<Rightarrow> 's \<Rightarrow> ('a ptr list \<times> 's) exec" where
  "drain get 0 s = Ret ([], s)"
| "drain get (Suc n) s = do { (x, s) \<leftarrow> get s; (xs, s) \<leftarrow> drain get n s; Ret (x # xs, s) }"

locale fifo =
  fixes rep :: "'s \<Rightarrow> 'a list \<Rightarrow> bool"
    and put :: "'a \<Rightarrow> 's \<Rightarrow> 's exec"
    and get :: "'s \<Rightarrow> ('a ptr \<times> 's) exec"
  assumes put: "rep s xs \<Longrightarrow> a \<notin> set xs \<Longrightarrow> \<exists>s'. put a s = Ret s' \<and> rep s' (xs @ [a])"
    and get_empty: "rep s [] \<Longrightarrow> get s = Ret (NULL, s)"
    and get_first: "rep s (x # xs) \<Longrightarrow> \<exists>s'. get s = Ret (Some x, s') \<and> rep s' xs"
begin

lemma put_all:
  "rep s xs \<Longrightarrow> distinct ys \<Longrightarrow> set xs \<inter> set ys = {} \<Longrightarrow> \<exists>s'. for_each put ys s = Ret s' \<and> rep s' (xs @ ys)"
proof (induction ys arbitrary: s xs)
  case (Cons y ys)
  then obtain s1 where "put y s = Ret s1" "rep s1 (xs @ [y])" using put [of s xs y] by auto
  moreover have "\<exists>s'. for_each put ys s1 = Ret s' \<and> rep s' ((xs @ [y]) @ ys)"
    using Cons.prems calculation by (intro Cons.IH) auto
  ultimately show ?case by auto
qed simp

lemma drain_all: "rep s xs \<Longrightarrow> \<exists>s'. drain get (length xs) s = Ret (map Some xs, s') \<and> rep s' []"
proof (induction xs arbitrary: s)
  case (Cons x xs)
  then obtain s1 where "get s = Ret (Some x, s1)" "rep s1 xs" using get_first by blast
  with Cons.IH [of s1] show ?case by auto
qed simp

text \<open>What goes in comes out, in order and once.\<close>

lemma in_order:
  assumes "rep s xs" "distinct ys" "set xs \<inter> set ys = {}"
  shows "\<exists>s' s''. for_each put ys s = Ret s' \<and>
    drain get (length xs + length ys) s' = Ret (map Some (xs @ ys), s'') \<and> get s'' = Ret (NULL, s'')"
proof -
  obtain s' where s': "for_each put ys s = Ret s'" "rep s' (xs @ ys)" using put_all [OF assms] by blast
  then obtain s'' where "drain get (length (xs @ ys)) s' = Ret (map Some (xs @ ys), s'')" "rep s'' []"
    using drain_all by blast
  with s' get_empty show ?thesis by auto
qed

end

text \<open>The queue of init holds the actions \<open>xs\<close>.\<close>

definition queued :: "init_state \<Rightarrow> nat list \<Rightarrow> bool" where
  "queued st xs \<longleftrightarrow> is_list Queue (action_queue st) (map Qlist xs)"

interpretation aq: fifo queued action_add_queue_tail action_remove_queue_head
proof
  fix st xs and act :: nat
  assume q: "queued st xs" "act \<notin> set xs"
  then have "Qlist act \<notin> set (Queue # map Qlist xs)" by auto
  with q(1) obtain \<sigma> where "list_add_tail Queue (Qlist act) (action_queue st) = Ret \<sigma>" "is_list Queue \<sigma> (map Qlist xs @ [Qlist act])"
    using list_add_tail_correct [of Queue "action_queue st"] by (metis queued_def)
  then show "\<exists>st'. action_add_queue_tail act st = Ret st' \<and> queued st' (xs @ [act])"
    by (simp add: queued_def action_add_queue_tail_def)
next
  fix st
  assume "queued st []"
  then show "action_remove_queue_head st = Ret (NULL, st)"
    by (simp add: queued_def action_remove_queue_head_def list_empty_iff)
next
  fix st x xs
  assume "queued st (x # xs)"
  then show "\<exists>st'. action_remove_queue_head st = Ret (Some x, st') \<and> queued st' xs"
    using list_empty_iff [of Queue "action_queue st"] list_head_is_list [of Queue "action_queue st"]
      list_remove_correct [of Queue "action_queue st" "[]" "Qlist x" "map Qlist xs"]
    by (auto simp: queued_def action_remove_queue_head_def)
qed

section \<open>Frame facts\<close>

text \<open>The operations change nothing but the queue.\<close>

definition requeued :: "init_state \<Rightarrow> init_state \<Rightarrow> bool" where
  "requeued st st' \<longleftrightarrow> (\<exists>\<sigma>. st' = st\<lparr>action_queue := \<sigma>\<rparr>)"

lemma requeued_refl [simp, intro]: "requeued st st"
proof -
  have "st = st\<lparr>action_queue := action_queue st\<rparr>" by simp
  then show ?thesis unfolding requeued_def by (rule exI [of _ "action_queue st"])
qed

lemma requeued_trans [trans]: "requeued st st' \<Longrightarrow> requeued st' st'' \<Longrightarrow> requeued st st''"
  by (auto simp: requeued_def)

lemma requeued_fields:
  assumes "requeued st st'"
  shows "service_list st' = service_list st" "action_list st' = action_list st"
    "cur_action st' = cur_action st" "cur_command st' = cur_command st"
    "property_triggers_enabled st' = property_triggers_enabled st" "prop_area st' = prop_area st"
    "property_area_inited st' = property_area_inited st" "persistent_properties_loaded st' = persistent_properties_loaded st"
    "property_set_fd st' = property_set_fd st" "signal_fd st' = signal_fd st" "have_console st' = have_console st"
    "process_needs_restart st' = process_needs_restart st" "ENV st' = ENV st" "os_calls st' = os_calls st" "effects st' = effects st"
  using assms by (auto simp: requeued_def)

lemma action_add_queue_tail_frame: "action_add_queue_tail act st = Ret st' \<Longrightarrow> requeued st st'"
  by (auto simp: action_add_queue_tail_def bind_eq_Some_conv requeued_def)

lemma action_remove_queue_head_frame: "action_remove_queue_head st = Ret (a, st') \<Longrightarrow> requeued st st'"
proof (cases "list_empty Queue (action_queue st)")
  case False
  assume "action_remove_queue_head st = Ret (a, st')"
  with False show ?thesis
    unfolding action_remove_queue_head_def requeued_def
    by (auto simp: bind_eq_Some_conv split: option.splits qnode.splits)
qed (simp add: action_remove_queue_head_def)

lemma for_each_frame:
  assumes "for_each f xs st = Ret st'" "\<And>x st st'. f x st = Ret st' \<Longrightarrow> requeued st st'"
  shows "requeued st st'"
  by (rule for_each_inv [OF assms(1), where P = "requeued st"]) (auto intro: requeued_trans assms(2))

lemma queue_property_triggers_frame: "queue_property_triggers name value st = Ret st' \<Longrightarrow> requeued st st'"
  unfolding queue_property_triggers_def
  by (erule for_each_frame) (auto dest: action_add_queue_tail_frame split: if_splits)

lemma property_changed_frame: "property_changed name value st = Ret st' \<Longrightarrow> requeued st st'"
  by (auto simp: property_changed_def dest: queue_property_triggers_frame split: if_splits)

section \<open>Order of the queue, and actions queued twice\<close>

text \<open>
  C37. Actions leave the queue in the order they entered it, each once, and then the queue is
  empty: as long as the actions that are added differ from each other and from those
  already waiting.
\<close>

theorem action_queue_fifo:
  assumes "queued st xs" "distinct ys" "set xs \<inter> set ys = {}"
  shows "\<exists>st1 st2. for_each action_add_queue_tail ys st = Ret st1 \<and>
    drain action_remove_queue_head (length xs + length ys) st1 = Ret (map Some (xs @ ys), st2) \<and>
    action_queue_empty st2"
proof -
  obtain st1 st2 where "for_each action_add_queue_tail ys st = Ret st1"
      "drain action_remove_queue_head (length xs + length ys) st1 = Ret (map Some (xs @ ys), st2)"
      "action_remove_queue_head st2 = Ret (NULL, st2)"
    using aq.in_order [OF assms] by blast
  moreover from this(3) have "action_queue_empty st2"
    by (auto simp: action_queue_empty_def action_remove_queue_head_def bind_eq_Some_conv split: if_splits option.splits qnode.splits)
  ultimately show ?thesis by blast
qed

definition init_start :: init_state where
  "init_start = \<lparr>service_list = [], action_list = [], action_queue = (\<lambda>_. \<lparr>ln_next = Some Queue, ln_prev = Some Queue\<rparr>),
     cur_action = NULL, cur_command = NULL, property_triggers_enabled = False,
     prop_area = \<lparr>pa_serial = 0, pa_toc = [], pa_infos = []\<rparr>, property_area_inited = False,
     persistent_properties_loaded = False, property_set_fd = -1, signal_fd = -1, have_console = False, process_needs_restart = 0,
     ENV = replicate 32 NULL, os_calls = 0, effects = []\<rparr>"

lemma queued_init_start [simp]: "queued init_start []"
  by (simp add: queued_def is_list_def init_start_def)

theorem action_queue_fifo_witness:
  "\<exists>st1 st2. for_each action_add_queue_tail [2, 0, 1] init_start = Ret st1 \<and>
    drain action_remove_queue_head (length ([] :: nat list) + length [2, 0, 1 :: nat]) st1 = Ret (map Some ([] @ [2, 0, 1]), st2) \<and>
    action_queue_empty st2"
  by (rule action_queue_fifo) simp_all

lemma stuck_head:
  assumes "stuck Queue (Qlist act) (action_queue st)"
  shows "\<exists>st'. action_remove_queue_head st = Ret (Some act, st') \<and> stuck Queue (Qlist act) (action_queue st')"
proof -
  obtain \<sigma> where r: "list_remove (Qlist act) (action_queue st) = Ret \<sigma>" "stuck Queue (Qlist act) \<sigma>"
    using stuck_remove [OF assms] by blast
  moreover have "\<not> list_empty Queue (action_queue st)" "list_head Queue (action_queue st) = Some (Qlist act)"
    using assms by (simp_all add: stuck_def list_empty_def list_head_def)
  ultimately have "action_remove_queue_head st = Ret (Some act, st\<lparr>action_queue := \<sigma>\<rparr>)"
    by (simp add: action_remove_queue_head_def)
  moreover have "stuck Queue (Qlist act) (action_queue (st\<lparr>action_queue := \<sigma>\<rparr>))" using r(2) by simp
  ultimately show ?thesis by blast
qed

lemma stuck_drain:
  "stuck Queue (Qlist act) (action_queue st) \<Longrightarrow>
     \<exists>st'. drain action_remove_queue_head n st = Ret (replicate n (Some act), st')"
proof (induction n arbitrary: st)
  case (Suc n)
  from stuck_head [OF Suc.prems] obtain st1 where st1: "action_remove_queue_head st = Ret (Some act, st1)"
    "stuck Queue (Qlist act) (action_queue st1)" by blast
  from Suc.IH [OF this(2)] obtain st2 where "drain action_remove_queue_head n st1 = Ret (replicate n (Some act), st2)"
    by blast
  with st1(1) show ?case by simp
qed simp



end
