(* ===== verification/Init_Property.thy ===== *)
theory Init_Property
  imports Init_Queue
begin

text \<open>
  The property service of init (\<open>core/init/property_service.c\<close>), in the build without SELinux:
  the property area and its update, the permission tables, and the loading of property files.
  The user and group numbers are those of \<open>core/include/private/android_filesystem_config.h\<close>.
\<close>

section \<open>User and group numbers\<close>

abbreviation (input) AID_ROOT :: u32 where "AID_ROOT \<equiv> 0"
abbreviation (input) AID_SYSTEM :: u32 where "AID_SYSTEM \<equiv> 1000"
abbreviation (input) AID_RADIO :: u32 where "AID_RADIO \<equiv> 1001"
abbreviation (input) AID_BLUETOOTH :: u32 where "AID_BLUETOOTH \<equiv> 1002"
abbreviation (input) AID_GRAPHICS :: u32 where "AID_GRAPHICS \<equiv> 1003"
abbreviation (input) AID_INPUT :: u32 where "AID_INPUT \<equiv> 1004"
abbreviation (input) AID_AUDIO :: u32 where "AID_AUDIO \<equiv> 1005"
abbreviation (input) AID_CAMERA :: u32 where "AID_CAMERA \<equiv> 1006"
abbreviation (input) AID_LOG :: u32 where "AID_LOG \<equiv> 1007"
abbreviation (input) AID_COMPASS :: u32 where "AID_COMPASS \<equiv> 1008"
abbreviation (input) AID_MOUNT :: u32 where "AID_MOUNT \<equiv> 1009"
abbreviation (input) AID_WIFI :: u32 where "AID_WIFI \<equiv> 1010"
abbreviation (input) AID_ADB :: u32 where "AID_ADB \<equiv> 1011"
abbreviation (input) AID_INSTALL :: u32 where "AID_INSTALL \<equiv> 1012"
abbreviation (input) AID_MEDIA :: u32 where "AID_MEDIA \<equiv> 1013"
abbreviation (input) AID_DHCP :: u32 where "AID_DHCP \<equiv> 1014"
abbreviation (input) AID_SDCARD_RW :: u32 where "AID_SDCARD_RW \<equiv> 1015"
abbreviation (input) AID_VPN :: u32 where "AID_VPN \<equiv> 1016"
abbreviation (input) AID_KEYSTORE :: u32 where "AID_KEYSTORE \<equiv> 1017"
abbreviation (input) AID_USB :: u32 where "AID_USB \<equiv> 1018"
abbreviation (input) AID_DRM :: u32 where "AID_DRM \<equiv> 1019"
abbreviation (input) AID_MDNSR :: u32 where "AID_MDNSR \<equiv> 1020"
abbreviation (input) AID_GPS :: u32 where "AID_GPS \<equiv> 1021"
abbreviation (input) AID_MEDIA_RW :: u32 where "AID_MEDIA_RW \<equiv> 1023"
abbreviation (input) AID_MTP :: u32 where "AID_MTP \<equiv> 1024"
abbreviation (input) AID_DRMRPC :: u32 where "AID_DRMRPC \<equiv> 1026"
abbreviation (input) AID_NFC :: u32 where "AID_NFC \<equiv> 1027"
abbreviation (input) AID_SDCARD_R :: u32 where "AID_SDCARD_R \<equiv> 1028"
abbreviation (input) AID_SHELL :: u32 where "AID_SHELL \<equiv> 2000"
abbreviation (input) AID_CACHE :: u32 where "AID_CACHE \<equiv> 2001"
abbreviation (input) AID_DIAG :: u32 where "AID_DIAG \<equiv> 2002"
abbreviation (input) AID_NET_BT_ADMIN :: u32 where "AID_NET_BT_ADMIN \<equiv> 3001"
abbreviation (input) AID_NET_BT :: u32 where "AID_NET_BT \<equiv> 3002"
abbreviation (input) AID_INET :: u32 where "AID_INET \<equiv> 3003"
abbreviation (input) AID_NET_RAW :: u32 where "AID_NET_RAW \<equiv> 3004"
abbreviation (input) AID_NET_ADMIN :: u32 where "AID_NET_ADMIN \<equiv> 3005"
abbreviation (input) AID_NET_BW_STATS :: u32 where "AID_NET_BW_STATS \<equiv> 3006"
abbreviation (input) AID_NET_BW_ACCT :: u32 where "AID_NET_BW_ACCT \<equiv> 3007"
abbreviation (input) AID_NET_BT_STACK :: u32 where "AID_NET_BT_STACK \<equiv> 3008"
abbreviation (input) AID_MISC :: u32 where "AID_MISC \<equiv> 9998"
abbreviation (input) AID_NOBODY :: u32 where "AID_NOBODY \<equiv> 9999"
abbreviation (input) AID_APP :: u32 where "AID_APP \<equiv> 10000"

definition android_ids :: "(string \<times> u32) list" where
  "android_ids =
    [(''root'', AID_ROOT),
     (''system'', AID_SYSTEM),
     (''radio'', AID_RADIO),
     (''bluetooth'', AID_BLUETOOTH),
     (''graphics'', AID_GRAPHICS),
     (''input'', AID_INPUT),
     (''audio'', AID_AUDIO),
     (''camera'', AID_CAMERA),
     (''log'', AID_LOG),
     (''compass'', AID_COMPASS),
     (''mount'', AID_MOUNT),
     (''wifi'', AID_WIFI),
     (''dhcp'', AID_DHCP),
     (''adb'', AID_ADB),
     (''install'', AID_INSTALL),
     (''media'', AID_MEDIA),
     (''drm'', AID_DRM),
     (''mdnsr'', AID_MDNSR),
     (''nfc'', AID_NFC),
     (''drmrpc'', AID_DRMRPC),
     (''shell'', AID_SHELL),
     (''cache'', AID_CACHE),
     (''diag'', AID_DIAG),
     (''net_bt_admin'', AID_NET_BT_ADMIN),
     (''net_bt'', AID_NET_BT),
     (''net_bt_stack'', AID_NET_BT_STACK),
     (''sdcard_r'', AID_SDCARD_R),
     (''sdcard_rw'', AID_SDCARD_RW),
     (''media_rw'', AID_MEDIA_RW),
     (''vpn'', AID_VPN),
     (''keystore'', AID_KEYSTORE),
     (''usb'', AID_USB),
     (''mtp'', AID_MTP),
     (''gps'', AID_GPS),
     (''inet'', AID_INET),
     (''net_raw'', AID_NET_RAW),
     (''net_admin'', AID_NET_ADMIN),
     (''net_bw_stats'', AID_NET_BW_STATS),
     (''net_bw_acct'', AID_NET_BW_ACCT),
     (''misc'', AID_MISC),
     (''nobody'', AID_NOBODY)]"

section \<open>Permissions\<close>

definition property_perms :: "(string \<times> u32 \<times> u32) list" where
  "property_perms =
    [(''net.rmnet0.'', AID_RADIO, 0),
     (''net.gprs.'', AID_RADIO, 0),
     (''net.ppp'', AID_RADIO, 0),
     (''net.qmi'', AID_RADIO, 0),
     (''net.lte'', AID_RADIO, 0),
     (''net.cdma'', AID_RADIO, 0),
     (''ril.'', AID_RADIO, 0),
     (''gsm.'', AID_RADIO, 0),
     (''persist.radio'', AID_RADIO, 0),
     (''net.dns'', AID_RADIO, 0),
     (''sys.usb.config'', AID_RADIO, 0),
     (''net.'', AID_SYSTEM, 0),
     (''dev.'', AID_SYSTEM, 0),
     (''runtime.'', AID_SYSTEM, 0),
     (''hw.'', AID_SYSTEM, 0),
     (''sys.'', AID_SYSTEM, 0),
     (''service.'', AID_SYSTEM, 0),
     (''wlan.'', AID_SYSTEM, 0),
     (''bluetooth.'', AID_BLUETOOTH, 0),
     (''dhcp.'', AID_SYSTEM, 0),
     (''dhcp.'', AID_DHCP, 0),
     (''debug.'', AID_SYSTEM, 0),
     (''debug.'', AID_SHELL, 0),
     (''log.'', AID_SHELL, 0),
     (''service.adb.root'', AID_SHELL, 0),
     (''service.adb.tcp.port'', AID_SHELL, 0),
     (''persist.sys.'', AID_SYSTEM, 0),
     (''persist.service.'', AID_SYSTEM, 0),
     (''persist.security.'', AID_SYSTEM, 0),
     (''persist.service.bdroid.'', AID_BLUETOOTH, 0),
     (''persist.mtk.wcn.combo.'', AID_SYSTEM, 0),
     (''selinux.'', AID_SYSTEM, 0),
     (''service.bootanim.exit'', AID_GRAPHICS, 0),
     (''wmt.video.playing'', AID_MEDIA, 0),
     (''msensor.memsicd'', AID_SYSTEM, 0)]"

definition control_perms :: "(string \<times> u32 \<times> u32) list" where
  "control_perms = [(''dumpstate'', AID_SHELL, AID_LOG), (''ril-daemon'', AID_RADIO, AID_RADIO)]"

definition check_mac_perms :: "string \<Rightarrow> bool" where
  "check_mac_perms name \<longleftrightarrow> True"

definition check_control_mac_perms :: "string \<Rightarrow> bool" where
  "check_control_mac_perms name \<longleftrightarrow> True"

fun search_control :: "(string \<times> u32 \<times> u32) list \<Rightarrow> string \<Rightarrow> u32 \<Rightarrow> u32 \<Rightarrow> bool" where
  "search_control [] name uid gid = False"
| "search_control ((service, u, g) # ps) name uid gid =
     (if service = name \<and> (uid \<noteq> 0 \<and> u = uid \<or> gid \<noteq> 0 \<and> g = gid) then check_control_mac_perms name
      else search_control ps name uid gid)"

definition check_control_perms :: "string \<Rightarrow> u32 \<Rightarrow> u32 \<Rightarrow> bool" where
  "check_control_perms name uid gid =
     (if uid = AID_SYSTEM \<or> uid = AID_ROOT then check_control_mac_perms name
      else search_control control_perms name uid gid)"

fun search_perms :: "(string \<times> u32 \<times> u32) list \<Rightarrow> string \<Rightarrow> u32 \<Rightarrow> u32 \<Rightarrow> bool" where
  "search_perms [] name uid gid = False"
| "search_perms ((prefix, u, g) # ps) name uid gid =
     (if prefixed prefix name \<and> (uid \<noteq> 0 \<and> u = uid \<or> gid \<noteq> 0 \<and> g = gid) then check_mac_perms name
      else search_perms ps name uid gid)"

definition check_perms :: "string \<Rightarrow> u32 \<Rightarrow> u32 \<Rightarrow> bool" where
  "check_perms name uid gid =
     (let name = (if prefixed ''ro.'' name then drop 3 name else name)
      in if uid = 0 then check_mac_perms name
         else if prefixed ''wmt.'' name \<or> strstr_found name ''.wmt.'' then True
         else search_perms property_perms name uid gid)"

section \<open>The property area\<close>

definition init_property_area :: "bool \<Rightarrow> init_state \<Rightarrow> int \<times> init_state" where
  "init_property_area workspace st =
     (if property_area_inited st then (-1, st)
      else if \<not> workspace then (-1, st)
      else (0, st\<lparr>prop_area := \<lparr>pa_serial = 0, pa_toc = [], pa_infos = []\<rparr>, property_area_inited := True\<rparr>))"

definition update_prop_info :: "prop_info \<Rightarrow> string \<Rightarrow> nat \<Rightarrow> prop_info" where
  "update_prop_info p value len =
     (let serial = pi_serial p OR 1
      in p\<lparr>pi_value := value, pi_serial := push_bit 24 (of_nat len) OR ((serial + 1) AND 0xffffff)\<rparr>)"

definition property_get :: "os \<Rightarrow> string \<Rightarrow> init_state \<Rightarrow> string ptr" where
  "property_get os name st =
     (if PROP_NAME_MAX \<le> length name then NULL
      else case os_find os (prop_area st) name of
        Some i \<Rightarrow> Some (pi_value (pa_infos (prop_area st) ! i))
      | None \<Rightarrow> NULL)"

definition write_persistent_property :: "string \<Rightarrow> string \<Rightarrow> init_state \<Rightarrow> init_state" where
  "write_persistent_property name value st = tell (Persist name value) st"

text \<open>The part of \<open>property_set\<close> that writes the area: the entry found, or a new one.\<close>

definition area_set :: "os \<Rightarrow> string \<Rightarrow> string \<Rightarrow> prop_area \<Rightarrow> prop_area ptr" where
  "area_set os name value pa =
     (case os_find os pa name of
        Some i \<Rightarrow>
          if prefixed ''ro.'' name \<and> name \<noteq> ''ro.secure'' \<and> name \<noteq> ''ro.debuggable'' then NULL
          else Some (pa\<lparr>pa_infos := (pa_infos pa)[i := update_prop_info (pa_infos pa ! i) value (length value)],
                        pa_serial := pa_serial pa + 1\<rparr>)
      | None \<Rightarrow>
          if length (pa_infos pa) = PA_COUNT_MAX then NULL
          else (let offset = PA_INFO_START + 128 * length (pa_infos pa);
                    p = \<lparr>pi_name = name, pi_serial = push_bit 24 (of_nat (length value)), pi_value = value\<rparr>
                in Some (pa\<lparr>pa_infos := pa_infos pa @ [p],
                            pa_toc := pa_toc pa @ [push_bit 24 (of_nat (length name)) OR of_nat offset],
                            pa_serial := pa_serial pa + 1\<rparr>)))"

function property_set :: "os \<Rightarrow> string \<Rightarrow> string \<Rightarrow> init_state \<Rightarrow> (int \<times> init_state) exec" where
  "property_set os name value st =
     (if PROP_NAME_MAX \<le> length name then Ret (-1, st)
      else if PROP_VALUE_MAX \<le> length value then Ret (-1, st)
      else if length name < 1 then Ret (-1, st)
      else case area_set os name value (prop_area st) of
        None \<Rightarrow> Ret (-1, st)
      | Some pa \<Rightarrow>
          let st = st\<lparr>prop_area := pa\<rparr>
          in if prefixed ''net.'' name then
               if name = ''net.change'' then Ret (0, st)
               else do {
                 (_, st) \<leftarrow> property_set os ''net.change'' name st;
                 st \<leftarrow> property_changed name value st;
                 Ret (0, st)
               }
             else if persistent_properties_loaded st \<and> prefixed ''persist.'' name then do {
               st \<leftarrow> property_changed name value (write_persistent_property name value st);
               Ret (0, st)
             }
             else do {
               st \<leftarrow> property_changed name value st;
               Ret (0, st)
             })"
  by auto

termination by (relation "measure (\<lambda>(os, name, value, st). if name = ''net.change'' then 0 else 1)") auto

declare property_set.simps [simp del]

section \<open>Property files\<close>

text \<open>\<open>read_file\<close> of \<open>core/init/util.c\<close>: the contents and a final line end, unless the group or others may
  write it (\<open>S_IWGRP | S_IWOTH\<close>, octal 022).\<close>

definition read_file :: "os \<Rightarrow> string \<Rightarrow> init_state \<Rightarrow> string ptr \<times> init_state" where
  "read_file os fn st =
     (let (answer, st) = ask (\<lambda>n. os_file os n fn) st
      in case answer of
           None \<Rightarrow> (NULL, st)
         | Some (mode, contents) \<Rightarrow>
             if mode AND 18 \<noteq> 0 then (NULL, st)
             else (Some (contents @ [CHR 0x0A]), st))"

text \<open>\<open>while (tmp > s && isspace(*tmp)) *tmp-- = 0\<close>: the first character stays.\<close>

definition trim_right :: "string \<Rightarrow> string" where
  "trim_right s = (case s of [] \<Rightarrow> [] | c # cs \<Rightarrow> c # rev (dropWhile isspace (rev cs)))"

text \<open>One line of \<open>load_properties\<close>.\<close>

definition load_line :: "os \<Rightarrow> string \<Rightarrow> init_state \<Rightarrow> init_state exec" where
  "load_line os l st =
     (case strchr l (CHR ''='') of
        None \<Rightarrow> Ret st
      | Some v \<Rightarrow>
          let key = dropWhile isspace (takeWhile (\<lambda>c. c \<noteq> CHR ''='') l); value = dropWhile isspace (tl v)
          in if take 1 key = ''#'' then Ret st
             else do {
               (_, st) \<leftarrow> property_set os (trim_right key) (trim_right value) st;
               Ret st
             })"

function load_properties :: "os \<Rightarrow> string \<Rightarrow> init_state \<Rightarrow> init_state exec" where
  "load_properties os sol st =
     (case strchr sol (CHR 0x0A) of
        None \<Rightarrow> Ret st
      | Some eol \<Rightarrow> do {
          st \<leftarrow> load_line os (takeWhile (\<lambda>c. c \<noteq> CHR 0x0A) sol) st;
          load_properties os (tl eol) st
        })"
  by auto

termination
proof (relation "measure (\<lambda>(os, sol, st). length sol)")
  fix os sol st x2 x
  assume "strchr sol (CHR 0x0A) = Some x2"
  then show "((os, tl x2, x), os, sol, st) \<in> measure (\<lambda>(os, sol, st). length sol)" by (auto dest!: strchr_SomeD)
qed simp

declare load_properties.simps [simp del]

text \<open>The text a C function sees ends at the first NUL.\<close>

definition load_properties_from_file :: "os \<Rightarrow> string \<Rightarrow> init_state \<Rightarrow> init_state exec" where
  "load_properties_from_file os fn st =
     (let (text, st) = read_file os fn st
      in case text of
           None \<Rightarrow> Ret st
         | Some cs \<Rightarrow> load_properties os (takeWhile (\<lambda>c. c \<noteq> CHR 0x00) cs) st)"

text \<open>A file of the directory of persistent properties: its name and what \<open>open\<close> and \<open>read\<close> give.\<close>

definition load_persistent_property :: "os \<Rightarrow> string \<times> string ptr \<Rightarrow> init_state \<Rightarrow> init_state exec" where
  "load_persistent_property os entry st =
     (case entry of (name, contents) \<Rightarrow>
        if \<not> prefixed ''persist.'' name then Ret st
        else case contents of
          None \<Rightarrow> Ret st
        | Some value \<Rightarrow> do {
            (_, st) \<leftarrow> property_set os name (takeWhile (\<lambda>c. c \<noteq> CHR 0x00) (take (PROP_VALUE_MAX - 1) value)) st;
            Ret st
          })"

definition load_persistent_properties :: "os \<Rightarrow> init_state \<Rightarrow> init_state exec" where
  "load_persistent_properties os st =
     (let (dir, st) = ask (os_persist_dir os) st
      in do {
        st \<leftarrow> (case dir of
                 None \<Rightarrow> Ret st
               | Some entries \<Rightarrow> for_each (load_persistent_property os) entries st);
        Ret (st\<lparr>persistent_properties_loaded := True\<rparr>)
      })"

definition property_load_boot_defaults :: "os \<Rightarrow> init_state \<Rightarrow> init_state exec" where
  "property_load_boot_defaults os st = load_properties_from_file os (os_path os PROP_PATH_RAMDISK_DEFAULT) st"

text \<open>The build with \<open>ALLOW_LOCAL_PROP_OVERRIDE\<close>, which userdebug and eng images set.\<close>

definition load_override_properties :: "os \<Rightarrow> init_state \<Rightarrow> init_state exec" where
  "load_override_properties os st =
     (if property_get os ''ro.debuggable'' st = Some ''1'' then load_properties_from_file os (os_path os PROP_PATH_LOCAL_OVERRIDE) st
      else Ret st)"

definition load_persist_props :: "os \<Rightarrow> init_state \<Rightarrow> init_state exec" where
  "load_persist_props os st = do {
     st \<leftarrow> load_override_properties os st;
     load_persistent_properties os st
   }"

section \<open>The area as a map from names to values\<close>

text \<open>
  Every entry has a name and a value within the limits; its serial number carries the length
  of the value in the top byte and is even, so no update is in progress; the table of contents
  points at the entries; names are unique.
\<close>

definition entry_wf :: "prop_info \<Rightarrow> bool" where
  "entry_wf p \<longleftrightarrow> 1 \<le> length (pi_name p) \<and> length (pi_name p) < PROP_NAME_MAX \<and>
     length (pi_value p) < PROP_VALUE_MAX \<and>
     drop_bit 24 (pi_serial p) = of_nat (length (pi_value p)) \<and> \<not> bit (pi_serial p) 0"

definition prop_wf :: "prop_area \<Rightarrow> bool" where
  "prop_wf pa \<longleftrightarrow> length (pa_infos pa) \<le> PA_COUNT_MAX \<and> distinct (map pi_name (pa_infos pa)) \<and>
     (\<forall>p \<in> set (pa_infos pa). entry_wf p) \<and>
     pa_toc pa = map (\<lambda>i. push_bit 24 (of_nat (length (pi_name (pa_infos pa ! i)))) OR of_nat (PA_INFO_START + 128 * i))
       [0..<length (pa_infos pa)]"

definition prop_map :: "prop_area \<Rightarrow> string \<rightharpoonup> string" where
  "prop_map pa = map_of (map (\<lambda>p. (pi_name p, pi_value p)) (pa_infos pa))"

lemma serial_length:
  assumes "len < PROP_VALUE_MAX"
  shows "drop_bit 24 (push_bit 24 (of_nat len) :: u32) = of_nat len"
proof -
  have b: "n < 7" if "bit len n" for n
  proof -
    have "odd (len div 2 ^ n)" using that by (simp add: bit_iff_odd)
    then have "2 ^ n \<le> len" by (metis div_less even_zero not_le)
    with assms have "(2::nat) ^ n < 2 ^ 7" by (simp add: PROP_VALUE_MAX_def)
    then show ?thesis by (rule power_less_imp_less_exp [rotated]) simp
  qed
  show ?thesis by (rule bit_word_eqI) (auto simp: bit_simps dest: b)
qed

lemma update_prop_info_wf:
  assumes "entry_wf p" "length value < PROP_VALUE_MAX"
  shows "entry_wf (update_prop_info p value (length value))"
    "pi_name (update_prop_info p value len) = pi_name p" "pi_value (update_prop_info p value len) = value"
proof -
  have "\<not> bit ((pi_serial p OR 1) + 1) 0" by (simp add: bit_0 even_or_iff)
  with assms show "entry_wf (update_prop_info p value (length value))"
    by (simp add: entry_wf_def update_prop_info_def Let_def serial_length bit_simps)
qed (simp_all add: update_prop_info_def Let_def)

lemma find_okD:
  assumes "find_ok (os_find os)" 
  shows "os_find os pa name = Some i \<Longrightarrow> i < length (pa_infos pa) \<and> pi_name (pa_infos pa ! i) = name"
    "os_find os pa name = NULL \<Longrightarrow> name \<notin> pi_name ` set (pa_infos pa)"
proof -
  have c: "case os_find os pa name of None \<Rightarrow> name \<notin> pi_name ` set (pa_infos pa)
     | Some i \<Rightarrow> i < length (pa_infos pa) \<and> pi_name (pa_infos pa ! i) = name"
    using assms unfolding find_ok_def by blast
  show "os_find os pa name = Some i \<Longrightarrow> i < length (pa_infos pa) \<and> pi_name (pa_infos pa ! i) = name"
    "os_find os pa name = NULL \<Longrightarrow> name \<notin> pi_name ` set (pa_infos pa)"
    using c by auto
qed

lemma prop_map_nth: "prop_wf pa \<Longrightarrow> i < length (pa_infos pa) \<Longrightarrow> prop_map pa (pi_name (pa_infos pa ! i)) = Some (pi_value (pa_infos pa ! i))"
  unfolding prop_map_def prop_wf_def by (rule map_of_is_SomeI) (auto simp: comp_def)

lemma prop_map_None: "prop_map pa name = NULL \<longleftrightarrow> name \<notin> pi_name ` set (pa_infos pa)"
  by (auto simp: prop_map_def map_of_eq_None_iff image_image)

text \<open>Reading a property is reading the map.\<close>

lemma property_get_map:
  assumes "find_ok (os_find os)" "prop_wf (prop_area st)"
  shows "property_get os name st = (if length name < PROP_NAME_MAX then prop_map (prop_area st) name else NULL)"
proof (cases "os_find os (prop_area st) name")
  case None
  with find_okD(2) [OF assms(1)] prop_map_None [of "prop_area st" name] show ?thesis by (simp add: property_get_def)
next
  case (Some i)
  with find_okD(1) [OF assms(1) Some] prop_map_nth [OF assms(2), of i] show ?thesis by (auto simp: property_get_def)
qed

lemma map_of_update_nth:
  assumes "distinct (map f xs)" "i < length xs" "f y = f (xs ! i)"
  shows "map_of (map (\<lambda>p. (f p, g p)) (xs[i := y])) = (map_of (map (\<lambda>p. (f p, g p)) xs))(f y \<mapsto> g y)"
  using assms
proof (induction xs arbitrary: i)
  case (Cons x xs)
  show ?case
  proof (cases i)
    case (Suc j)
    with Cons.prems have "f (xs ! j) \<in> f ` set xs" by auto
    with Cons.prems Suc have "f x \<noteq> f y" by auto
    with Cons Suc show ?thesis by (auto simp: fun_upd_twist)
  qed (use Cons in auto)
qed simp

text \<open>Writing keeps the area well formed and updates the map, or is refused.\<close>

lemma area_set_correct:
  assumes "find_ok (os_find os)" "prop_wf pa" "area_set os name value pa = Some pa'"
    and "1 \<le> length name" "length name < PROP_NAME_MAX" "length value < PROP_VALUE_MAX"
  shows "prop_wf pa' \<and> prop_map pa' = (prop_map pa)(name \<mapsto> value) \<and> pa_serial pa' = pa_serial pa + 1"
proof (cases "os_find os pa name")
    case (Some i)
    let ?p = "update_prop_info (pa_infos pa ! i) value (length value)"
    have i: "i < length (pa_infos pa)" "pi_name (pa_infos pa ! i) = name" using find_okD(1) [OF assms(1) Some] by auto
    have pa': "pa' = pa\<lparr>pa_infos := (pa_infos pa)[i := ?p], pa_serial := pa_serial pa + 1\<rparr>"
      using assms(3) Some by (auto simp: area_set_def split: if_splits)
    have wf: "entry_wf (pa_infos pa ! i)" using assms(2) i by (simp add: prop_wf_def)
    note u = update_prop_info_wf [OF wf assms(6)]
    have names: "map pi_name ((pa_infos pa)[i := ?p]) = map pi_name (pa_infos pa)"
      using i u(2) by (simp add: map_update list_update_same_conv)
    have "pi_name ((pa_infos pa)[i := ?p] ! j) = pi_name (pa_infos pa ! j)" if "j < length (pa_infos pa)" for j
      using arg_cong [OF names, of "\<lambda>l. l ! j"] that by simp
    with assms(2) names u(1) have "prop_wf pa'"
      by (auto simp: prop_wf_def pa' dest!: set_update_subset_insert [THEN subsetD])
    moreover have "prop_map pa' = (prop_map pa)(name \<mapsto> value)"
      using map_of_update_nth [of pi_name "pa_infos pa" i ?p pi_value] assms(2) i u(2,3)
      by (simp add: prop_map_def prop_wf_def pa')
    ultimately show ?thesis by (simp add: pa')
  next
    case None
    let ?p = "\<lparr>pi_name = name, pi_serial = push_bit 24 (of_nat (length value)), pi_value = value\<rparr>"
    have fresh: "name \<notin> pi_name ` set (pa_infos pa)" using find_okD(2) [OF assms(1) None] .
    have pa': "pa' = pa\<lparr>pa_infos := pa_infos pa @ [?p],
          pa_toc := pa_toc pa @ [push_bit 24 (of_nat (length name)) OR of_nat (PA_INFO_START + 128 * length (pa_infos pa))],
          pa_serial := pa_serial pa + 1\<rparr>" "length (pa_infos pa) \<noteq> PA_COUNT_MAX"
      using assms(3) None by (auto simp: area_set_def Let_def split: if_splits)
    have "entry_wf ?p" using assms(4-6) serial_length [OF assms(6)] by (simp add: entry_wf_def bit_simps)
    with assms(2) fresh pa'(2) have "prop_wf pa'"
      by (auto simp: prop_wf_def pa'(1) nth_append)
    moreover have "prop_map pa' = (prop_map pa)(name \<mapsto> value)"
      using fresh prop_map_None [of pa name] by (auto simp: prop_map_def pa'(1) map_add_def fun_eq_iff split: option.splits)
    ultimately show ?thesis by (simp add: pa'(1))
qed

section \<open>Setting properties\<close>

text \<open>Setting a property changes nothing of init but the area, the queue and the persistent files.\<close>

definition props_changed :: "init_state \<Rightarrow> init_state \<Rightarrow> bool" where
  "props_changed st st' \<longleftrightarrow>
     service_list st' = service_list st \<and> action_list st' = action_list st \<and>
     cur_action st' = cur_action st \<and> cur_command st' = cur_command st \<and>
     property_triggers_enabled st' = property_triggers_enabled st \<and>
     property_area_inited st' = property_area_inited st \<and>
     persistent_properties_loaded st' = persistent_properties_loaded st \<and>
     property_set_fd st' = property_set_fd st \<and> signal_fd st' = signal_fd st \<and> have_console st' = have_console st \<and>
     process_needs_restart st' = process_needs_restart st \<and> ENV st' = ENV st \<and> os_calls st' = os_calls st"

lemma props_changed_refl [simp, intro]: "props_changed st st"
  by (simp add: props_changed_def)

lemma props_changed_trans [trans]: "props_changed st st' \<Longrightarrow> props_changed st' st'' \<Longrightarrow> props_changed st st''"
  by (simp add: props_changed_def)

lemma requeued_props_changed: "requeued st st' \<Longrightarrow> props_changed st st'"
  by (simp add: props_changed_def requeued_fields)

lemma props_changed_area [simp]: "props_changed st (st\<lparr>prop_area := pa\<rparr>)"
  by (simp add: props_changed_def)

lemma props_changed_persist: "props_changed st st' \<Longrightarrow> props_changed st (write_persistent_property n v st')"
  by (simp add: props_changed_def write_persistent_property_def tell_def)

text \<open>
  What a call leaves in the area: it is refused and nothing changes, or the map is updated, and
  with a property of the network also \<open>net.change\<close>.
\<close>

lemma property_changed_props: "property_changed n v st = Ret st' \<Longrightarrow> props_changed st0 st \<Longrightarrow> props_changed st0 st' \<and> prop_area st' = prop_area st"
  using property_changed_frame [of n v st st'] by (auto intro: props_changed_trans requeued_props_changed dest: requeued_fields(6))

definition set_result :: "os \<Rightarrow> string \<Rightarrow> string \<Rightarrow> init_state \<Rightarrow> int \<Rightarrow> init_state \<Rightarrow> bool" where
  "set_result os name value st r st' \<longleftrightarrow> props_changed st st' \<and>
     (r = -1 \<and> st' = st \<or>
      r = 0 \<and> name \<noteq> [] \<and> length name < PROP_NAME_MAX \<and> length value < PROP_VALUE_MAX \<and>
      (\<exists>pa. area_set os name value (prop_area st) = Some pa \<and>
        (prop_area st' = pa \<or>
         name \<noteq> ''net.change'' \<and> prefixed ''net.'' name \<and> area_set os ''net.change'' name pa = Some (prop_area st'))))"

lemma property_set_net_change:
  "property_set os ''net.change'' value st = Ret (r, st') \<Longrightarrow> set_result os ''net.change'' value st r st'"
  by (subst (asm) property_set.simps)
    (auto simp: set_result_def PROP_NAME_MAX_def prefixed_iff Let_def split: if_splits option.splits)

lemma property_set_result:
  assumes "property_set os name value st = Ret (r, st')"
  shows "set_result os name value st r st'"
proof -
  note u = assms [unfolded property_set.simps [of os name "value" st]]
  show ?thesis
proof (cases "name = ''net.change''")
  case True
  with assms property_set_net_change show ?thesis by blast
next
  case nc: False
  show ?thesis
  proof (cases "length name < PROP_NAME_MAX \<and> length value < PROP_VALUE_MAX \<and> name \<noteq> []")
    case False
    with u show ?thesis by (auto simp: set_result_def split: if_splits)
  next
    case len: True
    show ?thesis
    proof (cases "area_set os name value (prop_area st)")
      case None
      with u len show ?thesis by (auto simp: set_result_def split: if_splits)
    next
      case (Some pa)
      let ?st = "st\<lparr>prop_area := pa\<rparr>"
      show ?thesis
      proof (cases "prefixed ''net.'' name")
        case True
        with u len Some nc obtain r1 st1 where st1: "property_set os ''net.change'' name ?st = Ret (r1, st1)"
            "property_changed name value st1 = Ret st'" "r = 0"
          by (auto simp: Let_def bind_eq_Some_conv split: if_splits)
        have s: "set_result os ''net.change'' name ?st r1 st1" using st1(1) by (rule property_set_net_change)
        then have "props_changed ?st st1" by (simp add: set_result_def)
        then have "props_changed st st1" by (rule props_changed_trans [OF props_changed_area])
        then have "props_changed st st'" "prop_area st' = prop_area st1" using property_changed_props [OF st1(2)] by auto
        moreover have "prop_area st1 = pa \<or> area_set os ''net.change'' name pa = Some (prop_area st1)"
          using s by (auto simp: set_result_def)
        ultimately show ?thesis using len Some nc True st1(3) by (auto simp: set_result_def)
      next
        case False
        define st1 where "st1 = (if persistent_properties_loaded ?st \<and> prefixed ''persist.'' name
          then write_persistent_property name value ?st else ?st)"
        from u len Some False have r: "property_changed name value st1 = Ret st'" "r = 0"
          by (auto simp: st1_def Let_def bind_eq_Some_conv split: if_splits)
        have "props_changed st st1" "prop_area st1 = pa"
          using props_changed_persist [of st ?st name "value"]
          by (auto simp: st1_def write_persistent_property_def tell_def)
        with property_changed_props [OF r(1)] have "props_changed st st'" "prop_area st' = pa" by auto
        with len Some r(2) show ?thesis by (auto simp: set_result_def)
      qed
    qed
  qed
qed
qed

text \<open>Read-only properties, but for the two that the sources let be overwritten.\<close>

definition ro_locked :: "string \<Rightarrow> bool" where
  "ro_locked name \<longleftrightarrow> prefixed ''ro.'' name \<and> name \<noteq> ''ro.secure'' \<and> name \<noteq> ''ro.debuggable''"

lemma area_set_locked:
  assumes "find_ok (os_find os)" "ro_locked name" "prop_map pa name \<noteq> NULL"
  shows "area_set os name value pa = NULL"
proof -
  have "os_find os pa name \<noteq> NULL"
    using find_okD(2) [OF assms(1), of pa name] assms(3) prop_map_None [of pa name] by auto
  with assms(2) show ?thesis by (auto simp: area_set_def ro_locked_def)
qed

lemma property_set_area:
  assumes "find_ok (os_find os)" "prop_wf (prop_area st)" "property_set os name value st = Ret (r, st')"
  shows "prop_wf (prop_area st')"
    "r = 0 \<Longrightarrow> prop_map (prop_area st') name = Some value"
    "n \<noteq> name \<Longrightarrow> n \<noteq> ''net.change'' \<Longrightarrow> prop_map (prop_area st') n = prop_map (prop_area st) n"
    "ro_locked n \<Longrightarrow> prop_map (prop_area st) n = Some v \<Longrightarrow> prop_map (prop_area st') n = Some v"
    "ro_locked name \<Longrightarrow> prop_map (prop_area st) name \<noteq> NULL \<Longrightarrow> r = -1 \<and> st' = st"
proof -
  let ?pa = "prop_area st" and ?pa' = "prop_area st'"
  have s: "set_result os name value st r st'" using assms(3) by (rule property_set_result)
  show L: "ro_locked name \<Longrightarrow> prop_map ?pa name \<noteq> NULL \<Longrightarrow> r = -1 \<and> st' = st"
    using s area_set_locked [OF assms(1)] by (auto simp: set_result_def)
  have nc: "length ''net.change'' < PROP_NAME_MAX" "PROP_NAME_MAX \<le> PROP_VALUE_MAX"
    by (simp_all add: PROP_NAME_MAX_def PROP_VALUE_MAX_def)
  have "prop_wf ?pa' \<and> (r = 0 \<longrightarrow> ?pa' \<noteq> ?pa \<longrightarrow> prop_map ?pa' name = Some value) \<and>
      (\<forall>n. n \<noteq> name \<and> n \<noteq> ''net.change'' \<longrightarrow> prop_map ?pa' n = prop_map ?pa n) \<and> (r = 0 \<longrightarrow> prop_map ?pa' name = Some value)"
  proof (cases "r = -1")
    case True
    with s assms(2) show ?thesis by (auto simp: set_result_def)
  next
    case False
    with s obtain pa where l: "name \<noteq> []" "length name < PROP_NAME_MAX" "length value < PROP_VALUE_MAX"
      and pa: "area_set os name value ?pa = Some pa"
      and d: "?pa' = pa \<or> name \<noteq> ''net.change'' \<and> area_set os ''net.change'' name pa = Some ?pa'"
      by (auto simp: set_result_def)
    have "1 \<le> length name" using l(1) by (cases name) auto
    with area_set_correct [OF assms(1,2) pa] l have c: "prop_wf pa" "prop_map pa = (prop_map ?pa)(name \<mapsto> value)" by auto
    from d show ?thesis
    proof
      assume "?pa' = pa"
      with c show ?thesis by simp
    next
      assume e: "name \<noteq> ''net.change'' \<and> area_set os ''net.change'' name pa = Some ?pa'"
      with area_set_correct [OF assms(1) c(1), of "''net.change''" name ?pa'] nc l(2)
      have "prop_wf ?pa'" "prop_map ?pa' = (prop_map pa)(''net.change'' \<mapsto> name)" by auto
      with c e show ?thesis by simp
    qed
  qed
  then show "prop_wf ?pa'" "r = 0 \<Longrightarrow> prop_map ?pa' name = Some value"
    "n \<noteq> name \<Longrightarrow> n \<noteq> ''net.change'' \<Longrightarrow> prop_map ?pa' n = prop_map ?pa n" by blast+
  assume n: "ro_locked n" "prop_map ?pa n = Some v"
  then have "n \<noteq> ''net.change''" by (auto simp: ro_locked_def prefixed_iff)
  with n L \<open>prop_wf ?pa' \<and> _\<close> show "prop_map ?pa' n = Some v" by (cases "n = name") auto
qed


text \<open>An operating system for examples: a clock that stands still and a linear search.\<close>

definition find_by_name :: "prop_area \<Rightarrow> string \<Rightarrow> nat ptr" where
  "find_by_name pa name = map_option fst (find (\<lambda>(i, p). pi_name p = name) (List.enumerate 0 (pa_infos pa)))"

lemma find_by_name_ok: "find_ok find_by_name"
  unfolding find_ok_def
proof (intro allI)
  fix pa :: prop_area and name
  let ?xs = "List.enumerate 0 (pa_infos pa)"
  show "case find_by_name pa name of None \<Rightarrow> name \<notin> pi_name ` set (pa_infos pa)
     | Some i \<Rightarrow> i < length (pa_infos pa) \<and> pi_name (pa_infos pa ! i) = name"
  proof (cases "find (\<lambda>(i, p). pi_name p = name) ?xs")
    case None
    then have "pi_name p \<noteq> name" if "p \<in> snd ` set ?xs" for p
      using that by (auto simp: find_None_iff) blast
    moreover have "snd ` set ?xs = set (pa_infos pa)" by (metis list.set_map map_snd_enumerate)
    ultimately show ?thesis using None by (auto simp: find_by_name_def)
  next
    case (Some ip)
    then obtain k where "k < length ?xs" "?xs ! k = ip" "(\<lambda>(i, p). pi_name p = name) ip" by (auto simp: find_Some_iff)
    with Some show ?thesis by (auto simp: find_by_name_def nth_enumerate_eq)
  qed
qed

definition demo_os :: os where
  "demo_os = \<lparr>os_time = (\<lambda>_. 0), os_stat = (\<lambda>_ _. True), os_fork = (\<lambda>n. int n + 2), os_file = (\<lambda>_ _. NULL),
     os_persist_dir = (\<lambda>_. NULL), os_syspara = (\<lambda>_ _. NULL), os_socket = (\<lambda>_ _. -1), os_workspace = (\<lambda>_. ''''), os_zombies = (\<lambda>_. []), os_command = (\<lambda>_ _ _. 0),
     os_path = (\<lambda>_. ''''), os_find = find_by_name\<rparr>"

lemma demo_os_find [simp]: "find_ok (os_find demo_os)"
  by (simp add: demo_os_def find_by_name_ok)

lemma prop_wf_init_start [simp]: "prop_wf (prop_area init_start)"
  by (simp add: prop_wf_def init_start_def)

lemma demo_set:
  "property_set demo_os ''ro.x'' ''1'' init_start =
     Ret (0, init_start\<lparr>prop_area := the (area_set demo_os ''ro.x'' ''1'' (prop_area init_start))\<rparr>)"
  by (subst property_set.simps)
    (simp add: init_start_def area_set_def demo_os_def find_by_name_def PROP_NAME_MAX_def PROP_VALUE_MAX_def
      PA_COUNT_MAX_def property_changed_def prefixed_def strncmp_eq_def Let_def)


end
