(* ===== verification/Init_Expand.thy ===== *)
theory Init_Expand
  imports Init_Property
begin

text \<open>
  The expansion of \<open>${property}\<close> in arguments (\<open>push_chars\<close> and \<open>expand_props\<close> of
  \<open>core/init/init_parser.c\<close>), on the destination buffer the caller passes. A write outside the
  buffer is a fault. \<open>expand\<close> is the text that the source stands for, without any limit of size.
\<close>

definition push_chars :: "string \<Rightarrow> nat \<Rightarrow> int \<Rightarrow> string \<Rightarrow> nat \<Rightarrow> (int \<times> string \<times> nat \<times> int) exec" where
  "push_chars dst dp left chars cnt =
     (if int cnt > left then Ret (-1, dst, dp, left)
      else do {
        dst \<leftarrow> memcpy dst dp chars cnt;
        Ret (0, dst, dp + cnt, left - int cnt)
      })"

text \<open>What follows a dollar sign: a second one, nothing, the name of a property, or an error.\<close>

datatype dollar = Literal string | Nothing | Prop string string | Bad

definition after_dollar :: "string \<Rightarrow> dollar" where
  "after_dollar c =
     (if take 1 c = ''$'' then Literal (tl c)
      else if c = [] then Nothing
      else if take 1 c = ''{'' then
        (let prop = take PROP_NAME_MAX (takeWhile (\<lambda>x. x \<noteq> CHR ''}'') (tl c)); c = drop (length prop) (tl c)
         in if take 1 c \<noteq> ''}'' then Bad else if prop = [] then Bad else Prop prop (tl c))
      else
        (let prop = take PROP_NAME_MAX c; c = drop (length prop) c
         in if length prop = PROP_NAME_MAX \<and> c \<noteq> [] then Bad else Prop prop c))"

lemma after_dollar_shorter:
  "after_dollar c = Literal r \<Longrightarrow> length r < length c" "after_dollar c = Prop p r \<Longrightarrow> length r < length c \<and> p \<noteq> []"
  by (cases c; auto simp: after_dollar_def Let_def PROP_NAME_MAX_def split: if_splits)+

definition copy_text :: "string \<Rightarrow> nat \<Rightarrow> int \<Rightarrow> string \<Rightarrow> (string \<times> nat) exec" where
  "copy_text dst dp left src =
     (let n = min (nat left) (length src)
      in do {
        dst \<leftarrow> memcpy dst dp src n;
        Ret (dst, dp + n)
      })"

definition finish_text :: "string \<Rightarrow> nat \<Rightarrow> (int \<times> string) exec" where
  "finish_text dst dp = do {
     dst \<leftarrow> store dst dp (CHR 0x00);
     Ret (0, dst)
   }"

lemma strchr_shorter: "strchr s c = Some t \<Longrightarrow> t \<noteq> [] \<and> length t \<le> length s"
  by (auto dest!: strchr_SomeD)

function expand_loop :: "os \<Rightarrow> init_state \<Rightarrow> string \<Rightarrow> nat \<Rightarrow> int \<Rightarrow> string \<Rightarrow> (int \<times> string) exec" where
  "expand_loop os st dst dp left src =
     (if src = [] \<or> left \<le> 0 then finish_text dst dp
      else case strchr src (CHR ''$'') of
        None \<Rightarrow> do {
          (dst, dp) \<leftarrow> copy_text dst dp left src;
          finish_text dst dp
        }
      | Some c \<Rightarrow> do {
          (ret, dst, dp, left) \<leftarrow> push_chars dst dp left src (length src - length c);
          if ret < 0 then Ret (-1, dst)
          else case after_dollar (tl c) of
            Literal r \<Rightarrow> do {
              dst \<leftarrow> store dst dp (CHR ''$'');
              expand_loop os st dst (dp + 1) (left - 1) r
            }
          | Nothing \<Rightarrow> finish_text dst dp
          | Bad \<Rightarrow> Ret (-1, dst)
          | Prop prop r \<Rightarrow>
              (case property_get os prop st of
                 None \<Rightarrow> Ret (-1, dst)
               | Some prop_val \<Rightarrow> do {
                   (ret, dst, dp, left) \<leftarrow> push_chars dst dp left prop_val (length prop_val);
                   if ret < 0 then Ret (-1, dst) else expand_loop os st dst dp left r
                 })
        })"
  by auto

termination
  by (relation "measure (\<lambda>(os, st, dst, dp, left, src). length src)")
    (auto dest!: strchr_SomeD dest: after_dollar_shorter)

declare expand_loop.simps [simp del]

definition expand_props :: "os \<Rightarrow> string \<Rightarrow> string \<Rightarrow> init_state \<Rightarrow> (int \<times> string) exec" where
  "expand_props os dst src st =
     (if length dst = 0 then Ret (-1, dst)
      else expand_loop os st dst 0 (int (length dst) - 1) src)"

section \<open>The text it stands for\<close>

function expand :: "os \<Rightarrow> init_state \<Rightarrow> string \<Rightarrow> string ptr" where
  "expand os st src =
     (case strchr src (CHR ''$'') of
        None \<Rightarrow> Some src
      | Some c \<Rightarrow>
          let text = takeWhile (\<lambda>x. x \<noteq> CHR ''$'') src
          in case after_dollar (tl c) of
            Literal r \<Rightarrow> map_option (\<lambda>t. text @ ''$'' @ t) (expand os st r)
          | Nothing \<Rightarrow> Some text
          | Bad \<Rightarrow> NULL
          | Prop prop r \<Rightarrow>
              (case property_get os prop st of
                 None \<Rightarrow> NULL
               | Some v \<Rightarrow> map_option (\<lambda>t. text @ v @ t) (expand os st r)))"
  by auto

termination
  by (relation "measure (\<lambda>(os, st, src). length src)")
    (auto dest!: strchr_SomeD dest: after_dollar_shorter)

declare expand.simps [simp del]

text \<open>A text up to its first dollar sign, as the loop takes it apart.\<close>

lemma strchr_dollar:
  assumes "strchr src d = Some c"
  shows "src = takeWhile (\<lambda>x. x \<noteq> d) src @ c" "length src - length c = length (takeWhile (\<lambda>x. x \<noteq> d) src)"
    "take (length src - length c) src = takeWhile (\<lambda>x. x \<noteq> d) src" "\<exists>r. c = d # r"
proof -
  obtain p r where p: "src = p @ d # r" "d \<notin> set p" "c = d # r" using strchr_SomeD [OF assms] by auto
  then have "takeWhile (\<lambda>x. x \<noteq> d) src = p" by (subst p(1), subst takeWhile_append2) auto
  with p show "src = takeWhile (\<lambda>x. x \<noteq> d) src @ c" "length src - length c = length (takeWhile (\<lambda>x. x \<noteq> d) src)"
    "take (length src - length c) src = takeWhile (\<lambda>x. x \<noteq> d) src" "\<exists>r. c = d # r" by auto
qed

lemma push_chars_ok:
  assumes "int cnt \<le> left" "int dp + left < int (length dst)" "cnt \<le> length chars"
  shows "\<exists>dst'. push_chars dst dp left chars cnt = Ret (0, dst', dp + cnt, left - int cnt) \<and>
    take (dp + cnt) dst' = take dp dst @ take cnt chars \<and> length dst' = length dst"
proof -
  have "dp + cnt \<le> length dst" using assms(1,2) by linarith
  with assms show ?thesis by (simp add: push_chars_def memcpy_ok)
qed

lemma finish_text_ok:
  "dp < length dst \<Longrightarrow> \<exists>dst'. finish_text dst dp = Ret (0, dst') \<and> take (Suc dp) dst' = take dp dst @ [CHR 0x00]"
  by (simp add: finish_text_def store_ok take_Suc_conv_app_nth)

lemma store_take: "dp < length dst \<Longrightarrow> take (Suc dp) (dst[dp := x]) = take dp dst @ [x]"
  by (simp add: take_Suc_conv_app_nth)

text \<open>With room for all of the text and its end the buffer receives it.\<close>

lemma expand_loop_text:
  assumes "expand os st src = Some out" "int dp + left = int (length dst) - 1" "int (length out) \<le> left"
  shows "\<exists>dst'. expand_loop os st dst dp left src = Ret (0, dst') \<and>
    take (Suc (dp + length out)) dst' = take dp dst @ out @ [CHR 0x00]"
  using assms
proof (induction os st src arbitrary: dst dp left out rule: expand.induct)
  case (1 os st src)
  have dl: "dp < length dst" using "1.prems"(2,3) by linarith
  show ?case
  proof (cases "src = [] \<or> left \<le> 0")
    case True
    have "out = []"
    proof (cases "src = []")
      case True
      with "1.prems"(1) show ?thesis by (simp add: expand.simps)
    next
      case False
      with True "1.prems"(3) have "length out = 0" by linarith
      then show ?thesis by simp
    qed
    with True finish_text_ok [OF dl] show ?thesis by (subst expand_loop.simps) simp
  next
    case cont: False
    show ?thesis
    proof (cases "strchr src (CHR ''$'')")
      case None
      then have out: "out = src" using "1.prems"(1) by (simp add: expand.simps [of os st src] del: strchr_NULL_iff)
      have n: "min (nat left) (length src) = length src" "dp + length src \<le> length dst" "dp + length src < length dst"
        using "1.prems"(2,3) out by auto
      then have c: "copy_text dst dp left src = Ret (take dp dst @ src @ drop (dp + length src) dst, dp + length src)"
        by (simp add: copy_text_def memcpy_ok Let_def)
      from n have "dp + length src < length (take dp dst @ src @ drop (dp + length src) dst)" by simp
      from finish_text_ok [OF this] c cont None out n show ?thesis by (subst expand_loop.simps) (auto simp del: strchr_NULL_iff)
    next
      case (Some c)
      note d = strchr_dollar [OF Some]
      let ?t = "takeWhile (\<lambda>x. x \<noteq> CHR ''$'') src"
      have e: "expand os st src = (case after_dollar (tl c) of
            Literal r \<Rightarrow> map_option (\<lambda>t. ?t @ ''$'' @ t) (expand os st r)
          | Nothing \<Rightarrow> Some ?t | Bad \<Rightarrow> NULL
          | Prop prop r \<Rightarrow> (case property_get os prop st of None \<Rightarrow> NULL
               | Some v \<Rightarrow> map_option (\<lambda>t. ?t @ v @ t) (expand os st r)))"
        using Some by (simp add: expand.simps [of os st src] Let_def)
      have tl: "length ?t \<le> length out"
        using "1.prems"(1) e by (auto split: dollar.splits option.splits)
      have "length ?t \<le> length src" by (rule length_takeWhile_le)
      with tl "1.prems"(2,3) obtain dst1 where p: "push_chars dst dp left src (length ?t) = Ret (0, dst1, dp + length ?t, left - int (length ?t))"
          "take (dp + length ?t) dst1 = take dp dst @ ?t" "length dst1 = length dst"
        using push_chars_ok [of "length ?t" left dp dst src] by (auto simp: takeWhile_eq_take [symmetric])
      let ?dp = "dp + length ?t" and ?left = "left - int (length ?t)"
      show ?thesis
      proof (cases "after_dollar (tl c)")
        case (Literal r)
        then obtain t where t: "expand os st r = Some t" "out = ?t @ ''$'' @ t" using "1.prems"(1) e by auto
        have dl1: "?dp < length dst1" using p(3) t(2) "1.prems"(2,3) by simp
        let ?dst = "dst1[?dp := CHR ''$'']"
        have "\<exists>dst'. expand_loop os st ?dst (?dp + 1) (?left - 1) r = Ret (0, dst') \<and>
            take (Suc (?dp + 1 + length t)) dst' = take (?dp + 1) ?dst @ t @ [CHR 0x00]"
          using "1.prems"(2,3) t p(3) by (intro "1.IH"(1) [OF Some refl Literal]) auto
        moreover have "take (?dp + 1) ?dst = take dp dst @ ?t @ ''$''" using store_take [OF dl1] p(2) by simp
        ultimately show ?thesis using cont Some p(1) d(2) Literal store_ok [OF dl1] t(2)
          by (subst expand_loop.simps) (auto simp: add.assoc)
      next
        case Nothing
        then have "out = ?t" using "1.prems"(1) e by simp
        moreover have "?dp < length dst1" using p(3) "1.prems"(2,3) tl by linarith
        ultimately show ?thesis using cont Some p(1,2) d(2) Nothing finish_text_ok [of ?dp dst1]
          by (subst expand_loop.simps) auto
      next
        case Bad
        with "1.prems"(1) e show ?thesis by simp
      next
        case (Prop pn r)
        then obtain v t where v: "property_get os pn st = Some v" "expand os st r = Some t" "out = ?t @ v @ t"
          using "1.prems"(1) e by (auto split: option.splits)
        have "int (length v) \<le> ?left" "int ?dp + ?left < int (length dst1)" using "1.prems"(2,3) v(3) p(3) by auto
        then obtain dst2 where q: "push_chars dst1 ?dp ?left v (length v) = Ret (0, dst2, ?dp + length v, ?left - int (length v))"
            "take (?dp + length v) dst2 = take ?dp dst1 @ v" "length dst2 = length dst1"
          using push_chars_ok [of "length v" ?left ?dp dst1 v] by auto
        have "\<exists>dst'. expand_loop os st dst2 (?dp + length v) (?left - int (length v)) r = Ret (0, dst') \<and>
            take (Suc (?dp + length v + length t)) dst' = take (?dp + length v) dst2 @ t @ [CHR 0x00]"
          using "1.prems"(2,3) v p(3) q(3) by (intro "1.IH"(2) [OF Some refl Prop v(1)]) auto
        then show ?thesis using cont Some p(1,2) d(2) Prop v q(1,2)
          by (subst expand_loop.simps) (auto simp: add.assoc)
      qed
    qed
  qed
qed

section \<open>Bounds\<close>

lemma strstr_found_suffix: "strstr_found s t \<Longrightarrow> strstr_found (p @ s) t"
  by (induction p) auto

lemma strstr_found_dollars: "strstr_found (p @ ''$$'' @ s) ''$$''"
  by (rule strstr_found_suffix) simp

lemma after_dollar_suffix: "after_dollar c = Prop prop r \<Longrightarrow> \<exists>p. c = p @ r"
proof -
  assume a: "after_dollar c = Prop prop r"
  then consider "take 1 c = ''{''" "r = tl (drop (length prop) (tl c))" | "r = drop (length prop) c"
    by (auto simp: after_dollar_def Let_def split: if_splits)
  then show ?thesis
  proof cases
    case 1
    then show ?thesis by (metis append_take_drop_id drop_Suc tl_drop drop_drop)
  next
    case 2
    then show ?thesis by (metis append_take_drop_id)
  qed
qed

text \<open>Without a doubled dollar sign every write is inside the buffer.\<close>

lemma expand_loop_bounds:
  assumes "\<not> strstr_found src ''$$''" "int dp + left = int (length dst) - 1" "0 \<le> left"
  shows "expand_loop os st dst dp left src \<noteq> Fault"
  using assms
proof (induction "length src" arbitrary: src dst dp left rule: less_induct)
  case less
  have dl: "dp < length dst" using less.prems(2,3) by linarith
  have fin: "finish_text b i \<noteq> Fault" if "i < length b" for b i using finish_text_ok [OF that] by auto
  show ?case
  proof (cases "src = [] \<or> left \<le> 0")
    case True
    with fin [OF dl] show ?thesis by (subst expand_loop.simps) simp
  next
    case cont: False
    show ?thesis
    proof (cases "strchr src (CHR ''$'')")
      case None
      let ?n = "min (nat left) (length src)"
      have "dp + ?n < length dst" "?n \<le> length src" using less.prems(2,3) by auto
      then have "copy_text dst dp left src = Ret (take dp dst @ take ?n src @ drop (dp + ?n) dst, dp + ?n)"
        "dp + ?n < length (take dp dst @ take ?n src @ drop (dp + ?n) dst)"
        by (simp_all add: copy_text_def memcpy_ok Let_def)
      with cont None fin show ?thesis by (subst expand_loop.simps) (simp del: strchr_NULL_iff)
    next
      case (Some c)
      note d = strchr_dollar [OF Some]
      let ?k = "length src - length c"
      show ?thesis
      proof (cases "int ?k \<le> left")
        case False
        with cont Some show ?thesis by (subst expand_loop.simps) (simp add: push_chars_def)
      next
        case True
        with less.prems(2) obtain dst1 where p: "push_chars dst dp left src ?k = Ret (0, dst1, dp + ?k, left - int ?k)" "length dst1 = length dst"
          using push_chars_ok [of ?k left dp dst src] by auto
        have dl1: "dp + ?k < length dst1" using True less.prems(2) p(2) by linarith
        show ?thesis
        proof (cases "after_dollar (tl c)")
          case (Literal r)
          then have "tl c = CHR ''$'' # r" by (cases "tl c") (auto simp: after_dollar_def Let_def split: if_splits)
          with d(4) have "c = ''$$'' @ r" by auto
          with d(1) less.prems(1) strstr_found_dollars [of "takeWhile (\<lambda>x. x \<noteq> CHR ''$'') src" r] show ?thesis by simp
        next
          case Nothing
          with cont Some p(1) fin [OF dl1] show ?thesis by (subst expand_loop.simps) simp
        next
          case Bad
          with cont Some p(1) show ?thesis by (subst expand_loop.simps) simp
        next
          case (Prop pn r)
          show ?thesis
          proof (cases "property_get os pn st")
            case None
            with cont Some p(1) Prop show ?thesis by (subst expand_loop.simps) simp
          next
            case v: (Some v)
            let ?left = "left - int ?k"
            show ?thesis
            proof (cases "int (length v) \<le> ?left")
              case False
              with cont Some p(1) Prop v show ?thesis by (subst expand_loop.simps) (simp add: push_chars_def)
            next
              case le: True
              have "int (dp + ?k) + ?left < int (length dst1)" using less.prems(2) p(2) by simp
              then obtain dst2 where q: "push_chars dst1 (dp + ?k) ?left v (length v) = Ret (0, dst2, dp + ?k + length v, ?left - int (length v))"
                  "length dst2 = length dst1"
                using push_chars_ok [OF le, of "dp + ?k" dst1 v] by auto
              obtain q' where "tl c = q' @ r" using after_dollar_suffix [OF Prop] by blast
              then obtain q'' where sr: "src = q'' @ r" using d(1,4) by (metis append.assoc append_Cons list.sel(3))
              have "length r < length src" 
                using after_dollar_shorter(2) [OF Prop] strchr_shorter [OF Some] by auto
              moreover have "\<not> strstr_found r ''$$''" using less.prems(1) sr strstr_found_suffix by blast
              ultimately have "expand_loop os st dst2 (dp + ?k + length v) (?left - int (length v)) r \<noteq> Fault"
                using less.prems(2) p(2) q(2) le by (intro less.hyps) auto
              with cont Some p(1) Prop v q(1) show ?thesis by (subst expand_loop.simps) simp
            qed
          qed
        qed
      qed
    qed
  qed
qed

lemma expand_loop_overflow:
  assumes "length dst = Suc n" "0 < n"
  shows "expand_loop os st dst 0 (int n) (replicate n (CHR ''a'') @ ''$$'') = Fault"
proof -
  let ?src = "replicate n (CHR ''a'') @ ''$$''"
  have c: "strchr ?src (CHR ''$'') = Some ''$$''" by (rule strchr_append) simp
  obtain dst' where p: "push_chars dst 0 (int n) ?src n = Ret (0, dst', 0 + n, int n - int n)" "length dst' = length dst"
    using push_chars_ok [of n "int n" 0 dst ?src] assms by auto
  have "finish_text (dst'[n := CHR ''$'']) (Suc n) = Fault" using p(2) assms(1) by (simp add: finish_text_def store_def)
  then have "expand_loop os st (dst'[n := CHR ''$'']) (Suc n) (-1) [] = Fault" by (subst expand_loop.simps) simp
  moreover have "after_dollar ''$'' = Literal []" by (simp add: after_dollar_def)
  moreover have "store dst' n (CHR ''$'') = Ret (dst'[n := CHR ''$''])" using p(2) assms(1) by (simp add: store_ok)
  ultimately show ?thesis using assms(2) c p(1) by (subst expand_loop.simps) (simp del: strchr_NULL_iff)
qed



end
