(* ===== verification/Init_Service.thy ===== *)
theory Init_Service
  imports Init_Expand
begin

text \<open>
  The services of init: starting, stopping and restarting them (\<open>core/init/init.c\<close>), what the
  forked child executes, and the
  messages that control them. A service is an index of \<open>service_list\<close>.
\<close>

section \<open>The environment of children\<close>

definition add_environment :: "string \<Rightarrow> string \<Rightarrow> string ptr list \<Rightarrow> int \<times> string ptr list" where
  "add_environment key val env =
     (case find (\<lambda>n. env ! n = NULL) [0..<31] of
        Some n \<Rightarrow> (0, env[n := Some (key @ ''='' @ val)])
      | None \<Rightarrow> (1, env))"

definition remove_environment :: "string \<Rightarrow> string ptr list \<Rightarrow> int \<times> string ptr list" where
  "remove_environment key env =
     (case find (\<lambda>n. case env ! n of None \<Rightarrow> False | Some e \<Rightarrow> strncmp_eq e key (length key)) [0..<31] of
        Some n \<Rightarrow> (0, if n = 30 then env[30 := NULL] else take n env @ take (30 - n) (drop (n + 1) env) @ drop 30 env)
      | None \<Rightarrow> (1, env))"

lemma strtok_rest_shorter: "strtok d s = Some x \<Longrightarrow> (t, r) = x \<Longrightarrow> length r < length s"
  using strtok_shorter [of d s t r] by simp

function bootclasspath_tokens :: "os \<Rightarrow> string \<Rightarrow> init_state \<Rightarrow> string list \<times> init_state" where
  "bootclasspath_tokens os s st =
     (case strtok (CHR '':'') s of
        None \<Rightarrow> ([], st)
      | Some (token, rest) \<Rightarrow>
          let (exists, st) = ask (\<lambda>n. os_stat os n token) st; (ts, st) = bootclasspath_tokens os rest st
          in (if exists then token # ts else ts, st))"
  by pat_completeness auto

termination
proof (relation "measure (\<lambda>(os, s, st). length s)", goal_cases)
  case 1
  show ?case by simp
next
  case 2
  then show ?case unfolding in_measure split_conv by (intro strtok_rest_shorter) (rule 2)+
qed

declare bootclasspath_tokens.simps [simp del]

text \<open>The array holds eight tokens and the string built from them 512 characters.\<close>

definition append_opt_bootclasspath :: "os \<Rightarrow> string \<Rightarrow> init_state \<Rightarrow> (int \<times> init_state) exec" where
  "append_opt_bootclasspath os opt st =
     (let (ok_token, st) = bootclasspath_tokens os opt st;
          good = concat (map (\<lambda>t. '':'' @ t) ok_token)
      in if 8 < length ok_token then Fault
         else if ok_token = [] then Ret (0, st)
         else if 512 \<le> length good then Fault
         else case find (\<lambda>n. case ENV st ! n of None \<Rightarrow> False | Some e \<Rightarrow> strncmp_eq e ''BOOTCLASSPATH='' 14) [0..<31] of
           Some n \<Rightarrow> Ret (0, st\<lparr>ENV := (ENV st)[n := map_option (\<lambda>e. e @ good) (ENV st ! n)]\<rparr>)
         | None \<Rightarrow> Ret (0, st))"

section \<open>What a child executes\<close>

definition INIT_PARSER_MAXARGS :: nat where "INIT_PARSER_MAXARGS = 64"

definition publish_socket :: "string \<Rightarrow> int \<Rightarrow> string ptr list \<Rightarrow> string ptr list" where
  "publish_socket name fd env =
     snd (add_environment (''ANDROID_SOCKET_'' @ take (64 - 16 - 1) name) (show_int fd) env)"

fun publish_sockets :: "os \<Rightarrow> nat \<Rightarrow> socketinfo list \<Rightarrow> string ptr list \<Rightarrow> string ptr list" where
  "publish_sockets os n [] env = env"
| "publish_sockets os n (si # sis) env =
     (let s = os_socket os n (si_name si)
      in publish_sockets os (Suc n) sis (if 0 \<le> s then publish_socket (si_name si) s env else env))"

text \<open>\<open>strsep(&next, " ")\<close> until it returns NULL.\<close>

fun strsep_words :: "string \<Rightarrow> string \<Rightarrow> string list" where
  "strsep_words w [] = [w]"
| "strsep_words w (c # cs) = (if c = CHR '' '' then w # strsep_words [] cs else strsep_words (w @ [c]) cs)"

definition child_args :: "service \<Rightarrow> string ptr \<Rightarrow> string list" where
  "child_args svc dynamic_args =
     (case dynamic_args of
        None \<Rightarrow> svc_args svc
      | Some s \<Rightarrow> svc_args svc @ take (INIT_PARSER_MAXARGS - svc_nargs svc) (strsep_words [] s))"

definition service_child :: "os \<Rightarrow> service \<Rightarrow> string ptr \<Rightarrow> init_state \<Rightarrow> child" where
  "service_child os svc dynamic_args st =
     (let env = ENV st;
          env = (if property_area_inited st
                 then snd (add_environment ''ANDROID_PROPERTY_WORKSPACE'' (os_workspace os (os_calls st)) env) else env);
          env = foldl (\<lambda>env ei. snd (add_environment (ei_name ei) (ei_value ei) env)) env (svc_envvars svc);
          env = publish_sockets os (os_calls st) (svc_sockets svc) env
      in \<lparr>ch_args = child_args svc dynamic_args, ch_env = env, ch_uid = svc_uid svc, ch_gid = svc_gid svc,
          ch_groups = take (svc_nr_supp_gids svc) (svc_supp_gids svc), ch_console = flagged svc SVC_CONSOLE\<rparr>)"

section \<open>Finding services\<close>

definition service_find_by_name :: "string \<Rightarrow> init_state \<Rightarrow> nat ptr" where
  "service_find_by_name name st =
     find (\<lambda>i. svc_name (service_list st ! i) = name) [0..<length (service_list st)]"

definition service_find_by_pid :: "int \<Rightarrow> init_state \<Rightarrow> nat ptr" where
  "service_find_by_pid pid st =
     find (\<lambda>i. svc_pid (service_list st ! i) = pid) [0..<length (service_list st)]"

definition service_find_by_keychord :: "int \<Rightarrow> init_state \<Rightarrow> nat ptr" where
  "service_find_by_keychord keychord_id st =
     find (\<lambda>i. svc_keychord_id (service_list st ! i) = keychord_id) [0..<length (service_list st)]"

definition service_for_each :: "(nat \<Rightarrow> init_state \<Rightarrow> init_state exec) \<Rightarrow> init_state \<Rightarrow> init_state exec" where
  "service_for_each fn st = for_each fn [0..<length (service_list st)] st"

definition service_for_each_class :: "string \<Rightarrow> (nat \<Rightarrow> init_state \<Rightarrow> init_state exec) \<Rightarrow> init_state \<Rightarrow> init_state exec" where
  "service_for_each_class classname fn st =
     for_each (\<lambda>i st. if svc_classname (service_list st ! i) = classname then fn i st else Ret st)
       [0..<length (service_list st)] st"

definition service_for_each_flags :: "u32 \<Rightarrow> (nat \<Rightarrow> init_state \<Rightarrow> init_state exec) \<Rightarrow> init_state \<Rightarrow> init_state exec" where
  "service_for_each_flags matchflags fn st =
     for_each (\<lambda>i st. if flagged (service_list st ! i) matchflags then fn i st else Ret st)
       [0..<length (service_list st)] st"

section \<open>Starting and stopping\<close>

definition notify_service_state :: "os \<Rightarrow> string \<Rightarrow> string \<Rightarrow> init_state \<Rightarrow> init_state exec" where
  "notify_service_state os name state st =
     (if length name + 10 > PROP_NAME_MAX then Ret st
      else do {
        (_, st) \<leftarrow> property_set os (''init.svc.'' @ name) state st;
        Ret st
      })"

definition set_flags :: "u32 \<Rightarrow> service \<Rightarrow> service" where
  "set_flags f svc = svc\<lparr>svc_flags := svc_flags svc OR f\<rparr>"

definition clear_flags :: "u32 \<Rightarrow> service \<Rightarrow> service" where
  "clear_flags f svc = svc\<lparr>svc_flags := svc_flags svc AND NOT f\<rparr>"

definition service_start :: "os \<Rightarrow> nat \<Rightarrow> string ptr \<Rightarrow> init_state \<Rightarrow> init_state exec" where
  "service_start os i dynamic_args st =
     (let st = upd_svc i (\<lambda>svc. (clear_flags (SVC_DISABLED OR SVC_RESTARTING OR SVC_RESET) svc)\<lparr>svc_time_started := 0\<rparr>) st;
          svc = service_list st ! i
      in if flagged svc SVC_RUNNING then Ret st
         else if flagged svc SVC_CONSOLE \<and> \<not> have_console st then Ret (upd_svc i (set_flags SVC_DISABLED) st)
         else
           let (found, st) = ask (\<lambda>n. os_stat os n (svc_args svc ! 0)) st
           in if \<not> found then Ret (upd_svc i (set_flags SVC_DISABLED) st)
              else if \<not> flagged svc SVC_ONESHOT \<and> dynamic_args \<noteq> NULL then Ret (upd_svc i (set_flags SVC_DISABLED) st)
              else
                let (pid, st) = ask (os_fork os) st
                in if pid < 0 then Ret (upd_svc i (\<lambda>svc. svc\<lparr>svc_pid := 0\<rparr>) st)
                   else
                     let st = tell (Fork pid (service_child os svc dynamic_args st)) st;
                         (now, st) = gettime os st;
                         st = upd_svc i (\<lambda>svc. set_flags SVC_RUNNING (svc\<lparr>svc_time_started := now, svc_pid := pid\<rparr>)) st
                     in if property_area_inited st then notify_service_state os (svc_name svc) ''running'' st else Ret st)"

definition service_stop_or_reset :: "os \<Rightarrow> nat \<Rightarrow> u32 \<Rightarrow> init_state \<Rightarrow> init_state exec" where
  "service_stop_or_reset os i how st =
     (let st = upd_svc i (clear_flags (SVC_RUNNING OR SVC_RESTARTING)) st;
          how = (if how \<noteq> SVC_DISABLED \<and> how \<noteq> SVC_RESET then SVC_DISABLED else how);
          st = (if how = SVC_RESET
                then upd_svc i (\<lambda>svc. set_flags (if flagged svc SVC_RC_DISABLED then SVC_DISABLED else SVC_RESET) svc) st
                else upd_svc i (set_flags how) st);
          svc = service_list st ! i
      in if svc_pid svc \<noteq> 0 then
           notify_service_state os (svc_name svc) ''stopping''
             (tell (Kill (- svc_pid svc)
                (if svc_name svc \<in> {''mux'', ''pppd-gprs'', ''ril-daemon'', ''pppoe''} then SIGTERM else SIGKILL)) st)
         else notify_service_state os (svc_name svc) ''stopped'' st)"

definition service_reset :: "os \<Rightarrow> nat \<Rightarrow> init_state \<Rightarrow> init_state exec" where
  "service_reset os i st = service_stop_or_reset os i SVC_RESET st"

definition service_stop :: "os \<Rightarrow> nat \<Rightarrow> init_state \<Rightarrow> init_state exec" where
  "service_stop os i st = service_stop_or_reset os i SVC_DISABLED st"

definition restart_service_if_needed :: "os \<Rightarrow> nat \<Rightarrow> init_state \<Rightarrow> init_state exec" where
  "restart_service_if_needed os i st =
     (let next_start_time = svc_time_started (service_list st ! i) + 5;
          (now, st) = gettime os st
      in if next_start_time \<le> now then service_start os i NULL (upd_svc i (clear_flags SVC_RESTARTING) st)
         else if next_start_time < process_needs_restart st \<or> process_needs_restart st = 0
         then Ret (st\<lparr>process_needs_restart := next_start_time\<rparr>)
         else Ret st)"

definition restart_processes :: "os \<Rightarrow> init_state \<Rightarrow> init_state exec" where
  "restart_processes os st =
     service_for_each_flags SVC_RESTARTING (restart_service_if_needed os) (st\<lparr>process_needs_restart := 0\<rparr>)"

section \<open>Control messages\<close>

definition device_power :: "os \<Rightarrow> bool \<Rightarrow> string \<Rightarrow> init_state \<Rightarrow> init_state" where
  "device_power os on device st =
     (let (answer, st) = ask (\<lambda>n. os_syspara os n device) st
      in case answer of None \<Rightarrow> st | Some _ \<Rightarrow> tell (Gpio on device) st)"

definition is_led :: "string \<Rightarrow> bool" where
  "is_led name \<longleftrightarrow> name = ''ethled'' \<or> name = ''wifiled'' \<or> name = ''netled''"

definition msg_start :: "os \<Rightarrow> string \<Rightarrow> init_state \<Rightarrow> init_state exec" where
  "msg_start os name st =
     (let (svc, args) = (case strchr name (CHR '':'') of
            None \<Rightarrow> (service_find_by_name name st, NULL)
          | Some t \<Rightarrow> (service_find_by_name (takeWhile (\<lambda>c. c \<noteq> CHR '':'') name) st, Some (tl t)))
      in if is_led name then Ret (device_power os True (''wmt.gpo.'' @ name) st)
         else case svc of Some i \<Rightarrow> service_start os i args st | None \<Rightarrow> Ret st)"

definition msg_stop :: "os \<Rightarrow> string \<Rightarrow> init_state \<Rightarrow> init_state exec" where
  "msg_stop os name st =
     (if is_led name then Ret (device_power os False (''wmt.gpo.'' @ name) st)
      else case service_find_by_name name st of Some i \<Rightarrow> service_stop os i st | None \<Rightarrow> Ret st)"

definition handle_control_message :: "os \<Rightarrow> string \<Rightarrow> string \<Rightarrow> init_state \<Rightarrow> init_state exec" where
  "handle_control_message os msg arg st =
     (if msg = ''start'' then msg_start os arg st
      else if msg = ''stop'' then msg_stop os arg st
      else if msg = ''restart'' then do {
        st \<leftarrow> msg_stop os arg st;
        msg_start os arg st
      }
      else Ret st)"

text \<open>
  A request at the property socket: the credentials of the peer and the message, NULL where
  \<open>accept\<close>, \<open>getsockopt\<close> or \<open>recv\<close> fail. The character arrays of the message may hold anything.
\<close>

datatype prop_cmd = PROP_MSG_SETPROP | Other_cmd

record prop_msg =
  msg_cmd :: prop_cmd
  msg_name :: string
  msg_value :: string

definition c_text :: "nat \<Rightarrow> string \<Rightarrow> string" where
  "c_text n raw = takeWhile (\<lambda>c. c \<noteq> CHR 0x00) (take (n - 1) raw)"

definition handle_property_set_fd :: "os \<Rightarrow> (u32 \<times> u32) ptr \<Rightarrow> prop_msg ptr \<Rightarrow> init_state \<Rightarrow> init_state exec" where
  "handle_property_set_fd os cr received st =
     (case (cr, received) of
        (Some (uid, gid), Some msg) \<Rightarrow>
          (case msg_cmd msg of
             PROP_MSG_SETPROP \<Rightarrow>
               let name = c_text PROP_NAME_MAX (msg_name msg); value = c_text PROP_VALUE_MAX (msg_value msg)
               in if take 4 (msg_name msg) = ''ctl.'' then
                    if check_control_perms value uid gid then handle_control_message os (drop 4 name) value st
                    else Ret st
                  else if check_perms name uid gid then do {
                    (_, st) \<leftarrow> property_set os name value st;
                    Ret st
                  }
                  else Ret st
           | Other_cmd \<Rightarrow> Ret st)
      | _ \<Rightarrow> Ret st)"

section \<open>Requests of applications\<close>

lemma search_permsD:
  "search_perms ps name uid gid \<Longrightarrow> \<exists>p \<in> set ps. prefixed (fst p) name \<and> (fst (snd p) = uid \<or> snd (snd p) = gid)"
  by (induction ps name uid gid rule: search_perms.induct) (auto split: if_splits)

lemma search_controlD:
  "search_control ps name uid gid \<Longrightarrow> \<exists>p \<in> set ps. fst p = name \<and> (fst (snd p) = uid \<or> snd (snd p) = gid)"
  by (induction ps name uid gid rule: search_control.induct) (auto split: if_splits)

lemma perms_below_app:
  "p \<in> set property_perms \<union> set control_perms \<Longrightarrow> fst (snd p) < AID_APP \<and> snd (snd p) < AID_APP"
  by (auto simp: property_perms_def control_perms_def)

lemma app_not_granted:
  assumes "AID_APP \<le> uid" "AID_APP \<le> gid"
  shows "\<not> search_perms property_perms name uid gid" "\<not> search_control control_perms name uid gid" "uid \<noteq> AID_ROOT" "uid \<noteq> AID_SYSTEM"
  using assms perms_below_app by (fastforce dest!: search_permsD search_controlD)+

text \<open>The names that every process may set, whatever its user.\<close>

definition wmt_name :: "string \<Rightarrow> bool" where
  "wmt_name name \<longleftrightarrow>
     (let name = (if prefixed ''ro.'' name then drop 3 name else name)
      in prefixed ''wmt.'' name \<or> strstr_found name ''.wmt.'')"



end
