(* ===== verification/Init_Main.thy ===== *)
theory Init_Main
  imports Init_Service
begin

text \<open>
  The commands of the configuration language (\<open>core/init/builtins.c\<close>), the handling of exited
  processes and of key chords (\<open>core/init/signal_handler.c\<close>, \<open>core/init/keychords.c\<close>), the start of the
  property service, and one turn of the main loop (\<open>core/init/init.c\<close>). Commands that only
  call the kernel are recorded as effects; their results are answers of the system.
\<close>

section \<open>Commands\<close>

definition service_start_if_not_disabled :: "os \<Rightarrow> nat \<Rightarrow> init_state \<Rightarrow> init_state exec" where
  "service_start_if_not_disabled os i st =
     (if \<not> flagged (service_list st ! i) SVC_DISABLED then service_start os i NULL st else Ret st)"

definition do_setprop_cmd :: "os \<Rightarrow> string list \<Rightarrow> init_state \<Rightarrow> (int \<times> init_state) exec" where
  "do_setprop_cmd os args st = do {
     name \<leftarrow> load args 1;
     value \<leftarrow> load args 2;
     (ret, prop_val) \<leftarrow> expand_props os (replicate PROP_VALUE_MAX (CHR 0x00)) value st;
     if ret \<noteq> 0 then Ret (-22, st)
     else do {
       (_, st) \<leftarrow> property_set os name (takeWhile (\<lambda>c. c \<noteq> CHR 0x00) prop_val) st;
       Ret (0, st)
     }
   }"

definition do_write_cmd :: "os \<Rightarrow> string list \<Rightarrow> init_state \<Rightarrow> (int \<times> init_state) exec" where
  "do_write_cmd os args st = do {
     path \<leftarrow> load args 1;
     value \<leftarrow> load args 2;
     (ret, prop_val) \<leftarrow> expand_props os (replicate PROP_VALUE_MAX (CHR 0x00)) value st;
     if ret \<noteq> 0 then Ret (-22, st)
     else
       let write = [path, takeWhile (\<lambda>c. c \<noteq> CHR 0x00) prop_val];
           (r, st) = ask (\<lambda>n. os_command os n do_write write) st
       in Ret (r, tell (Command do_write write) st)
   }"

definition on_service :: "(nat \<Rightarrow> init_state \<Rightarrow> init_state exec) \<Rightarrow> string list \<Rightarrow> init_state \<Rightarrow> (int \<times> init_state) exec" where
  "on_service fn args st = do {
     name \<leftarrow> load args 1;
     st \<leftarrow> (case service_find_by_name name st of Some i \<Rightarrow> fn i st | None \<Rightarrow> Ret st);
     Ret (0, st)
   }"

definition do_mount_all_cmd :: "os \<Rightarrow> nat \<Rightarrow> string list \<Rightarrow> init_state \<Rightarrow> (int \<times> init_state) exec" where
  "do_mount_all_cmd os nargs args st =
     (if nargs \<noteq> 2 then Ret (-1, st)
      else
        let (pid, st) = ask (os_fork os) st
        in if pid < 0 then Ret (-1, st)
           else
             let (ret, st) = ask (\<lambda>n. os_command os n do_mount_all args) st
             in if ret = 1 then do {
                  (_, st) \<leftarrow> property_set os ''ro.crypto.state'' ''encrypted'' st;
                  (_, st) \<leftarrow> property_set os ''vold.decrypt'' ''1'' st;
                  Ret (ret, st)
                }
                else do {
                  (_, st) \<leftarrow> property_set os ''ro.crypto.state'' ''unencrypted'' st;
                  st \<leftarrow> action_for_each_trigger ''nonencrypted'' action_add_queue_tail st;
                  Ret (ret, st)
                })"

text \<open>Is the main external device the card? The buffer is empty if the parameter is not set.\<close>

definition maindev_sdcard :: "os \<Rightarrow> init_state \<Rightarrow> bool \<times> init_state" where
  "maindev_sdcard os st =
     (let (answer, st) = ask (\<lambda>n. os_syspara os n ''wmt.main.externaldev'') st
      in (answer = Some ''sdcard'', st))"

definition set_env :: "(string ptr list \<Rightarrow> int \<times> string ptr list) \<Rightarrow> init_state \<Rightarrow> init_state" where
  "set_env f st = st\<lparr>ENV := snd (f (ENV st))\<rparr>"

definition run_command :: "os \<Rightarrow> func \<Rightarrow> nat \<Rightarrow> string list \<Rightarrow> init_state \<Rightarrow> (int \<times> init_state) exec" where
  "run_command os f nargs args st =
     (if f = do_class_start then do {
        c \<leftarrow> load args 1;
        st \<leftarrow> service_for_each_class c (service_start_if_not_disabled os) st;
        Ret (0, st)
      }
      else if f = do_class_stop then do {
        c \<leftarrow> load args 1;
        st \<leftarrow> service_for_each_class c (service_stop os) st;
        Ret (0, st)
      }
      else if f = do_class_reset then do {
        c \<leftarrow> load args 1;
        st \<leftarrow> service_for_each_class c (service_reset os) st;
        Ret (0, st)
      }
      else if f = do_exec then Ret (-1, st)
      else if f = do_export then do {
        key \<leftarrow> load args 1;
        val \<leftarrow> load args 2;
        Ret (0, set_env (add_environment key val) st)
      }
      else if f = do_export_for_sdexternal then do {
        key \<leftarrow> load args 1;
        val \<leftarrow> load args 2;
        let (sd, st) = maindev_sdcard os st in Ret (0, if sd then set_env (add_environment key val) st else st)
      }
      else if f = do_unexport_for_sdexternal then do {
        key \<leftarrow> load args 1;
        let (sd, st) = maindev_sdcard os st in Ret (0, if sd then set_env (remove_environment key) st else st)
      }
      else if f = do_symlink_for_sdexternal \<or> f = do_rm_for_sdexternal then
        let (sd, st) = maindev_sdcard os st
        in if sd then let (r, st) = ask (\<lambda>n. os_command os n f args) st in Ret (r, tell (Command f args) st)
           else Ret (0, st)
      else if f = do_setprop then do_setprop_cmd os args st
      else if f = do_write then do_write_cmd os args st
      else if f = do_start then on_service (\<lambda>i. service_start os i NULL) args st
      else if f = do_stop then on_service (service_stop os) args st
      else if f = do_restart then
        on_service (\<lambda>i st. do { st \<leftarrow> service_stop os i st; service_start os i NULL st }) args st
      else if f = do_trigger then do {
        trigger \<leftarrow> load args 1;
        st \<leftarrow> action_for_each_trigger trigger action_add_queue_tail st;
        Ret (0, st)
      }
      else if f = do_mount_all then do_mount_all_cmd os nargs args st
      else if f = do_load_persist_props then
        if nargs = 1 then do {
          st \<leftarrow> load_persist_props os st;
          Ret (0, st)
        }
        else Ret (-1, st)
      else if f = do_optbcp then
        if nargs = 2 then do {
          val \<leftarrow> load args 1;
          append_opt_bootclasspath os val st
        }
        else Ret (-1, st)
      else
        let (r, st) = ask (\<lambda>n. os_command os n f args) st
        in Ret (r, tell (Command f args) st))"

section \<open>Exited processes\<close>

definition CRITICAL_CRASH_THRESHOLD :: int where "CRITICAL_CRASH_THRESHOLD = 4"
definition CRITICAL_CRASH_WINDOW :: int where "CRITICAL_CRASH_WINDOW = 4 * 60"

text \<open>The process of a service is gone; a one-shot service becomes disabled.\<close>

definition process_gone :: "service \<Rightarrow> service" where
  "process_gone svc =
     (let svc = clear_flags SVC_RUNNING (svc\<lparr>svc_pid := 0\<rparr>)
      in if flagged svc SVC_ONESHOT then set_flags SVC_DISABLED svc else svc)"

text \<open>Crashes of a critical service within the window, and whether there were too many.\<close>

definition count_crash :: "int \<Rightarrow> service \<Rightarrow> bool \<times> service" where
  "count_crash now svc =
     (if flagged svc SVC_CRITICAL then
        if svc_time_crashed svc + CRITICAL_CRASH_WINDOW \<ge> now then
          (let svc = svc\<lparr>svc_nr_crashed := svc_nr_crashed svc + 1\<rparr> in (svc_nr_crashed svc > CRITICAL_CRASH_THRESHOLD, svc))
        else (False, svc\<lparr>svc_time_crashed := now, svc_nr_crashed := 1\<rparr>)
      else (False, svc))"

definition remove_sockets :: "socketinfo list \<Rightarrow> init_state \<Rightarrow> init_state" where
  "remove_sockets sis st = foldl (\<lambda>st si. tell (Unlink (take (128 - 1) (''/dev/socket/'' @ si_name si))) st) st sis"

definition run_onrestart :: "os \<Rightarrow> command list \<Rightarrow> init_state \<Rightarrow> init_state exec" where
  "run_onrestart os cmds st =
     for_each (\<lambda>cmd st. do {
         (_, st) \<leftarrow> run_command os (cmd_func cmd) (cmd_nargs cmd) (cmd_args cmd) st;
         Ret st
       }) cmds st"

text \<open>What follows for a service that is neither disabled nor reset.\<close>

definition service_crashed :: "os \<Rightarrow> nat \<Rightarrow> init_state \<Rightarrow> init_state exec" where
  "service_crashed os i st =
     (let (now, st) = gettime os st;
          (reboot, svc) = count_crash now (service_list st ! i);
          st = upd_svc i (\<lambda>_. svc) st
      in if reboot then Ret (tell (Reboot ''recovery'') st)
         else do {
           st \<leftarrow> run_onrestart os (svc_onrestart svc) (upd_svc i (set_flags SVC_RESTARTING) st);
           notify_service_state os (svc_name svc) ''restarting'' st
         })"

definition wait_for_one_process :: "os \<Rightarrow> int \<Rightarrow> init_state \<Rightarrow> init_state exec" where
  "wait_for_one_process os pid st =
     (case service_find_by_pid pid st of
        None \<Rightarrow> Ret st
      | Some i \<Rightarrow>
          let svc = service_list st ! i;
              st = (if \<not> flagged svc SVC_ONESHOT then tell (Kill (- pid) SIGKILL) st else st);
              st = remove_sockets (svc_sockets svc) st;
              st = upd_svc i process_gone st;
              svc = service_list st ! i
          in if flagged svc (SVC_DISABLED OR SVC_RESET) then notify_service_state os (svc_name svc) ''stopped'' st
             else service_crashed os i st)"

definition handle_signal :: "os \<Rightarrow> init_state \<Rightarrow> init_state exec" where
  "handle_signal os st =
     (let (pids, st) = ask (os_zombies os) st
      in for_each (wait_for_one_process os) pids st)"

definition signal_init :: "os \<Rightarrow> init_state \<Rightarrow> init_state exec" where
  "signal_init os st =
     (let (fd, st) = ask (\<lambda>n. os_socket os n ''signal'') st
      in handle_signal os (if 0 \<le> fd then st\<lparr>signal_fd := fd\<rparr> else st))"

section \<open>Key chords\<close>

definition add_service_keycodes :: "nat \<Rightarrow> int \<times> init_state \<Rightarrow> int \<times> init_state" where
  "add_service_keycodes i = (\<lambda>(keychords_count, st).
     if svc_keycodes (service_list st ! i) \<noteq> NULL
     then (keychords_count + 1, upd_svc i (\<lambda>svc. svc\<lparr>svc_keychord_id := keychords_count + 1\<rparr>) st)
     else (keychords_count, st))"

definition keychord_init :: "init_state \<Rightarrow> init_state" where
  "keychord_init st = snd (fold add_service_keycodes [0..<length (service_list st)] (0, st))"

definition handle_keychord :: "os \<Rightarrow> int ptr \<Rightarrow> init_state \<Rightarrow> init_state exec" where
  "handle_keychord os received st =
     (case received of
        None \<Rightarrow> Ret st
      | Some k \<Rightarrow>
          if property_get os ''ro.debuggable'' st = Some ''1'' \<or> property_get os ''init.svc.adbd'' st = Some ''running''
          then (case service_find_by_keychord k st of
                  Some i \<Rightarrow> service_start os i NULL st
                | None \<Rightarrow> Ret st)
          else Ret st)"

section \<open>The property service starts\<close>

definition set_prop :: "os \<Rightarrow> string \<Rightarrow> string \<Rightarrow> init_state \<Rightarrow> init_state exec" where
  "set_prop os name value st = do {
     (_, st) \<leftarrow> property_set os name value st;
     Ret st
   }"

definition set_maindev :: "os \<Rightarrow> init_state \<Rightarrow> init_state exec" where
  "set_maindev os st =
     (let external = property_get os ''persist.wmt.maindev'' st
      in if property_get os ''persist.wmt.app2sd.enable'' st = Some ''true'' then
           let (answer, st) = ask (\<lambda>n. os_syspara os n ''wmt.main.externaldev'') st;
               maindev = (case answer of None \<Rightarrow> [] | Some v \<Rightarrow> v)
           in if maindev = ''sdcard'' then
                if external \<noteq> Some ''1'' then set_prop os ''persist.wmt.maindev'' ''1'' st else Ret st
              else if maindev = [] \<or> external \<noteq> Some ''0'' then set_prop os ''persist.wmt.maindev'' ''0'' st
              else Ret st
         else Ret st)"

definition modem_type :: "os \<Rightarrow> string \<Rightarrow> string \<Rightarrow> init_state \<Rightarrow> init_state exec" where
  "modem_type os file name st =
     (let (answer, st) = ask (\<lambda>n. os_file os n file) st
      in case answer of
           None \<Rightarrow> Ret st
         | Some (_, contents) \<Rightarrow>
             let modemType = takeWhile (\<lambda>c. c \<noteq> CHR 0x00) (take 7 contents)
             in if modemType \<noteq> [] then set_prop os name (butlast modemType) st else Ret st)"

definition start_property_service :: "os \<Rightarrow> init_state \<Rightarrow> init_state exec" where
  "start_property_service os st = do {
     st \<leftarrow> load_properties_from_file os (os_path os PROP_PATH_SYSTEM_BUILD) st;
     st \<leftarrow> load_properties_from_file os (os_path os PROP_PATH_SYSTEM_DEFAULT) st;
     st \<leftarrow> load_override_properties os st;
     st \<leftarrow> load_persistent_properties os st;
     st \<leftarrow> set_maindev os st;
     st \<leftarrow> (case property_get os ''ril.modem.enable'' st of
              None \<Rightarrow> Ret st
            | Some enable \<Rightarrow>
                if fst (strtol 10 enable) = 1 then do {
                  st \<leftarrow> modem_type os ''/etc/ppp/ril.modem.type'' ''ril.modem.type'' st;
                  modem_type os ''/etc/ppp/ril.modem.type2'' ''ril.modem.type2'' st
                }
                else Ret st);
     let (fd, st) = ask (\<lambda>n. os_socket os n ''property_service'') st
     in Ret (if fd < 0 then st else st\<lparr>property_set_fd := fd\<rparr>)
   }"

section \<open>Built-in actions and the main loop\<close>

definition queue_all_property_triggers :: "os \<Rightarrow> init_state \<Rightarrow> init_state exec" where
  "queue_all_property_triggers os st =
     for_each (\<lambda>act st.
         let trigger = act_name (action_list st ! act); name = drop (length ''property:'') trigger
         in if prefixed ''property:'' trigger then
              (case strchr name (CHR ''='') of
                 None \<Rightarrow> Ret st
               | Some equals \<Rightarrow>
                   let prop_name = takeWhile (\<lambda>c. c \<noteq> CHR ''='') name
                   in if length prop_name > PROP_NAME_MAX then Ret st
                      else (case property_get os prop_name st of
                              None \<Rightarrow> Ret st
                            | Some value \<Rightarrow>
                                if tl equals = value \<or> tl equals = ''*'' then action_add_queue_tail act st else Ret st))
            else Ret st)
       [0..<length (action_list st)] st"

definition run_func :: "os \<Rightarrow> command \<Rightarrow> init_state \<Rightarrow> init_state exec" where
  "run_func os cmd st =
     (if cmd_func cmd = keychord_init_action then Ret (keychord_init st)
      else if cmd_func cmd = console_init_action then
        let (fd, st) = ask (\<lambda>n. os_command os n console_init_action (cmd_args cmd)) st
        in Ret (if 0 \<le> fd then st\<lparr>have_console := True\<rparr> else st)
      else if cmd_func cmd = property_service_init_action then start_property_service os st
      else if cmd_func cmd = signal_init_action then signal_init os st
      else if cmd_func cmd = check_startup_action then
        Ret (if property_set_fd st < 0 \<or> signal_fd st < 0 then tell Exit st else tell (Unlink ''/dev/.booting'') st)
      else if cmd_func cmd = queue_property_triggers_action then do {
        st \<leftarrow> queue_all_property_triggers os st;
        Ret (st\<lparr>property_triggers_enabled := True\<rparr>)
      }
      else do {
        (_, st) \<leftarrow> run_command os (cmd_func cmd) (cmd_nargs cmd) (cmd_args cmd) st;
        Ret st
      })"

definition get_first_command :: "action \<Rightarrow> nat ptr" where
  "get_first_command act = (if act_commands act = [] then NULL else Some 0)"

definition get_next_command :: "action \<Rightarrow> nat \<Rightarrow> nat ptr" where
  "get_next_command act cmd = (if Suc cmd = length (act_commands act) then NULL else Some (Suc cmd))"

definition is_last_command :: "action \<Rightarrow> nat \<Rightarrow> bool" where
  "is_last_command act cmd \<longleftrightarrow> Suc cmd = length (act_commands act)"

text \<open>The next command of the current action, or the first of the next action in the queue.\<close>

definition next_action :: "init_state \<Rightarrow> init_state exec" where
  "next_action st = do {
     (act, st) \<leftarrow> action_remove_queue_head st;
     Ret (st\<lparr>cur_action := act,
       cur_command := (case act of None \<Rightarrow> NULL | Some a \<Rightarrow> get_first_command (action_list st ! a))\<rparr>)
   }"

definition select_command :: "init_state \<Rightarrow> init_state exec" where
  "select_command st =
     (case (cur_action st, cur_command st) of
        (Some act, Some cmd) \<Rightarrow>
          if is_last_command (action_list st ! act) cmd then next_action st
          else Ret (st\<lparr>cur_command := get_next_command (action_list st ! act) cmd\<rparr>)
      | _ \<Rightarrow> next_action st)"

definition execute_one_command :: "os \<Rightarrow> init_state \<Rightarrow> init_state exec" where
  "execute_one_command os st = do {
     st \<leftarrow> select_command st;
     case (cur_action st, cur_command st) of
       (Some act, Some cmd) \<Rightarrow> run_func os (act_commands (action_list st ! act) ! cmd) st
     | _ \<Rightarrow> Ret st
   }"

text \<open>How long \<open>poll\<close> may sleep, in milliseconds; -1 is for ever.\<close>

definition poll_timeout :: "os \<Rightarrow> init_state \<Rightarrow> int \<times> init_state" where
  "poll_timeout os st =
     (let (timeout, st) =
            (if process_needs_restart st \<noteq> 0
             then (let (now, st) = gettime os st; t = (process_needs_restart st - now) * 1000
                   in (if t < 0 then 0 else t, st))
             else (-1, st))
      in (if \<not> action_queue_empty st \<or> cur_action st \<noteq> NULL then 0 else timeout, st))"

text \<open>What \<open>poll\<close> reports: a request at the property socket, a key chord, an exited child.\<close>

datatype poll_event = Property_request "(u32 \<times> u32) ptr" "prop_msg ptr" | Keychord "int ptr" | Child_exited

fun handle_event :: "os \<Rightarrow> poll_event \<Rightarrow> init_state \<Rightarrow> init_state exec" where
  "handle_event os (Property_request cr msg) st = handle_property_set_fd os cr msg st"
| "handle_event os (Keychord k) st = handle_keychord os k st"
| "handle_event os Child_exited st = handle_signal os st"

definition main_iteration :: "os \<Rightarrow> poll_event list \<Rightarrow> init_state \<Rightarrow> (int \<times> init_state) exec" where
  "main_iteration os events st = do {
     st \<leftarrow> execute_one_command os st;
     st \<leftarrow> restart_processes os st;
     let (timeout, st) = poll_timeout os st
     in do {
       st \<leftarrow> for_each (handle_event os) events st;
       Ret (timeout, st)
     }
   }"

text \<open>The first turns of the loop, with what \<open>poll\<close> reports in each.\<close>

fun main_loop :: "os \<Rightarrow> poll_event list list \<Rightarrow> init_state \<Rightarrow> init_state exec" where
  "main_loop os [] st = Ret st"
| "main_loop os (events # turns) st = do {
     (_, st) \<leftarrow> main_iteration os events st;
     main_loop os turns st
   }"

end
