(* ===== verification/Init_Steps.thy ===== *)
theory Init_Steps
  imports Init_Main
begin

text \<open>
  Init as a transition system. Every operation of init is a sequence of a few kinds of steps, so
  what the steps keep holds in every state the main loop reaches.
\<close>

section \<open>Flags\<close>

lemma and_power_nonzero: "(w :: u32) AND 2 ^ k \<noteq> 0 \<longleftrightarrow> k < 32 \<and> bit w k"
  by (auto simp: bit_eq_iff [of "w AND 2 ^ k"] bit_simps)

lemma flagged_bit:
  "flagged svc SVC_DISABLED \<longleftrightarrow> bit (svc_flags svc) 0" "flagged svc SVC_ONESHOT \<longleftrightarrow> bit (svc_flags svc) 1"
  "flagged svc SVC_RUNNING \<longleftrightarrow> bit (svc_flags svc) 2" "flagged svc SVC_RESTARTING \<longleftrightarrow> bit (svc_flags svc) 3"
  "flagged svc SVC_CONSOLE \<longleftrightarrow> bit (svc_flags svc) 4" "flagged svc SVC_CRITICAL \<longleftrightarrow> bit (svc_flags svc) 5"
  "flagged svc SVC_RESET \<longleftrightarrow> bit (svc_flags svc) 6" "flagged svc SVC_RC_DISABLED \<longleftrightarrow> bit (svc_flags svc) 7"
  using and_power_nonzero [of "svc_flags svc" 0] and_power_nonzero [of "svc_flags svc" 1]
    and_power_nonzero [of "svc_flags svc" 2] and_power_nonzero [of "svc_flags svc" 3]
    and_power_nonzero [of "svc_flags svc" 4] and_power_nonzero [of "svc_flags svc" 5]
    and_power_nonzero [of "svc_flags svc" 6] and_power_nonzero [of "svc_flags svc" 7]
  by (simp_all add: flagged_def svc_flag_defs)

lemma flagged_or: "flagged svc (f OR g) \<longleftrightarrow> flagged svc f \<or> flagged svc g"
  by (auto simp: flagged_def bit_eq_iff bit_simps)

lemma bit_power: "bit (push_bit k 1 :: u32) n \<longleftrightarrow> k < 32 \<and> n = k"
  by (auto simp: bit_simps)

lemma flag_bits:
  "bit SVC_DISABLED n \<longleftrightarrow> n = 0" "bit SVC_ONESHOT n \<longleftrightarrow> n = 1" "bit SVC_RUNNING n \<longleftrightarrow> n = 2" "bit SVC_RESTARTING n \<longleftrightarrow> n = 3"
  "bit SVC_CONSOLE n \<longleftrightarrow> n = 4" "bit SVC_CRITICAL n \<longleftrightarrow> n = 5" "bit SVC_RESET n \<longleftrightarrow> n = 6" "bit SVC_RC_DISABLED n \<longleftrightarrow> n = 7"
  using bit_power [of 0 n] bit_power [of 1 n] bit_power [of 2 n] bit_power [of 3 n]
    bit_power [of 4 n] bit_power [of 5 n] bit_power [of 6 n] bit_power [of 7 n]
  by (simp_all add: svc_flag_defs)

lemmas flag_simps = flagged_or flagged_bit set_flags_def clear_flags_def flag_bits bit_or_iff bit_and_iff bit_not_iff

section \<open>Steps\<close>

text \<open>A change that concerns neither services nor properties.\<close>

definition quiet :: "init_state \<Rightarrow> init_state \<Rightarrow> bool" where
  "quiet st st' \<longleftrightarrow> service_list st' = service_list st \<and> prop_area st' = prop_area st \<and> os_calls st \<le> os_calls st'"

inductive init_step :: "os \<Rightarrow> init_state \<Rightarrow> init_state \<Rightarrow> bool" for os where
  other: "quiet st st' \<Longrightarrow> init_step os st st'"
| setprop: "property_set os name value st = Ret (r, st') \<Longrightarrow> init_step os st st'"
| start: "i < length (service_list st) \<Longrightarrow> service_start os i args st = Ret st' \<Longrightarrow> init_step os st st'"
| stop: "i < length (service_list st) \<Longrightarrow> service_stop_or_reset os i how st = Ret st' \<Longrightarrow> init_step os st st'"
| due: "i < length (service_list st) \<Longrightarrow> init_step os st (upd_svc i (clear_flags SVC_RESTARTING) st)"
| exited: "i < length (service_list st) \<Longrightarrow> svc_pid (service_list st ! i) \<noteq> 0 \<Longrightarrow> init_step os st (upd_svc i process_gone st)"
| crashed: "i < length (service_list st) \<Longrightarrow> init_step os st (upd_svc i (\<lambda>svc. snd (count_crash now svc)) st)"
| restarting: "i < length (service_list st) \<Longrightarrow> svc_pid (service_list st ! i) = 0 \<Longrightarrow>
    \<not> flagged (service_list st ! i) (SVC_RUNNING OR SVC_ONESHOT OR SVC_DISABLED OR SVC_RESET) \<Longrightarrow>
    init_step os st (upd_svc i (set_flags SVC_RESTARTING) st)"
| keychord: "i < length (service_list st) \<Longrightarrow> init_step os st (upd_svc i (\<lambda>svc. svc\<lparr>svc_keychord_id := k\<rparr>) st)"

abbreviation init_steps :: "os \<Rightarrow> init_state \<Rightarrow> init_state \<Rightarrow> bool" where
  "init_steps os \<equiv> (init_step os)\<^sup>*\<^sup>*"

section \<open>What a step keeps\<close>

text \<open>The configuration of a service.\<close>

definition svc_config :: "service \<Rightarrow> service" where
  "svc_config svc = svc\<lparr>svc_flags := svc_flags svc AND NOT (SVC_DISABLED OR SVC_RUNNING OR SVC_RESTARTING OR SVC_RESET),
     svc_pid := 0, svc_time_started := 0, svc_time_crashed := 0, svc_nr_crashed := 0, svc_keychord_id := 0\<rparr>"

text \<open>
  A service that runs has a process and waits for nothing; one that waits for its restart has no
  process, and was not stopped.
\<close>

definition svc_ok :: "service \<Rightarrow> bool" where
  "svc_ok svc \<longleftrightarrow> 0 \<le> svc_pid svc \<and> 0 \<le> svc_time_started svc \<and>
     (flagged svc SVC_RUNNING \<longrightarrow> svc_pid svc \<noteq> 0 \<and> \<not> flagged svc (SVC_DISABLED OR SVC_RESET OR SVC_RESTARTING)) \<and>
     (flagged svc SVC_RESTARTING \<longrightarrow> svc_pid svc = 0 \<and> \<not> flagged svc (SVC_DISABLED OR SVC_RESET OR SVC_ONESHOT))"

text \<open>
  What the code relies on: \<open>fork\<close> returns a positive number or -1 to the parent, \<open>waitpid\<close> returns positive
  numbers, the monotonic clock is not negative, and the search for a property is correct.
\<close>

definition os_ok :: "os \<Rightarrow> bool" where
  "os_ok os \<longleftrightarrow> find_ok (os_find os) \<and> (\<forall>n. os_fork os n \<noteq> 0) \<and> (\<forall>n. \<forall>pid \<in> set (os_zombies os n). 0 < pid) \<and>
     (\<forall>n. 0 \<le> os_time os n)"

definition init_inv :: "init_state \<Rightarrow> bool" where
  "init_inv st \<longleftrightarrow> (\<forall>svc \<in> set (service_list st). svc_ok svc) \<and> prop_wf (prop_area st)"

text \<open>What stays from one state to a later one.\<close>

definition kept :: "init_state \<Rightarrow> init_state \<Rightarrow> bool" where
  "kept st st' \<longleftrightarrow> map svc_config (service_list st') = map svc_config (service_list st) \<and> os_calls st \<le> os_calls st' \<and>
     (\<forall>n v. ro_locked n \<and> prop_map (prop_area st) n = Some v \<longrightarrow> prop_map (prop_area st') n = Some v)"

lemma kept_refl [simp]: "kept st st"
  by (simp add: kept_def)

lemma kept_trans: "kept st st' \<Longrightarrow> kept st' st'' \<Longrightarrow> kept st st''"
  by (simp add: kept_def)

definition good :: "init_state \<Rightarrow> init_state \<Rightarrow> bool" where
  "good st st' \<longleftrightarrow> (init_inv st \<longrightarrow> init_inv st' \<and> kept st st')"

lemma good_refl [simp]: "good st st"
  by (simp add: good_def)

lemma good_trans: "good st st' \<Longrightarrow> good st' st'' \<Longrightarrow> good st st''"
  using kept_trans by (auto simp: good_def)

lemma good_quiet: "quiet st st' \<Longrightarrow> good st st'"
  by (simp add: good_def quiet_def init_inv_def kept_def)

lemma good_property_set:
  assumes "os_ok os" "property_set os name value st = Ret (r, st')"
  shows "good st st'"
proof -
  have "props_changed st st'" using property_set_result [OF assms(2)] by (simp add: set_result_def)
  moreover have "find_ok (os_find os)" using assms(1) by (simp add: os_ok_def)
  ultimately show ?thesis
    using property_set_area(1,4) [OF _ _ assms(2)] by (auto simp: good_def init_inv_def kept_def props_changed_def)
qed

lemma good_notify: "os_ok os \<Longrightarrow> notify_service_state os name s st = Ret st' \<Longrightarrow> good st st'"
  by (auto simp: notify_service_state_def bind_eq_Some_conv dest: good_property_set split: if_splits)

lemma good_upd:
  assumes "i < length (service_list st)" "svc_config (f (service_list st ! i)) = svc_config (service_list st ! i)"
    and "svc_ok (service_list st ! i) \<Longrightarrow> svc_ok (f (service_list st ! i))"
  shows "good st (upd_svc i f st)"
  using assms set_update_subset_insert [of "service_list st" i "f (service_list st ! i)"] nth_mem [OF assms(1)]
  by (auto simp: good_def init_inv_def kept_def upd_svc_def map_update intro!: list_update_same_conv [THEN iffD2])

lemma quiet_simps [simp]:
  "quiet st st" "quiet st (st\<lparr>os_calls := Suc (os_calls st)\<rparr>)" "quiet st (tell e st)"
  by (simp_all add: quiet_def tell_def)

lemma upd_svc_sel [simp]:
  "length (service_list (upd_svc i f st)) = length (service_list st)"
  "i < length (service_list st) \<Longrightarrow> service_list (upd_svc i f st) ! i = f (service_list st ! i)"
  "prop_area (upd_svc i f st) = prop_area st" "os_calls (upd_svc i f st) = os_calls st"
  "have_console (upd_svc i f st) = have_console st" "property_area_inited (upd_svc i f st) = property_area_inited st"
  by (simp_all add: upd_svc_def)

lemma svc_config_bits: "bit (w AND NOT (SVC_DISABLED OR SVC_RUNNING OR SVC_RESTARTING OR SVC_RESET)) n \<longleftrightarrow> bit w n \<and> n \<notin> {0, 2, 3, 6}"
  by (auto simp: bit_simps flag_bits dest: bit_imp_le_length)

lemma svc_config_eqI:
  assumes "svc\<lparr>svc_flags := 0, svc_pid := 0, svc_time_started := 0, svc_time_crashed := 0, svc_nr_crashed := 0, svc_keychord_id := 0\<rparr> =
      svc'\<lparr>svc_flags := 0, svc_pid := 0, svc_time_started := 0, svc_time_crashed := 0, svc_nr_crashed := 0, svc_keychord_id := 0\<rparr>"
    and "\<And>n. n < 32 \<Longrightarrow> n \<notin> {0, 2, 3, 6} \<Longrightarrow> bit (svc_flags svc) n = bit (svc_flags svc') n"
  shows "svc_config svc = svc_config svc'"
proof -
  have "svc_flags svc AND NOT (SVC_DISABLED OR SVC_RUNNING OR SVC_RESTARTING OR SVC_RESET) =
      svc_flags svc' AND NOT (SVC_DISABLED OR SVC_RUNNING OR SVC_RESTARTING OR SVC_RESET)"
    by (rule bit_word_eqI) (simp only: svc_config_bits, use assms(2) in force)
  with assms(1) show ?thesis by (cases svc; cases svc') (simp add: svc_config_def)
qed

lemma good_start:
  assumes "os_ok os" "i < length (service_list st)" "service_start os i args st = Ret st'"
  shows "good st st'"
proof -
  define st1 where "st1 = upd_svc i (\<lambda>svc. (clear_flags (SVC_DISABLED OR SVC_RESTARTING OR SVC_RESET) svc)\<lparr>svc_time_started := 0\<rparr>) st"
  define svc where "svc = service_list st1 ! i"
  have i: "i < length (service_list st1)" using assms(2) by (simp add: st1_def)
  have 1: "good st st1" unfolding st1_def
    by (rule good_upd [OF assms(2)]) (auto intro!: svc_config_eqI simp: svc_ok_def flag_simps)
  have c: "\<not> flagged svc (SVC_DISABLED OR SVC_RESTARTING OR SVC_RESET)"
    using assms(2) by (simp add: svc_def st1_def flag_simps)
  show ?thesis
  proof (cases "flagged svc SVC_RUNNING")
    case True
    with assms(3) 1 show ?thesis by (simp add: service_start_def Let_def flip: st1_def svc_def)
  next
    case nr: False
    have dis: "good st2 (upd_svc i (set_flags SVC_DISABLED) st2)" if "service_list st2 = service_list st1" for st2
      by (rule good_upd) (use i nr c in \<open>auto intro!: svc_config_eqI simp: that svc_ok_def flag_simps svc_def\<close>)
    define st2 where "st2 = st1\<lparr>os_calls := Suc (os_calls st1)\<rparr>"
    define st3 where "st3 = st2\<lparr>os_calls := Suc (os_calls st2)\<rparr>"
    have q: "good st1 st2" "good st2 st3" by (auto intro!: good_quiet simp: quiet_def st2_def st3_def)
    have l: "service_list st2 = service_list st1" "service_list st3 = service_list st1" by (simp_all add: st2_def st3_def)
    define pid where "pid = os_fork os (os_calls st2)"
    define st4 where "st4 = (tell (Fork pid (service_child os svc args st3)) st3)\<lparr>os_calls := Suc (os_calls st3)\<rparr>"
    define st5 where "st5 = upd_svc i (\<lambda>svc. set_flags SVC_RUNNING (svc\<lparr>svc_time_started := os_time os (os_calls st3), svc_pid := pid\<rparr>)) st4"
    have pid: "pid \<noteq> 0" "0 \<le> os_time os n" for n using assms(1) by (auto simp: os_ok_def pid_def)
    have 4: "service_list st4 = service_list st1" "good st3 st4"
      by (auto intro!: good_quiet simp: st4_def quiet_def tell_def l)
    have 5: "good st4 st5" if "0 \<le> pid" unfolding st5_def
      by (rule good_upd) (use i c pid that in \<open>auto intro!: svc_config_eqI simp: 4(1) svc_ok_def flag_simps svc_def\<close>)
    have f: "good st3 (upd_svc i (\<lambda>svc. svc\<lparr>svc_pid := 0\<rparr>) st3)"
      by (rule good_upd) (use i nr in \<open>auto intro!: svc_config_eqI simp: l(2) svc_ok_def flag_simps svc_def\<close>)
    consider "st' = upd_svc i (set_flags SVC_DISABLED) st1" | "st' = upd_svc i (set_flags SVC_DISABLED) st2"
      | "st' = upd_svc i (\<lambda>svc. svc\<lparr>svc_pid := 0\<rparr>) st3"
      | "0 \<le> pid" "st' = st5" | "0 \<le> pid" "notify_service_state os (svc_name svc) ''running'' st5 = Ret st'"
      using assms(3) nr
      by (auto simp: service_start_def Let_def ask_def gettime_def tell_def st5_def st4_def st3_def st2_def pid_def
          simp flip: st1_def svc_def split: if_splits)
    moreover have "good st st3" "good st st4" using 1 q 4(2) by (blast intro: good_trans)+
    ultimately show ?thesis
      using 1 q(1) dis [OF refl] dis [OF l(1)] 5 f good_notify [OF assms(1)] by cases (blast intro: good_trans)+
  qed
qed

lemma if_RetE: "(if P then a else b) = Ret x \<Longrightarrow> (P \<Longrightarrow> a = Ret x \<Longrightarrow> Q) \<Longrightarrow> (\<not> P \<Longrightarrow> b = Ret x \<Longrightarrow> Q) \<Longrightarrow> Q"
  by (simp split: if_splits)

lemma good_stop:
  assumes "os_ok os" "i < length (service_list st)" "service_stop_or_reset os i how st = Ret st'"
  shows "good st st'"
proof -
  define h where "h = (if how \<noteq> SVC_DISABLED \<and> how \<noteq> SVC_RESET then SVC_DISABLED else how)"
  define f where "f = (\<lambda>svc. set_flags (if h = SVC_RESET then if flagged svc SVC_RC_DISABLED then SVC_DISABLED else SVC_RESET else h)
    (clear_flags (SVC_RUNNING OR SVC_RESTARTING) svc))"
  have h: "h = SVC_DISABLED \<or> h = SVC_RESET" by (simp add: h_def)
  define st0 where "st0 = upd_svc i (clear_flags (SVC_RUNNING OR SVC_RESTARTING)) st"
  have rc: "flagged (clear_flags (SVC_RUNNING OR SVC_RESTARTING) svc) SVC_RC_DISABLED = flagged svc SVC_RC_DISABLED" for svc
    by (simp add: flag_simps)
  have e: "(if h = SVC_RESET
      then upd_svc i (\<lambda>svc. set_flags (if flagged svc SVC_RC_DISABLED then SVC_DISABLED else SVC_RESET) svc) st0
      else upd_svc i (set_flags h) st0) = upd_svc i f st"
    using assms(2) by (simp add: f_def st0_def upd_svc_def rc)
  obtain st1 sg where st1: "quiet (upd_svc i f st) st1"
      "notify_service_state os (svc_name (service_list (upd_svc i f st) ! i)) sg st1 = Ret st'"
    using assms(3) [unfolded service_stop_or_reset_def Let_def, folded h_def st0_def, unfolded e]
    by (rule if_RetE) (rule that [OF quiet_simps(3)], assumption, rule that [OF quiet_simps(1)], assumption)
  have "good st (upd_svc i f st)"
    by (rule good_upd) (use assms(2) h in \<open>auto intro!: svc_config_eqI simp: f_def svc_ok_def flag_simps\<close>)
  then show ?thesis using good_quiet [OF st1(1)] good_notify [OF assms(1) st1(2)] by (blast intro: good_trans)
qed

lemma count_crash_sel [simp]:
  "svc_flags (snd (count_crash now svc)) = svc_flags svc" "svc_pid (snd (count_crash now svc)) = svc_pid svc"
  "svc_time_started (snd (count_crash now svc)) = svc_time_started svc" "svc_config (snd (count_crash now svc)) = svc_config svc"
  "svc_name (snd (count_crash now svc)) = svc_name svc"
  by (auto simp: count_crash_def svc_config_def Let_def)

lemma init_step_good:
  assumes "os_ok os" "init_step os st st'"
  shows "good st st'"
  using assms(2)
proof cases
  case other
  then show ?thesis by (rule good_quiet)
next
  case setprop
  then show ?thesis by (rule good_property_set [OF assms(1)])
next
  case start
  then show ?thesis by (rule good_start [OF assms(1)])
next
  case stop
  then show ?thesis by (rule good_stop [OF assms(1)])
next
  case (due i)
  show ?thesis unfolding due(1) by (rule good_upd [OF due(2)]) (auto intro!: svc_config_eqI simp: svc_ok_def flag_simps)
next
  case (exited i)
  show ?thesis unfolding exited(1)
    by (rule good_upd [OF exited(2)]) (use exited(3) in \<open>auto intro!: svc_config_eqI simp: process_gone_def Let_def svc_ok_def flag_simps\<close>)
next
  case (crashed i now)
  show ?thesis unfolding crashed(1) by (rule good_upd [OF crashed(2)]) (auto simp: svc_ok_def flag_simps)
next
  case (restarting i)
  show ?thesis unfolding restarting(1)
    by (rule good_upd [OF restarting(2)]) (use restarting(3,4) in \<open>auto intro!: svc_config_eqI simp: svc_ok_def flag_simps\<close>)
next
  case (keychord i k)
  show ?thesis unfolding keychord(1) by (rule good_upd [OF keychord(2)]) (auto simp: svc_config_def svc_ok_def flag_simps)
qed

lemma init_steps_good: "init_steps os st st' \<Longrightarrow> os_ok os \<Longrightarrow> good st st'"
  by (induction rule: rtranclp_induct) (auto intro: good_trans init_step_good)

section \<open>The operations are steps\<close>

lemma notify_props_changed: "notify_service_state os name s st = Ret st' \<Longrightarrow> props_changed st st'"
  by (auto simp: notify_service_state_def bind_eq_Some_conv set_result_def dest!: property_set_result split: if_splits)

lemma service_start_length:
  "service_start os i args st = Ret st' \<Longrightarrow> length (service_list st') = length (service_list st)"
  unfolding service_start_def Let_def ask_def gettime_def split_conv
  by (elim if_RetE) (auto simp: tell_def upd_svc_def props_changed_def dest!: notify_props_changed)

lemma service_stop_length:
  "service_stop_or_reset os i how st = Ret st' \<Longrightarrow> length (service_list st') = length (service_list st)"
  unfolding service_stop_or_reset_def Let_def
  by (elim if_RetE) (auto simp: tell_def upd_svc_def props_changed_def dest!: notify_props_changed)

lemma init_step_length: "init_step os st st' \<Longrightarrow> length (service_list st') = length (service_list st)"
  by (cases rule: init_step.cases)
    (auto simp: quiet_def set_result_def props_changed_def dest!: property_set_result service_start_length service_stop_length)

lemma init_steps_length: "init_steps os st st' \<Longrightarrow> length (service_list st') = length (service_list st)"
  by (induction rule: rtranclp_induct) (auto dest: init_step_length)

lemma quiet_steps: "quiet st st' \<Longrightarrow> init_steps os st st'"
  by (blast intro: init_step.other)

lemma requeued_steps: "requeued st st' \<Longrightarrow> init_steps os st st'"
  by (rule quiet_steps) (simp add: quiet_def requeued_fields)

lemma for_each_steps:
  assumes "for_each f xs st = Ret st'" "\<And>x st st'. x \<in> set xs \<Longrightarrow> f x st = Ret st' \<Longrightarrow> init_steps os st st'"
  shows "init_steps os st st'"
  by (rule for_each_inv [OF assms(1), where P = "init_steps os st"]) (auto intro: rtranclp_trans assms(2))

lemma for_each_service_steps:
  assumes "for_each f [0..<length (service_list st)] st = Ret st'"
    and "\<And>i st st'. i < length (service_list st) \<Longrightarrow> f i st = Ret st' \<Longrightarrow> init_steps os st st'"
  shows "init_steps os st st'"
proof -
  let ?P = "\<lambda>s. init_steps os st s \<and> length (service_list s) = length (service_list st)"
  have "?P s'" if "x \<in> set [0..<length (service_list st)]" "?P s" "f x s = Ret s'" for x s s'
  proof -
    have "init_steps os s s'" using that by (intro assms(2)) auto
    with that(2) init_steps_length [OF this] show ?thesis by (auto intro: rtranclp_trans)
  qed
  then show ?thesis using for_each_inv [OF assms(1), where P = ?P] by blast
qed

lemma setprop_steps: "property_set os name value st = Ret (r, st') \<Longrightarrow> init_steps os st st'"
  by (blast intro: init_step.setprop)

lemma notify_steps: "notify_service_state os name s st = Ret st' \<Longrightarrow> init_steps os st st'"
  by (auto simp: notify_service_state_def bind_eq_Some_conv dest: setprop_steps split: if_splits)

lemma find_less: "find P [0..<n] = Some i \<Longrightarrow> i < n \<and> P i"
  by (auto simp: find_Some_iff)

lemma service_found:
  "service_find_by_name name st = Some i \<Longrightarrow> i < length (service_list st)"
  "service_find_by_pid pid st = Some i \<Longrightarrow> i < length (service_list st) \<and> svc_pid (service_list st ! i) = pid"
  "service_find_by_keychord k st = Some i \<Longrightarrow> i < length (service_list st)"
  by (auto simp: service_find_by_name_def service_find_by_pid_def service_find_by_keychord_def dest: find_less)

lemma start_steps: "i < length (service_list st) \<Longrightarrow> service_start os i args st = Ret st' \<Longrightarrow> init_steps os st st'"
  by (blast intro: init_step.start)

lemma stop_steps:
  "i < length (service_list st) \<Longrightarrow> service_stop os i st = Ret st' \<Longrightarrow> init_steps os st st'"
  "i < length (service_list st) \<Longrightarrow> service_reset os i st = Ret st' \<Longrightarrow> init_steps os st st'"
  by (auto simp: service_stop_def service_reset_def intro: init_step.stop)

lemma stop_start_steps:
  assumes "i < length (service_list st)" "service_stop os i st = Ret st1" "service_start os i args st1 = Ret st'"
  shows "init_steps os st st'"
proof -
  have s: "init_steps os st st1" using assms by (blast intro: stop_steps)
  with assms(1,3) init_steps_length [OF s] start_steps [of i st1 os args st'] show ?thesis by (simp add: rtranclp_trans)
qed

lemma load_line_steps: "load_line os l st = Ret st' \<Longrightarrow> init_steps os st st'"
  unfolding load_line_def by (auto simp: Let_def bind_eq_Some_conv dest: setprop_steps split: option.splits if_splits)

lemma load_properties_steps: "load_properties os data st = Ret st' \<Longrightarrow> init_steps os st st'"
proof (induction os data st arbitrary: st' rule: load_properties.induct)
  case (1 os data st)
  note u = 1(2) [unfolded load_properties.simps [of os data st]]
  show ?case
  proof (cases "strchr data (CHR 0x0A)")
    case (Some eol)
    with u obtain st1 where "load_line os (takeWhile (\<lambda>c. c \<noteq> CHR 0x0A) data) st = Ret st1"
        "load_properties os (tl eol) st1 = Ret st'" by (auto simp: bind_eq_Some_conv)
    then show ?thesis using 1(1) [OF Some] load_line_steps by (blast intro: rtranclp_trans)
  qed (use u in \<open>simp del: strchr_NULL_iff\<close>)
qed

lemma ask_quiet: "ask q st = (a, st') \<Longrightarrow> quiet st st'"
  by (auto simp: ask_def quiet_def)

lemma quiet_trans_steps: "quiet st st1 \<Longrightarrow> init_steps os st1 st' \<Longrightarrow> init_steps os st st'"
  by (blast intro: rtranclp_trans quiet_steps)

lemma ask_steps: "init_steps os (st\<lparr>os_calls := Suc (os_calls st)\<rparr>) st' \<Longrightarrow> init_steps os st st'"
  by (rule quiet_trans_steps) simp_all

lemma tell_steps: "init_steps os (tell e st) st' \<Longrightarrow> init_steps os st st'"
  by (rule quiet_trans_steps) simp_all

lemma load_properties_from_file_steps: "load_properties_from_file os fn st = Ret st' \<Longrightarrow> init_steps os st st'"
  unfolding load_properties_from_file_def read_file_def ask_def Let_def
  by (rule ask_steps) (auto split: option.splits prod.splits if_splits dest: load_properties_steps)

lemma load_persistent_property_steps: "load_persistent_property os entry st = Ret st' \<Longrightarrow> init_steps os st st'"
  by (auto simp: bind_eq_Some_conv load_persistent_property_def split: option.splits if_splits prod.splits dest: setprop_steps)

lemma load_persistent_properties_steps:
  assumes "load_persistent_properties os st = Ret st'"
  shows "init_steps os st st'"
proof (rule ask_steps)
  let ?st = "st\<lparr>os_calls := Suc (os_calls st)\<rparr>"
  obtain st1 where st1: "(case os_persist_dir os (os_calls st) of None \<Rightarrow> Ret ?st
      | Some entries \<Rightarrow> for_each (load_persistent_property os) entries ?st) = Ret st1" "st' = st1\<lparr>persistent_properties_loaded := True\<rparr>"
    using assms by (auto simp: load_persistent_properties_def ask_def bind_eq_Some_conv)
  have "init_steps os ?st st1"
    using st1(1) by (auto split: option.splits elim!: for_each_steps intro: load_persistent_property_steps)
  moreover have "init_steps os st1 st'" by (rule quiet_steps) (simp add: st1(2) quiet_def)
  ultimately show "init_steps os ?st st'" by (rule rtranclp_trans)
qed

lemma load_override_properties_steps: "load_override_properties os st = Ret st' \<Longrightarrow> init_steps os st st'"
  by (auto simp: load_override_properties_def dest: load_properties_from_file_steps split: if_splits)

lemma load_persist_props_steps: "load_persist_props os st = Ret st' \<Longrightarrow> init_steps os st st'"
  by (auto simp: load_persist_props_def bind_eq_Some_conv
      dest!: load_override_properties_steps load_persistent_properties_steps intro: rtranclp_trans)

lemma restart_steps:
  assumes "i < length (service_list st)" "restart_service_if_needed os i st = Ret st'"
  shows "init_steps os st st'"
proof (rule ask_steps)
  let ?st = "st\<lparr>os_calls := Suc (os_calls st)\<rparr>"
  let ?due = "upd_svc i (clear_flags SVC_RESTARTING) ?st"
  have d: "init_steps os ?st ?due" by (rule r_into_rtranclp, rule init_step.due) (use assms(1) in simp)
  have "service_start os i NULL ?due = Ret st' \<or> quiet ?st st'"
    using assms(2) unfolding restart_service_if_needed_def gettime_def ask_def Let_def split_conv
    by (elim if_RetE) (simp_all add: quiet_def, auto)
  then show "init_steps os ?st st'"
  proof
    assume "service_start os i NULL ?due = Ret st'"
    with assms(1) have "init_steps os ?due st'" by (intro start_steps) auto
    with d show ?thesis by (rule rtranclp_trans)
  qed (rule quiet_steps)
qed

lemma restart_processes_steps:
  assumes "restart_processes os st = Ret st'"
  shows "init_steps os st st'"
proof -
  let ?st = "st\<lparr>process_needs_restart := 0\<rparr>"
  have "quiet st ?st" by (simp add: quiet_def)
  moreover have "init_steps os ?st st'"
    by (rule for_each_service_steps [OF assms [unfolded restart_processes_def service_for_each_flags_def]])
      (auto dest: restart_steps split: if_splits)
  ultimately show ?thesis by (rule quiet_trans_steps)
qed

lemma service_for_each_class_steps:
  assumes "service_for_each_class c fn st = Ret st'"
    and "\<And>i st st'. i < length (service_list st) \<Longrightarrow> fn i st = Ret st' \<Longrightarrow> init_steps os st st'"
  shows "init_steps os st st'"
  by (rule for_each_service_steps [OF assms(1) [unfolded service_for_each_class_def]]) (auto dest: assms(2) split: if_splits)

lemma device_power_quiet: "quiet st (device_power os on device st)"
  by (auto simp: device_power_def ask_def Let_def quiet_def tell_def split: option.splits)

lemma msg_start_steps: "msg_start os name st = Ret st' \<Longrightarrow> init_steps os st st'"
  by (auto simp: msg_start_def Let_def split: if_splits option.splits prod.splits
      intro: quiet_steps [OF device_power_quiet] start_steps dest: service_found)

lemma msg_stop_steps: "msg_stop os name st = Ret st' \<Longrightarrow> init_steps os st st'"
  by (auto simp: msg_stop_def split: if_splits option.splits
      intro: quiet_steps [OF device_power_quiet] stop_steps dest: service_found)

lemma handle_control_message_steps: "handle_control_message os msg arg st = Ret st' \<Longrightarrow> init_steps os st st'"
  by (auto simp: handle_control_message_def bind_eq_Some_conv split: if_splits
      dest: msg_start_steps msg_stop_steps intro: rtranclp_trans)

lemma handle_property_set_fd_steps: "handle_property_set_fd os cr msg st = Ret st' \<Longrightarrow> init_steps os st st'"
  unfolding handle_property_set_fd_def Let_def
  by (auto simp: bind_eq_Some_conv split: option.splits prod.splits prop_cmd.splits if_splits
      dest: handle_control_message_steps setprop_steps)

lemma trigger_requeued: "action_for_each_trigger trigger action_add_queue_tail st = Ret st' \<Longrightarrow> requeued st st'"
  unfolding action_for_each_trigger_def
  by (erule for_each_frame) (auto dest: action_add_queue_tail_frame split: if_splits)

lemma start_if_not_disabled_steps:
  "i < length (service_list st) \<Longrightarrow> service_start_if_not_disabled os i st = Ret st' \<Longrightarrow> init_steps os st st'"
  by (auto simp: service_start_if_not_disabled_def intro: start_steps split: if_splits)

lemma do_setprop_steps: "do_setprop_cmd os args st = Ret (r, st') \<Longrightarrow> init_steps os st st'"
  by (auto simp: do_setprop_cmd_def bind_eq_Some_conv split: if_splits dest: setprop_steps)

lemma do_write_steps: "do_write_cmd os args st = Ret (r, st') \<Longrightarrow> init_steps os st st'"
  by (rule quiet_steps)
    (auto simp: do_write_cmd_def bind_eq_Some_conv Let_def ask_def tell_def quiet_def split: if_splits)

lemma on_service_steps:
  assumes "on_service fn args st = Ret (r, st')"
    and "\<And>i st'. i < length (service_list st) \<Longrightarrow> fn i st = Ret st' \<Longrightarrow> init_steps os st st'"
  shows "init_steps os st st'"
  using assms(1) by (auto simp: on_service_def bind_eq_Some_conv split: option.splits dest: service_found(1) assms(2))

lemma do_mount_all_steps:
  assumes "do_mount_all_cmd os nargs args st = Ret (r, st')"
  shows "init_steps os st st'"
proof (cases "nargs = 2 \<and> 0 \<le> os_fork os (os_calls st)")
  case False
  with assms show ?thesis
    by (intro quiet_steps) (auto simp: do_mount_all_cmd_def ask_def Let_def quiet_def split: if_splits)
next
  case True
  let ?st = "st\<lparr>os_calls := Suc (Suc (os_calls st))\<rparr>"
  have "quiet st ?st" by (simp add: quiet_def)
  moreover have "init_steps os ?st st'"
    using assms True
    by (auto simp: do_mount_all_cmd_def ask_def Let_def bind_eq_Some_conv split: if_splits
        dest!: setprop_steps trigger_requeued dest: requeued_steps [of _ _ os] intro: rtranclp_trans)
  ultimately show ?thesis by (rule quiet_trans_steps)
qed

lemma maindev_quiet: "maindev_sdcard os st = (sd, st') \<Longrightarrow> quiet st st'"
  by (auto simp: maindev_sdcard_def ask_def quiet_def)

lemma set_env_quiet: "quiet st st' \<Longrightarrow> quiet st (set_env f st')"
  by (simp add: set_env_def quiet_def)

lemma bootclasspath_quiet: "quiet st (snd (bootclasspath_tokens os s st))"
proof (induction os s st rule: bootclasspath_tokens.induct)
  case (1 os s st)
  then show ?case
    by (subst bootclasspath_tokens.simps)
      (force simp: ask_def Let_def quiet_def split: option.splits prod.splits)
qed

lemma append_opt_quiet:
  assumes "append_opt_bootclasspath os opt st = Ret (r, st')"
  shows "quiet st st'"
proof -
  have "quiet (snd (bootclasspath_tokens os opt st)) st'"
    using assms by (auto simp: append_opt_bootclasspath_def Let_def quiet_def split: prod.splits if_splits option.splits)
  with bootclasspath_quiet [of st os opt] show ?thesis by (simp add: quiet_def)
qed

lemma class_steps:
  "service_for_each_class c (service_start_if_not_disabled os) st = Ret st' \<Longrightarrow> init_steps os st st'"
  "service_for_each_class c (service_stop os) st = Ret st' \<Longrightarrow> init_steps os st st'"
  "service_for_each_class c (service_reset os) st = Ret st' \<Longrightarrow> init_steps os st st'"
  by (auto elim!: service_for_each_class_steps intro: start_if_not_disabled_steps stop_steps)

lemma on_service_cmd_steps:
  "on_service (\<lambda>i. service_start os i NULL) args st = Ret (r, st') \<Longrightarrow> init_steps os st st'"
  "on_service (service_stop os) args st = Ret (r, st') \<Longrightarrow> init_steps os st st'"
  "on_service (\<lambda>i st. do { st \<leftarrow> service_stop os i st; service_start os i NULL st }) args st = Ret (r, st') \<Longrightarrow> init_steps os st st'"
  by (auto elim!: on_service_steps simp: bind_eq_Some_conv intro: start_steps stop_steps stop_start_steps)

lemma kernel_command_quiet:
  "(case ask q st of (r, st) \<Rightarrow> Ret (r, tell e st)) = Ret (r, st') \<Longrightarrow> quiet st st'"
  by (auto simp: ask_def tell_def quiet_def)

lemma sdexternal_quiet:
  "(case maindev_sdcard os st of (sd, st) \<Rightarrow> Ret (0, if sd then set_env f st else st)) = Ret (r, st') \<Longrightarrow> quiet st st'"
  "(case maindev_sdcard os st of (sd, st) \<Rightarrow> if sd then case ask q st of (r, st) \<Rightarrow> Ret (r, tell e st) else Ret (0, st)) = Ret (r, st')
    \<Longrightarrow> quiet st st'"
  by (auto simp: maindev_sdcard_def set_env_def ask_def tell_def quiet_def split: if_splits)

lemma run_command_steps:
  assumes "run_command os f nargs args st = Ret (r, st')"
  shows "init_steps os st st'"
  using assms unfolding run_command_def Let_def
  by (elim if_RetE)
    (auto simp: bind_eq_Some_conv
      dest: class_steps on_service_cmd_steps do_setprop_steps do_write_steps do_mount_all_steps load_persist_props_steps
        trigger_requeued [THEN requeued_steps] append_opt_quiet [THEN quiet_steps]
        kernel_command_quiet [THEN quiet_steps] sdexternal_quiet [THEN quiet_steps]
      intro: quiet_steps [OF set_env_quiet])

lemma onrestart_steps: "run_onrestart os cmds st = Ret st' \<Longrightarrow> init_steps os st st'"
  unfolding run_onrestart_def by (erule for_each_steps) (auto simp: bind_eq_Some_conv dest: run_command_steps)

lemma quiet_trans: "quiet st st' \<Longrightarrow> quiet st' st'' \<Longrightarrow> quiet st st''"
  by (simp add: quiet_def)

lemma remove_sockets_quiet: "quiet st (remove_sockets sis st)"
  unfolding remove_sockets_def
proof (induction sis arbitrary: st)
  case (Cons si sis)
  show ?case unfolding foldl_Cons by (rule quiet_trans [OF quiet_simps(3) Cons])
qed simp

lemma service_crashed_steps:
  assumes "i < length (service_list st)" "svc_pid (service_list st ! i) = 0"
    and "\<not> flagged (service_list st ! i) (SVC_RUNNING OR SVC_ONESHOT OR SVC_DISABLED OR SVC_RESET)"
    and "service_crashed os i st = Ret st'"
  shows "init_steps os st st'"
proof (rule ask_steps)
  let ?st = "st\<lparr>os_calls := Suc (os_calls st)\<rparr>" and ?now = "os_time os (os_calls st)"
  let ?svc = "snd (count_crash ?now (service_list st ! i))"
  let ?st1 = "upd_svc i (\<lambda>svc. snd (count_crash ?now svc)) ?st"
  let ?st2 = "upd_svc i (set_flags SVC_RESTARTING) ?st1"
  have e: "upd_svc i (\<lambda>_. ?svc) ?st = ?st1" by (simp add: upd_svc_def)
  have 1: "init_steps os ?st ?st1" by (rule r_into_rtranclp, rule init_step.crashed) (use assms(1) in simp)
  have "init_step os ?st1 ?st2" by (rule init_step.restarting) (use assms(1-3) in \<open>simp_all add: flag_simps\<close>)
  with 1 have 2: "init_steps os ?st ?st2" by simp
  have "st' = tell (Reboot ''recovery'') ?st1 \<or>
      (\<exists>st3. run_onrestart os (svc_onrestart ?svc) ?st2 = Ret st3 \<and> notify_service_state os (svc_name ?svc) ''restarting'' st3 = Ret st')"
    using assms(4) unfolding service_crashed_def gettime_def ask_def Let_def split_beta fst_conv snd_conv
    by (elim if_RetE) (auto simp: e bind_eq_Some_conv simp del: count_crash_sel)
  then show "init_steps os ?st st'"
  proof
    assume "st' = tell (Reboot ''recovery'') ?st1"
    then have "quiet ?st1 st'" by simp
    with 1 show ?thesis by (blast intro: rtranclp_trans quiet_steps)
  next
    assume "\<exists>st3. run_onrestart os (svc_onrestart ?svc) ?st2 = Ret st3 \<and> notify_service_state os (svc_name ?svc) ''restarting'' st3 = Ret st'"
    with 2 show ?thesis by (blast intro: rtranclp_trans onrestart_steps notify_steps)
  qed
qed

lemma wait_steps:
  assumes "0 < pid" "wait_for_one_process os pid st = Ret st'"
  shows "init_steps os st st'"
proof (cases "service_find_by_pid pid st")
  case None
  with assms(2) show ?thesis by (simp add: wait_for_one_process_def)
next
  case (Some i)
  note f = service_found(2) [OF Some]
  let ?svc = "service_list st ! i"
  define st1 where "st1 = remove_sockets (svc_sockets ?svc) (if \<not> flagged ?svc SVC_ONESHOT then tell (Kill (- pid) SIGKILL) st else st)"
  define st2 where "st2 = upd_svc i process_gone st1"
  have q: "quiet st st1"
    unfolding st1_def by (rule quiet_trans [OF _ remove_sockets_quiet]) simp
  then have l: "service_list st1 = service_list st" by (simp add: quiet_def)
  have "init_step os st1 st2" unfolding st2_def by (rule init_step.exited) (use f assms(1) in \<open>simp_all add: l\<close>)
  then have 2: "init_steps os st st2" using quiet_trans_steps [OF q] by blast
  have "init_steps os st2 st'"
    using assms(2) unfolding wait_for_one_process_def Some option.case Let_def st1_def [symmetric] st2_def [symmetric]
  proof (rule if_RetE)
    assume n: "\<not> flagged (service_list st2 ! i) (SVC_DISABLED OR SVC_RESET)"
    then show ?thesis if "service_crashed os i st2 = Ret st'"
      by (intro service_crashed_steps [OF _ _ _ that])
        (use f in \<open>auto simp: st2_def l process_gone_def Let_def flag_simps split: if_splits\<close>)
  qed (rule notify_steps)
  with 2 show ?thesis by (rule rtranclp_trans)
qed

lemma handle_signal_steps:
  assumes "os_ok os" "handle_signal os st = Ret st'"
  shows "init_steps os st st'"
proof (rule ask_steps)
  have "for_each (wait_for_one_process os) (os_zombies os (os_calls st)) (st\<lparr>os_calls := Suc (os_calls st)\<rparr>) = Ret st'"
    using assms(2) by (simp add: handle_signal_def ask_def)
  then show "init_steps os (st\<lparr>os_calls := Suc (os_calls st)\<rparr>) st'"
    by (rule for_each_steps) (use assms(1) in \<open>auto simp: os_ok_def dest: wait_steps\<close>)
qed

lemma signal_init_steps:
  assumes "os_ok os" "signal_init os st = Ret st'"
  shows "init_steps os st st'"
proof -
  let ?fd = "os_socket os (os_calls st) ''signal''" and ?st = "st\<lparr>os_calls := Suc (os_calls st)\<rparr>"
  let ?st1 = "if 0 \<le> ?fd then ?st\<lparr>signal_fd := ?fd\<rparr> else ?st"
  have "quiet st ?st1" by (simp add: quiet_def)
  moreover have "handle_signal os ?st1 = Ret st'" using assms(2) by (simp only: signal_init_def ask_def Let_def split_conv)
  ultimately show ?thesis using handle_signal_steps [OF assms(1)] quiet_trans_steps by blast
qed

lemma add_service_keycodes_steps:
  "i < length (service_list st) \<Longrightarrow> init_steps os st (snd (add_service_keycodes i (c, st)))"
  by (auto simp: add_service_keycodes_def intro: init_step.keychord)

lemma keychord_init_steps: "init_steps os st (keychord_init st)"
proof -
  have "init_steps os st (snd (fold add_service_keycodes is (c, st)))" if "\<forall>i \<in> set is. i < length (service_list st)" for "is" c
    using that
  proof (induction "is" arbitrary: c st)
    case (Cons i "is")
    obtain c1 st1 where a: "add_service_keycodes i (c, st) = (c1, st1)" by fastforce
    have s: "init_steps os st st1" using add_service_keycodes_steps [of i st os c] Cons.prems by (simp add: a)
    with Cons.IH [of st1 c1] Cons.prems init_steps_length [OF s] show ?case by (auto simp: a intro: rtranclp_trans)
  qed simp
  then show ?thesis by (simp add: keychord_init_def)
qed

lemma handle_keychord_steps: "handle_keychord os k st = Ret st' \<Longrightarrow> init_steps os st st'"
  by (auto simp: handle_keychord_def split: option.splits if_splits dest: service_found(3) intro: start_steps)

lemma set_prop_steps: "set_prop os name value st = Ret st' \<Longrightarrow> init_steps os st st'"
  by (auto simp: set_prop_def bind_eq_Some_conv dest: setprop_steps)

lemma set_maindev_steps: "set_maindev os st = Ret st' \<Longrightarrow> init_steps os st st'"
  unfolding set_maindev_def Let_def ask_def split_conv
  by (elim if_RetE) (auto dest: set_prop_steps [THEN ask_steps] intro: ask_steps [OF rtranclp.rtrancl_refl] split: if_splits)

lemma modem_type_steps: "modem_type os file name st = Ret st' \<Longrightarrow> init_steps os st st'"
  unfolding modem_type_def Let_def ask_def split_conv
  by (rule ask_steps) (auto dest: set_prop_steps split: option.splits if_splits)

lemma start_property_service_steps:
  assumes "start_property_service os st = Ret st'"
  shows "init_steps os st st'"
proof -
  obtain st1 st2 st3 st4 st5 st6 where s:
      "load_properties_from_file os (os_path os PROP_PATH_SYSTEM_BUILD) st = Ret st1"
      "load_properties_from_file os (os_path os PROP_PATH_SYSTEM_DEFAULT) st1 = Ret st2"
      "load_override_properties os st2 = Ret st3" "load_persistent_properties os st3 = Ret st4" "set_maindev os st4 = Ret st5"
    and m: "(case property_get os ''ril.modem.enable'' st5 of None \<Rightarrow> Ret st5
        | Some enable \<Rightarrow> if fst (strtol 10 enable) = 1 then do {
            st \<leftarrow> modem_type os ''/etc/ppp/ril.modem.type'' ''ril.modem.type'' st5;
            modem_type os ''/etc/ppp/ril.modem.type2'' ''ril.modem.type2'' st
          } else Ret st5) = Ret st6"
    and q: "quiet st6 st'"
    using assms unfolding start_property_service_def
    by (auto simp: bind_eq_Some_conv ask_def Let_def quiet_def)
  have "init_steps os st5 st6"
    using m by (auto simp: bind_eq_Some_conv split: option.splits if_splits dest!: modem_type_steps intro: rtranclp_trans)
  note m6 = this
  have "init_steps os st st1" by (rule load_properties_from_file_steps [OF s(1)])
  also have "init_steps os st1 st2" by (rule load_properties_from_file_steps [OF s(2)])
  also have "init_steps os st2 st3" by (rule load_override_properties_steps [OF s(3)])
  also have "init_steps os st3 st4" by (rule load_persistent_properties_steps [OF s(4)])
  also have "init_steps os st4 st5" by (rule set_maindev_steps [OF s(5)])
  also note m6
  also have "init_steps os st6 st'" by (rule quiet_steps [OF q])
  finally show ?thesis .
qed

lemma queue_all_requeued: "queue_all_property_triggers os st = Ret st' \<Longrightarrow> requeued st st'"
  unfolding queue_all_property_triggers_def
  by (erule for_each_frame) (auto simp: Let_def dest: action_add_queue_tail_frame split: if_splits option.splits)

lemma run_func_steps:
  assumes "os_ok os" "run_func os cmd st = Ret st'"
  shows "init_steps os st st'"
  using assms(2) unfolding run_func_def
proof (elim if_RetE)
  assume "Ret (keychord_init st) = Ret st'"
  then show ?thesis using keychord_init_steps [of os st] by simp
next
  assume "(let (fd, st) = ask (\<lambda>n. os_command os n console_init_action (cmd_args cmd)) st
        in Ret (if 0 \<le> fd then st\<lparr>have_console := True\<rparr> else st)) = Ret st'"
  then show ?thesis by (intro quiet_steps) (auto simp: ask_def quiet_def)
next
  assume "Ret (if property_set_fd st < 0 \<or> signal_fd st < 0 then tell Exit st else tell (Unlink ''/dev/.booting'') st) = Ret st'"
  then show ?thesis by (intro quiet_steps) (auto split: if_splits)
next
  assume "do { st \<leftarrow> queue_all_property_triggers os st; Ret (st\<lparr>property_triggers_enabled := True\<rparr>) } = Ret st'"
  then obtain st1 where "requeued st st1" "st' = st1\<lparr>property_triggers_enabled := True\<rparr>"
    by (auto simp: bind_eq_Some_conv dest: queue_all_requeued)
  then show ?thesis by (intro quiet_steps) (simp add: quiet_def requeued_fields)
qed (auto simp: bind_eq_Some_conv dest: run_command_steps start_property_service_steps signal_init_steps [OF assms(1)])

lemma next_action_quiet:
  assumes "next_action st = Ret st'"
  shows "quiet st st'"
proof -
  obtain act st1 where "action_remove_queue_head st = Ret (act, st1)"
      "st' = st1\<lparr>cur_action := act, cur_command := (case act of None \<Rightarrow> NULL | Some a \<Rightarrow> get_first_command (action_list st1 ! a))\<rparr>"
    using assms by (auto simp: next_action_def bind_eq_Some_conv)
  then show ?thesis by (simp add: quiet_def requeued_fields [OF action_remove_queue_head_frame])
qed

lemma select_command_quiet: "select_command st = Ret st' \<Longrightarrow> quiet st st'"
  unfolding select_command_def
  by (auto split: option.splits if_splits dest: next_action_quiet) (auto simp: quiet_def)

lemma execute_one_command_steps:
  assumes "os_ok os" "execute_one_command os st = Ret st'"
  shows "init_steps os st st'"
proof -
  obtain st1 where s: "select_command st = Ret st1"
      "(case (cur_action st1, cur_command st1) of
         (Some act, Some cmd) \<Rightarrow> run_func os (act_commands (action_list st1 ! act) ! cmd) st1
       | _ \<Rightarrow> Ret st1) = Ret st'"
    using assms(2) unfolding execute_one_command_def bind_eq_Some_conv by blast
  have "init_steps os st1 st'"
    using s(2) by (auto split: option.splits dest: run_func_steps [OF assms(1)])
  then show ?thesis by (rule quiet_trans_steps [OF select_command_quiet [OF s(1)]])
qed

lemma handle_event_steps: "os_ok os \<Longrightarrow> handle_event os ev st = Ret st' \<Longrightarrow> init_steps os st st'"
  by (cases ev) (auto dest: handle_property_set_fd_steps handle_keychord_steps handle_signal_steps)

lemma poll_timeout_quiet: "quiet st (snd (poll_timeout os st))"
  by (auto simp: poll_timeout_def gettime_def ask_def Let_def quiet_def split: prod.splits if_splits)

lemma main_iteration_steps:
  assumes "os_ok os" "main_iteration os events st = Ret (timeout, st')"
  shows "init_steps os st st'"
proof -
  obtain st1 st2 where s: "execute_one_command os st = Ret st1" "restart_processes os st1 = Ret st2"
      "for_each (handle_event os) events (snd (poll_timeout os st2)) = Ret st'"
    using assms(2) by (auto simp: main_iteration_def bind_eq_Some_conv split_beta)
  have "init_steps os st st1" by (rule execute_one_command_steps [OF assms(1) s(1)])
  also have "init_steps os st1 st2" by (rule restart_processes_steps [OF s(2)])
  also have "init_steps os st2 (snd (poll_timeout os st2))" by (rule quiet_steps [OF poll_timeout_quiet])
  also have "init_steps os (snd (poll_timeout os st2)) st'"
    by (rule for_each_steps [OF s(3)]) (rule handle_event_steps [OF assms(1)])
  finally show ?thesis .
qed

lemma main_loop_steps: "os_ok os \<Longrightarrow> main_loop os turns st = Ret st' \<Longrightarrow> init_steps os st st'"
  by (induction turns arbitrary: st) (auto simp: bind_eq_Some_conv dest!: main_iteration_steps intro: rtranclp_trans)

section \<open>The invariant of init\<close>

text \<open>What holds after any number of turns of the main loop.\<close>

lemma main_loop_keeps:
  assumes "os_ok os" "init_inv st" "main_loop os turns st = Ret st'"
  shows "init_inv st' \<and> map svc_config (service_list st') = map svc_config (service_list st) \<and>
    (\<forall>name v. ro_locked name \<and> property_get os name st = Some v \<longrightarrow> property_get os name st' = Some v)"
proof -
  have k: "init_inv st'" "kept st st'"
    using init_steps_good [OF main_loop_steps [OF assms(1,3)] assms(1)] assms(2) by (auto simp: good_def)
  have "find_ok (os_find os)" using assms(1) by (simp add: os_ok_def)
  with k assms(2) show ?thesis by (auto simp: init_inv_def kept_def property_get_map split: if_splits)
qed

text \<open>A service that crashed, and a system whose clock has passed its delay.\<close>

definition demo_service :: service where
  "demo_service = \<lparr>svc_name = ''adbd'', svc_classname = ''default'', svc_flags = SVC_RESTARTING, svc_pid = 0, svc_time_started = 3,
     svc_time_crashed = 0, svc_nr_crashed = 0, svc_uid = 0, svc_gid = 0, svc_supp_gids = [], svc_nr_supp_gids = 0,
     svc_sockets = [], svc_envvars = [], svc_onrestart = [], svc_keycodes = NULL, svc_nkeycodes = 0, svc_keychord_id = 0,
     svc_ioprio_class = IoSchedClass_NONE, svc_ioprio_pri = 0, svc_nargs = 1, svc_args = [''/sbin/adbd'']\<rparr>"

definition demo_state :: init_state where
  "demo_state = init_start\<lparr>service_list := [demo_service]\<rparr>"

definition clock_os :: os where
  "clock_os = demo_os\<lparr>os_time := \<lambda>n. int n + 8\<rparr>"

lemma clock_os_ok: "os_ok clock_os"
  by (simp add: os_ok_def clock_os_def find_by_name_ok demo_os_def)

lemma demo_state_inv: "init_inv demo_state"
  by (simp add: init_inv_def demo_state_def svc_ok_def demo_service_def flag_simps)

section \<open>Restarts happen\<close>

text \<open>A service that waits for its restart since its process, started at time \<open>t\<close>, has exited.\<close>

definition waiting :: "init_state \<Rightarrow> nat \<Rightarrow> int \<Rightarrow> bool" where
  "waiting st i t \<longleftrightarrow> i < length (service_list st) \<and> flagged (service_list st ! i) SVC_RESTARTING \<and>
     svc_time_started (service_list st ! i) = t"

lemma upd_svc_other: "i \<noteq> j \<Longrightarrow> service_list (upd_svc j f st) ! i = service_list st ! i"
  by (simp add: upd_svc_def)

lemma upd_svc_rest [simp]:
  "process_needs_restart (upd_svc j f st) = process_needs_restart st" "effects (upd_svc j f st) = effects st"
  by (simp_all add: upd_svc_def)

lemma start_other:
  assumes "service_start os j args st = Ret st'"
  shows "process_needs_restart st' = process_needs_restart st \<and> os_calls st \<le> os_calls st' \<and>
    (\<forall>i. i \<noteq> j \<longrightarrow> service_list st' ! i = service_list st ! i)"
  using assms unfolding service_start_def Let_def ask_def gettime_def split_conv
  by (elim if_RetE) (auto simp: tell_def upd_svc_other props_changed_def dest!: notify_props_changed)

text \<open>A start that the system grants.\<close>

lemma start_granted:
  assumes "service_start os i NULL st = Ret st'" "i < length (service_list st)"
    and "\<not> flagged (service_list st ! i) SVC_CONSOLE" "\<forall>n. 0 < os_fork os n" "\<forall>n. os_stat os n (svc_args (service_list st ! i) ! 0)"
  shows "flagged (service_list st' ! i) SVC_RUNNING"
proof -
  have f: "\<not> os_fork os n < 0" for n using assms(4) by (simp add: not_less less_imp_le)
  show ?thesis
    using assms(1) unfolding service_start_def Let_def ask_def gettime_def split_conv
    by (elim if_RetE) (use assms(2,3,5) in \<open>auto simp: f tell_def props_changed_def flag_simps dest!: notify_props_changed\<close>)
qed

text \<open>One service in the pass of \<open>restart_processes\<close>: started if it is due, else its deadline is noted.\<close>

lemma restart_one:
  assumes "restart_service_if_needed os j st = Ret st'" "j < length (service_list st)"
  defines "t \<equiv> svc_time_started (service_list st ! j)" and "now \<equiv> os_time os (os_calls st)"
  shows "os_calls st < os_calls st'" "i \<noteq> j \<Longrightarrow> service_list st' ! i = service_list st ! i"
    "0 \<le> t \<Longrightarrow> 0 < process_needs_restart st \<Longrightarrow> 0 < process_needs_restart st' \<and> process_needs_restart st' \<le> process_needs_restart st"
    "0 \<le> t \<Longrightarrow> 0 \<le> process_needs_restart st \<Longrightarrow> 0 \<le> process_needs_restart st'"
    "now < t + 5 \<Longrightarrow> service_list st' = service_list st"
    "now < t + 5 \<Longrightarrow> 0 \<le> t \<Longrightarrow> 0 \<le> process_needs_restart st \<Longrightarrow> 0 < process_needs_restart st' \<and> process_needs_restart st' \<le> t + 5"
    "t + 5 \<le> now \<Longrightarrow> \<not> flagged (service_list st ! j) SVC_CONSOLE \<Longrightarrow> \<forall>n. 0 < os_fork os n \<Longrightarrow>
      \<forall>n. os_stat os n (svc_args (service_list st ! j) ! 0) \<Longrightarrow> flagged (service_list st' ! j) SVC_RUNNING"
proof -
  define st1 where "st1 = st\<lparr>os_calls := Suc (os_calls st)\<rparr>"
  define st2 where "st2 = upd_svc j (clear_flags SVC_RESTARTING) st1"
  have r: "(if t + 5 \<le> now then service_start os j NULL st2
      else if t + 5 < process_needs_restart st1 \<or> process_needs_restart st1 = 0 then Ret (st1\<lparr>process_needs_restart := t + 5\<rparr>)
      else Ret st1) = Ret st'"
    using assms(1) by (simp only: restart_service_if_needed_def gettime_def ask_def Let_def split_conv st1_def st2_def t_def now_def)
  have p: "process_needs_restart st1 = process_needs_restart st" "process_needs_restart st2 = process_needs_restart st"
    "service_list st1 = service_list st" "os_calls st1 = Suc (os_calls st)" "os_calls st2 = Suc (os_calls st)"
    "i \<noteq> j \<Longrightarrow> service_list st2 ! i = service_list st ! i" by (simp_all add: st1_def st2_def upd_svc_other)
  note s = start_other [of os j NULL st2 st'] 
  show "os_calls st < os_calls st'" using r s p by (auto split: if_splits)
  show "i \<noteq> j \<Longrightarrow> service_list st' ! i = service_list st ! i" using r s p by (auto split: if_splits)
  show "0 \<le> t \<Longrightarrow> 0 < process_needs_restart st \<Longrightarrow> 0 < process_needs_restart st' \<and> process_needs_restart st' \<le> process_needs_restart st"
    "0 \<le> t \<Longrightarrow> 0 \<le> process_needs_restart st \<Longrightarrow> 0 \<le> process_needs_restart st'"
    "now < t + 5 \<Longrightarrow> 0 \<le> t \<Longrightarrow> 0 \<le> process_needs_restart st \<Longrightarrow> 0 < process_needs_restart st' \<and> process_needs_restart st' \<le> t + 5"
    using r s p(1,2) by (auto split: if_splits)
  show "now < t + 5 \<Longrightarrow> service_list st' = service_list st" using r p(3) by (auto split: if_splits)
  assume d: "t + 5 \<le> now" "\<not> flagged (service_list st ! j) SVC_CONSOLE" "\<forall>n. 0 < os_fork os n"
    "\<forall>n. os_stat os n (svc_args (service_list st ! j) ! 0)"
  have "service_list st2 ! j = clear_flags SVC_RESTARTING (service_list st ! j)" using assms(2) by (simp add: st2_def st1_def)
  with d r assms(2) show "flagged (service_list st' ! j) SVC_RUNNING"
    by (intro start_granted [of os j st2]) (simp_all add: st2_def st1_def flag_simps)
qed

definition restart_flagged :: "os \<Rightarrow> nat \<Rightarrow> init_state \<Rightarrow> init_state exec" where
  "restart_flagged os j st = (if flagged (service_list st ! j) SVC_RESTARTING then restart_service_if_needed os j st else Ret st)"

definition deadline_kept :: "nat \<Rightarrow> init_state \<Rightarrow> init_state \<Rightarrow> bool" where
  "deadline_kept i s s' \<longleftrightarrow> init_inv s' \<and> length (service_list s') = length (service_list s) \<and> service_list s' ! i = service_list s ! i \<and>
     os_calls s \<le> os_calls s' \<and> (0 \<le> process_needs_restart s \<longrightarrow> 0 \<le> process_needs_restart s') \<and>
     (0 < process_needs_restart s \<longrightarrow> 0 < process_needs_restart s' \<and> process_needs_restart s' \<le> process_needs_restart s)"

lemma restart_others:
  assumes "os_ok os" "for_each (restart_flagged os) js s = Ret s'" "\<forall>j \<in> set js. j \<noteq> i \<and> j < length (service_list s)" "init_inv s"
  shows "deadline_kept i s s'"
proof -
  have step: "deadline_kept i s s2" if "j \<in> set js" "deadline_kept i s s1" "restart_flagged os j s1 = Ret s2" for j s1 s2
  proof (cases "flagged (service_list s1 ! j) SVC_RESTARTING")
    case False
    with that show ?thesis by (simp add: restart_flagged_def)
  next
    case True
    with that(3) have r: "restart_service_if_needed os j s1 = Ret s2" by (simp add: restart_flagged_def)
    have j: "j < length (service_list s1)" "i \<noteq> j" using that(1,2) assms(3) by (auto simp: deadline_kept_def)
    have st: "init_steps os s1 s2" by (rule restart_steps [OF j(1) r])
    have "init_inv s1" using that(2) by (simp add: deadline_kept_def)
    then have "init_inv s2" "0 \<le> svc_time_started (service_list s1 ! j)"
      using init_steps_good [OF st assms(1)] j(1) by (auto simp: good_def init_inv_def svc_ok_def)
    with that(2) restart_one(1,3,4) [OF r j(1)] restart_one(2) [OF r j] init_steps_length [OF st] show ?thesis
      unfolding deadline_kept_def by fastforce
  qed
  have "deadline_kept i s s" using assms(4) by (simp add: deadline_kept_def)
  then show ?thesis by (rule for_each_inv [OF assms(2), where P = "deadline_kept i s"]) (rule step)
qed

lemma restart_pass:
  assumes "os_ok os" "init_inv st" "waiting st i t" "restart_processes os st = Ret st'"
  obtains n where "os_calls st \<le> n" "os_calls st < os_calls st'"
    "os_time os n < t + 5 \<Longrightarrow> 0 < process_needs_restart st' \<and> process_needs_restart st' \<le> t + 5"
    "t + 5 \<le> os_time os n \<Longrightarrow> \<not> flagged (service_list st ! i) SVC_CONSOLE \<Longrightarrow> \<forall>n. 0 < os_fork os n \<Longrightarrow>
      \<forall>n. os_stat os n (svc_args (service_list st ! i) ! 0) \<Longrightarrow> flagged (service_list st' ! i) SVC_RUNNING"
proof -
  let ?st = "st\<lparr>process_needs_restart := 0\<rparr>" and ?n = "length (service_list st)"
  have i: "i < ?n" "flagged (service_list st ! i) SVC_RESTARTING" "svc_time_started (service_list st ! i) = t"
    using assms(3) by (auto simp: waiting_def)
  have "for_each (restart_flagged os) [0..<?n] ?st = Ret st'"
    using assms(4) by (simp add: restart_processes_def service_for_each_flags_def restart_flagged_def [abs_def])
  moreover have "[0..<?n] = [0..<i] @ i # [Suc i..<?n]" using i(1) upt_add_eq_append [of 0 i "?n - i"] by (simp add: upt_conv_Cons)
  ultimately obtain s1 s2 where s: "for_each (restart_flagged os) [0..<i] ?st = Ret s1" "restart_flagged os i s1 = Ret s2"
      "for_each (restart_flagged os) [Suc i..<?n] s2 = Ret st'"
    by (auto simp: for_each_append bind_eq_Some_conv)
  have k1: "deadline_kept i ?st s1"
    by (rule restart_others [OF assms(1) s(1)]) (use i(1) assms(2) in \<open>auto simp: init_inv_def\<close>)
  then have e: "service_list s1 ! i = service_list st ! i" "i < length (service_list s1)" "init_inv s1" "length (service_list s1) = ?n"
      "os_calls st \<le> os_calls s1" "0 \<le> process_needs_restart s1"
    using i(1) by (auto simp: deadline_kept_def)
  have r: "restart_service_if_needed os i s1 = Ret s2" using s(2) i(2) by (simp add: restart_flagged_def e(1))
  have st: "init_steps os s1 s2" by (rule restart_steps [OF e(2) r])
  have "svc_ok (service_list s1 ! i)" using e(2,3) by (simp add: init_inv_def)
  then have t: "0 \<le> t" by (simp add: svc_ok_def e(1) i(3))
  have s2: "init_inv s2" using init_steps_good [OF st assms(1)] e(3) by (simp add: good_def)
  have k3: "deadline_kept i s2 st'"
    by (rule restart_others [OF assms(1) s(3) _ s2]) (use init_steps_length [OF st] e(4) in simp)
  note o = restart_one [OF r e(2), unfolded e(1) i(3)]
  show ?thesis
  proof (rule that [of "os_calls s1"])
    show "os_calls st \<le> os_calls s1" by (rule e(5))
    show "os_calls st < os_calls st'" using e(5) o(1) k3 by (simp add: deadline_kept_def)
    show "os_time os (os_calls s1) < t + 5 \<Longrightarrow> 0 < process_needs_restart st' \<and> process_needs_restart st' \<le> t + 5"
      using o(6) t e(6) k3 by (auto simp: deadline_kept_def)
  qed (use o(7) k3 in \<open>simp add: deadline_kept_def\<close>)
qed

lemma svc_config_sel:
  assumes "svc_config svc = svc_config svc'"
  shows "svc_args svc = svc_args svc'" "flagged svc SVC_CONSOLE = flagged svc' SVC_CONSOLE"
proof -
  have "svc_args (svc_config svc) = svc_args svc" for svc by (simp add: svc_config_def)
  with assms show "svc_args svc = svc_args svc'" by metis
  have "flagged (svc_config svc) SVC_CONSOLE = flagged svc SVC_CONSOLE" for svc
    by (simp add: svc_config_def flag_simps)
  with assms show "flagged svc SVC_CONSOLE = flagged svc' SVC_CONSOLE" by metis
qed

lemma kept_service:
  assumes "kept st st'" "i < length (service_list st)"
  shows "svc_args (service_list st' ! i) = svc_args (service_list st ! i)"
    "flagged (service_list st' ! i) SVC_CONSOLE = flagged (service_list st ! i) SVC_CONSOLE"
proof -
  have m: "map svc_config (service_list st') = map svc_config (service_list st)" using assms(1) by (simp add: kept_def)
  then have "length (service_list st') = length (service_list st)" by (rule map_eq_imp_length_eq)
  with m assms(2) have "svc_config (service_list st' ! i) = svc_config (service_list st ! i)" by (metis nth_map)
  then show "svc_args (service_list st' ! i) = svc_args (service_list st ! i)"
    "flagged (service_list st' ! i) SVC_CONSOLE = flagged (service_list st ! i) SVC_CONSOLE" by (auto dest: svc_config_sel)
qed

text \<open>A run of the main loop: the states at the begin of each turn, before and after its restart pass.\<close>

definition is_run :: "os \<Rightarrow> (nat \<Rightarrow> poll_event list) \<Rightarrow> (nat \<Rightarrow> init_state) \<Rightarrow> (nat \<Rightarrow> init_state) \<Rightarrow> (nat \<Rightarrow> init_state) \<Rightarrow>
    (nat \<Rightarrow> int) \<Rightarrow> bool" where
  "is_run os events turn before after timeout \<longleftrightarrow>
     (\<forall>k. execute_one_command os (turn k) = Ret (before k) \<and> restart_processes os (before k) = Ret (after k) \<and>
          main_iteration os (events k) (turn k) = Ret (timeout k, turn (Suc k)))"

lemma is_runD:
  assumes "is_run os events turn before after timeout"
  shows "execute_one_command os (turn k) = Ret (before k)" "restart_processes os (before k) = Ret (after k)"
    "timeout k = fst (poll_timeout os (after k))"
    "for_each (handle_event os) (events k) (snd (poll_timeout os (after k))) = Ret (turn (Suc k))"
proof -
  have r: "execute_one_command os (turn k) = Ret (before k)" "restart_processes os (before k) = Ret (after k)"
    "main_iteration os (events k) (turn k) = Ret (timeout k, turn (Suc k))" using assms by (auto simp: is_run_def)
  from r(1,2) show "execute_one_command os (turn k) = Ret (before k)" "restart_processes os (before k) = Ret (after k)" .
  from r(3) show "timeout k = fst (poll_timeout os (after k))"
    "for_each (handle_event os) (events k) (snd (poll_timeout os (after k))) = Ret (turn (Suc k))"
    by (auto simp: main_iteration_def r(1,2) bind_eq_Some_conv split_beta)
qed

lemma run_steps:
  assumes "os_ok os" "is_run os events turn before after timeout"
  shows "init_steps os (turn k) (before k)" "init_steps os (before k) (after k)" "init_steps os (after k) (turn (Suc k))"
    "init_steps os (turn 0) (turn k)"
proof -
  note r = is_runD [OF assms(2)]
  show t: "init_steps os (turn k) (before k)" "init_steps os (before k) (after k)" for k
    by (rule execute_one_command_steps [OF assms(1) r(1)], rule restart_processes_steps [OF r(2)])
  have "init_steps os (snd (poll_timeout os (after k))) (turn (Suc k))" for k
    by (rule for_each_steps [OF r(4)]) (rule handle_event_steps [OF assms(1)])
  then show a: "init_steps os (after k) (turn (Suc k))" for k by (rule quiet_trans_steps [OF poll_timeout_quiet])
  have "init_steps os (turn k) (turn (Suc k))" for k using t [of k] a [of k] by (blast intro: rtranclp_trans)
  then show "init_steps os (turn 0) (turn k)" by (induction k) (auto intro: rtranclp_trans)
qed

lemma run_kept:
  assumes "os_ok os" "is_run os events turn before after timeout" "init_inv (turn 0)"
  shows "init_inv (before k)" "kept (turn 0) (before k)" "os_calls (after k) \<le> os_calls (before (Suc k))"
proof -
  note s = run_steps [OF assms(1,2)]
  have g: "good st st'" if "init_steps os st st'" for st st' using init_steps_good [OF that assms(1)] .
  have "good (turn 0) (before k)" for k by (rule g) (rule rtranclp_trans [OF s(4) s(1)])
  then show "init_inv (before k)" "kept (turn 0) (before k)" for k using assms(3) by (auto simp: good_def)
  then have "init_inv (after k)" using g [OF s(2)] by (auto simp: good_def)
  moreover have "good (after k) (before (Suc k))" by (rule g) (rule rtranclp_trans [OF s(3) s(1)])
  ultimately show "os_calls (after k) \<le> os_calls (before (Suc k))" by (simp add: good_def kept_def)
qed


definition demo_after :: init_state where
  "demo_after = the (restart_processes clock_os demo_state)"

lemmas demo_defs = demo_state_def init_start_def demo_service_def clock_os_def demo_os_def
  restart_processes_def service_for_each_flags_def restart_service_if_needed_def service_start_def
  gettime_def ask_def Let_def upd_svc_def tell_def

lemma demo_execute:
  "list_empty Queue (action_queue st) \<Longrightarrow> cur_action st = NULL \<Longrightarrow> cur_command st = NULL \<Longrightarrow> execute_one_command os st = Ret st"
  by (simp add: execute_one_command_def select_command_def next_action_def action_remove_queue_head_def)

lemma demo_idle:
  "restart_processes clock_os demo_state = Ret demo_after" "restart_processes clock_os demo_after = Ret demo_after"
  "list_empty Queue (action_queue demo_after)" "cur_action demo_after = NULL" "cur_command demo_after = NULL"
  "process_needs_restart demo_after = 0"
  "list_empty Queue (action_queue demo_state)" "cur_action demo_state = NULL" "cur_command demo_state = NULL"
  by (simp_all add: demo_after_def demo_defs flag_simps list_empty_def upt_rec)

lemma demo_run:
  "is_run clock_os (\<lambda>_. []) (\<lambda>k. if k = 0 then demo_state else demo_after) (\<lambda>k. if k = 0 then demo_state else demo_after)
    (\<lambda>_. demo_after) (\<lambda>_. -1)"
proof -
  have p: "poll_timeout clock_os demo_after = (-1, demo_after)"
    by (simp add: poll_timeout_def action_queue_empty_def demo_idle)
  show ?thesis by (auto simp: is_run_def main_iteration_def demo_execute demo_idle p)
qed


end
