(* ===== verification/Init_Parser.thy ===== *)
theory Init_Parser
  imports Init_Tokens Init_Steps
begin

text \<open>
  The parser of the configuration files of init (\<open>core/init/init_parser.c\<close>), and the numbers of
  users (\<open>core/init/util.c\<close>). The arguments of a line are pointers into the buffer, in an array that
  keeps the pointers of earlier lines behind those of the current one; a pointer that was never
  written is NULL here, and reading through it is a fault. Allocations are granted.
\<close>

section \<open>Arguments\<close>

definition arg :: "string ptr list \<Rightarrow> nat \<Rightarrow> string exec" where
  "arg args n = do {
     p \<leftarrow> load args n;
     p
   }"

fun get_args :: "string ptr list \<Rightarrow> nat list \<Rightarrow> string list exec" where
  "get_args args [] = Ret []"
| "get_args args (i # is) = do {
     a \<leftarrow> arg args i;
     as \<leftarrow> get_args args is;
     Ret (a # as)
   }"

text \<open>\<open>strtoul(s, 0, base)\<close> with a 32-bit \<open>unsigned long\<close>: the value, and whether \<open>errno\<close> is set.\<close>

definition strtoul :: "nat \<Rightarrow> string \<Rightarrow> u32 \<times> bool" where
  "strtoul base s =
     (let s1 = dropWhile isspace s;
          neg = (take 1 s1 = ''-'');
          s2 = (if take 1 s1 = ''-'' \<or> take 1 s1 = ''+'' then tl s1 else s1);
          b = (if base \<noteq> 0 then base else if hex_prefix base s2 then 16
               else if take 1 s2 = ''0'' then 8 else 10);
          s3 = (if hex_prefix base s2 then drop 2 s2 else s2);
          n = fst (read_digits b 0 s3)
      in if \<not> starts_digit b s3 then (0, False)
         else if 2 ^ 32 \<le> n then (-1, True)
         else (if neg then - of_nat n else of_nat n, False))"

definition android_name_to_id :: "string \<Rightarrow> u32" where
  "android_name_to_id name = (case map_of android_ids name of Some aid \<Rightarrow> aid | None \<Rightarrow> -1)"

definition decode_uid :: "string \<Rightarrow> u32" where
  "decode_uid s =
     (if s = [] then -1
      else if isalpha (hd s) then android_name_to_id s
      else let (v, errno) = strtoul 0 s in if errno then -1 else v)"

definition valid_name :: "string \<Rightarrow> bool" where
  "valid_name name \<longleftrightarrow> length name \<le> 16 \<and> list_all (\<lambda>c. isalnum c \<or> c = CHR ''_'' \<or> c = CHR ''-'') name"

definition make_command :: "keyword \<Rightarrow> nat \<Rightarrow> string ptr list \<Rightarrow> command exec" where
  "make_command kw nargs args = do {
     func \<leftarrow> kw_func kw;
     as \<leftarrow> get_args args [0..<nargs];
     Ret \<lparr>cmd_func = func, cmd_nargs = nargs, cmd_args = as\<rparr>
   }"

section \<open>Services\<close>

definition new_service :: "string \<Rightarrow> string list \<Rightarrow> service" where
  "new_service name args =
     \<lparr>svc_name = name, svc_classname = ''default'', svc_flags = 0, svc_pid = 0, svc_time_started = 0,
      svc_time_crashed = 0, svc_nr_crashed = 0, svc_uid = 0, svc_gid = 0,
      svc_supp_gids = replicate NR_SVC_SUPP_GIDS 0, svc_nr_supp_gids = 0, svc_sockets = [], svc_envvars = [],
      svc_onrestart = [], svc_keycodes = NULL, svc_nkeycodes = 0, svc_keychord_id = 0,
      svc_ioprio_class = IoSchedClass_NONE, svc_ioprio_pri = 0, svc_nargs = length args, svc_args = args\<rparr>"

definition parse_service :: "nat \<Rightarrow> string ptr list \<Rightarrow> init_state \<Rightarrow> (nat ptr \<times> init_state) exec" where
  "parse_service nargs args st =
     (if nargs < 3 then Ret (NULL, st)
      else do {
        name \<leftarrow> arg args 1;
        if \<not> valid_name name then Ret (NULL, st)
        else if service_find_by_name name st \<noteq> NULL then Ret (NULL, st)
        else do {
          as \<leftarrow> get_args args [2..<nargs];
          Ret (Some (length (service_list st)), st\<lparr>service_list := service_list st @ [new_service name as]\<rparr>)
        }
      })"

definition set_ioprio :: "u32 \<Rightarrow> string \<Rightarrow> service \<Rightarrow> service" where
  "set_ioprio pri c svc =
     (let svc = svc\<lparr>svc_ioprio_pri := sint pri\<rparr>
      in if svc_ioprio_pri svc < 0 \<or> svc_ioprio_pri svc > 7 then svc
         else if c = ''rt'' then svc\<lparr>svc_ioprio_class := IoSchedClass_RT\<rparr>
         else if c = ''be'' then svc\<lparr>svc_ioprio_class := IoSchedClass_BE\<rparr>
         else if c = ''idle'' then svc\<lparr>svc_ioprio_class := IoSchedClass_IDLE\<rparr>
         else svc)"

definition set_groups :: "string list \<Rightarrow> service \<Rightarrow> service" where
  "set_groups groups svc =
     (let supp = map decode_uid (tl groups)
      in svc\<lparr>svc_gid := decode_uid (hd groups), svc_supp_gids := supp @ drop (length supp) (svc_supp_gids svc),
             svc_nr_supp_gids := length supp\<rparr>)"

definition add_socket :: "string list \<Rightarrow> service \<Rightarrow> service" where
  "add_socket as svc =
     svc\<lparr>svc_sockets :=
       \<lparr>si_name = as ! 0, si_type = as ! 1,
        si_uid = (if length as > 3 then decode_uid (as ! 3) else 0),
        si_gid = (if length as > 4 then decode_uid (as ! 4) else 0),
        si_perm = fst (strtoul 8 (as ! 2))\<rparr> # svc_sockets svc\<rparr>"

text \<open>An option line of a service: how it changes the service. Errors leave it alone.\<close>

definition service_option :: "keyword \<Rightarrow> nat \<Rightarrow> string ptr list \<Rightarrow> service \<Rightarrow> service exec" where
  "service_option kw nargs args svc =
     (if kw = K_class then
        if nargs \<noteq> 2 then Ret svc
        else do { c \<leftarrow> arg args 1; Ret (svc\<lparr>svc_classname := c\<rparr>) }
      else if kw = K_console then Ret (set_flags SVC_CONSOLE svc)
      else if kw = K_disabled then Ret (set_flags SVC_RC_DISABLED (set_flags SVC_DISABLED svc))
      else if kw = K_ioprio then
        if nargs \<noteq> 3 then Ret svc
        else do { c \<leftarrow> arg args 1; p \<leftarrow> arg args 2; Ret (set_ioprio (fst (strtoul 8 p)) c svc) }
      else if kw = K_group then
        if nargs < 2 \<or> nargs > NR_SVC_SUPP_GIDS + 2 then Ret svc
        else do { groups \<leftarrow> get_args args [1..<nargs]; Ret (set_groups groups svc) }
      else if kw = K_keycodes then
        if nargs < 2 then Ret svc
        else do {
          codes \<leftarrow> get_args args [1..<nargs];
          Ret (svc\<lparr>svc_nkeycodes := nargs - 1, svc_keycodes := Some (map (\<lambda>s. fst (strtol 10 s)) codes)\<rparr>)
        }
      else if kw = K_oneshot then Ret (set_flags SVC_ONESHOT svc)
      else if kw = K_onrestart then do {
        let (nargs, args) = (nargs - 1, drop 1 args) in do {
          name \<leftarrow> arg args 0;
          let kw = lookup_keyword name
          in if \<not> kw_is kw COMMAND then Ret svc
             else if nargs < kw_nargs kw then Ret svc
             else do {
               cmd \<leftarrow> make_command kw nargs args;
               Ret (svc\<lparr>svc_onrestart := svc_onrestart svc @ [cmd]\<rparr>)
             }
        }
      }
      else if kw = K_critical then Ret (set_flags SVC_CRITICAL svc)
      else if kw = K_setenv then
        if nargs < 2 then Ret svc
        else do {
          n \<leftarrow> arg args 1;
          v \<leftarrow> arg args 2;
          Ret (svc\<lparr>svc_envvars := \<lparr>ei_name = n, ei_value = v\<rparr> # svc_envvars svc\<rparr>)
        }
      else if kw = K_socket then
        if nargs < 4 then Ret svc
        else do {
          as \<leftarrow> get_args args [1..<nargs];
          if as ! 1 \<notin> {''dgram'', ''stream'', ''seqpacket''} then Ret svc
          else Ret (add_socket as svc)
        }
      else if kw = K_user then
        if nargs \<noteq> 2 then Ret svc
        else do { u \<leftarrow> arg args 1; Ret (svc\<lparr>svc_uid := decode_uid u\<rparr>) }
      else Ret svc)"

definition parse_line_service :: "nat \<Rightarrow> nat \<Rightarrow> string ptr list \<Rightarrow> init_state \<Rightarrow> init_state exec" where
  "parse_line_service i nargs args st =
     (if nargs = 0 then Ret st
      else do {
        name \<leftarrow> arg args 0;
        svc \<leftarrow> service_option (lookup_keyword name) nargs args ((service_list st ! i)\<lparr>svc_ioprio_class := IoSchedClass_NONE\<rparr>);
        Ret (upd_svc i (\<lambda>_. svc) st)
      })"

section \<open>Actions\<close>

definition parse_action :: "nat \<Rightarrow> string ptr list \<Rightarrow> init_state \<Rightarrow> (nat ptr \<times> init_state) exec" where
  "parse_action nargs args st =
     (if nargs < 2 then Ret (NULL, st)
      else if nargs > 2 then Ret (NULL, st)
      else do {
        name \<leftarrow> arg args 1;
        Ret (Some (length (action_list st)), st\<lparr>action_list := action_list st @ [\<lparr>act_name = name, act_commands = []\<rparr>]\<rparr>)
      })"

definition add_command :: "nat \<Rightarrow> command \<Rightarrow> init_state \<Rightarrow> init_state" where
  "add_command a cmd st =
     st\<lparr>action_list := (action_list st)[a := (action_list st ! a)\<lparr>act_commands := act_commands (action_list st ! a) @ [cmd]\<rparr>]\<rparr>"

definition parse_line_action :: "nat \<Rightarrow> nat \<Rightarrow> string ptr list \<Rightarrow> init_state \<Rightarrow> init_state exec" where
  "parse_line_action a nargs args st =
     (if nargs = 0 then Ret st
      else do {
        name \<leftarrow> arg args 0;
        let kw = lookup_keyword name
        in if \<not> kw_is kw COMMAND then Ret st
           else if nargs < kw_nargs kw then Ret st
           else do {
             cmd \<leftarrow> make_command kw nargs args;
             Ret (add_command a cmd st)
           }
      })"

section \<open>Files\<close>

definition PATH_MAX :: nat where "PATH_MAX = 4096"

text \<open>\<open>state->context\<close> and \<open>state->parse_line\<close>.\<close>

datatype parse_context = No_op | In_service nat | In_action nat

definition parse_import :: "os \<Rightarrow> nat \<Rightarrow> string ptr list \<Rightarrow> string list \<Rightarrow> init_state \<Rightarrow> string list exec" where
  "parse_import os nargs args imports st =
     (if nargs \<noteq> 2 then Ret imports
      else do {
        file \<leftarrow> arg args 1;
        (ret, conf_file) \<leftarrow> expand_props os (replicate PATH_MAX NUL) file st;
        if ret \<noteq> 0 then Ret imports
        else Ret (imports @ [cstr conf_file 0])
      })"

definition parse_new_section :: "os \<Rightarrow> keyword \<Rightarrow> nat \<Rightarrow> string ptr list \<Rightarrow> string list \<Rightarrow> init_state \<Rightarrow>
    (parse_context \<times> string list \<times> init_state) exec" where
  "parse_new_section os kw nargs args imports st =
     (if kw = K_service then do {
        (svc, st) \<leftarrow> parse_service nargs args st;
        Ret (case svc of Some i \<Rightarrow> In_service i | None \<Rightarrow> No_op, imports, st)
      }
      else if kw = K_on then do {
        (act, st) \<leftarrow> parse_action nargs args st;
        Ret (case act of Some a \<Rightarrow> In_action a | None \<Rightarrow> No_op, imports, st)
      }
      else if kw = K_import then do {
        imports \<leftarrow> parse_import os nargs args imports st;
        Ret (No_op, imports, st)
      }
      else Ret (No_op, imports, st))"

fun parse_line :: "parse_context \<Rightarrow> nat \<Rightarrow> string ptr list \<Rightarrow> init_state \<Rightarrow> init_state exec" where
  "parse_line No_op nargs args st = Ret st"
| "parse_line (In_service i) nargs args st = parse_line_service i nargs args st"
| "parse_line (In_action a) nargs args st = parse_line_action a nargs args st"

definition config_line :: "os \<Rightarrow> nat \<Rightarrow> string ptr list \<Rightarrow> parse_context \<Rightarrow> string list \<Rightarrow> init_state \<Rightarrow>
    (parse_context \<times> string list \<times> init_state) exec" where
  "config_line os nargs args ctx imports st = do {
     name \<leftarrow> arg args 0;
     let kw = lookup_keyword name
     in if kw_is kw SECTION then do {
          st \<leftarrow> parse_line ctx 0 [] st;
          parse_new_section os kw nargs args imports st
        }
        else do {
          st \<leftarrow> parse_line ctx nargs args st;
          Ret (ctx, imports, st)
        }
   }"

text \<open>The strings that the pointers of the argument array stand for.\<close>

definition arg_strings :: "string \<Rightarrow> nat ptr list \<Rightarrow> string ptr list" where
  "arg_strings buf args = map (map_option (cstr buf)) args"

partial_function (option) parse_loop :: "os \<Rightarrow> parse_state \<Rightarrow> nat ptr list \<Rightarrow> nat \<Rightarrow> parse_context \<Rightarrow> string list \<Rightarrow> init_state \<Rightarrow>
    (string list \<times> init_state) exec" where
  "parse_loop os state args nargs ctx imports st = do {
     (t, state) \<leftarrow> next_token state;
     case t of
       T_EOF \<Rightarrow> do {
         st \<leftarrow> parse_line ctx 0 [] st;
         Ret (imports, st)
       }
     | T_NEWLINE \<Rightarrow>
         if nargs = 0 then parse_loop os (state\<lparr>line := line state + 1\<rparr>) args 0 ctx imports st
         else do {
           (ctx, imports, st) \<leftarrow> config_line os nargs (arg_strings (data state) args) ctx imports st;
           parse_loop os (state\<lparr>line := line state + 1\<rparr>) args 0 ctx imports st
         }
     | T_TEXT \<Rightarrow>
         if nargs < INIT_PARSER_MAXARGS then parse_loop os state (args[nargs := Some (tok_text state)]) (nargs + 1) ctx imports st
         else parse_loop os state args nargs ctx imports st
   }"

definition parse_config :: "os \<Rightarrow> string \<Rightarrow> init_state \<Rightarrow> (string list \<times> init_state) exec" where
  "parse_config os s st =
     parse_loop os \<lparr>data = s, ptr = 0, tok_text = 0, line = 0, nexttoken = T_EOF\<rparr>
       (replicate INIT_PARSER_MAXARGS NULL) 0 No_op [] st"

text \<open>
  The files in the order in which they are read: the imports of a file right after it, each with its own
  imports. A file that imports itself is read for ever.
\<close>

partial_function (option) parse_files :: "os \<Rightarrow> string list \<Rightarrow> init_state \<Rightarrow> init_state exec" where
  "parse_files os files st =
     (case files of
        [] \<Rightarrow> Ret st
      | fn # rest \<Rightarrow>
          (case read_file os fn st of
             (None, st) \<Rightarrow> parse_files os rest st
           | (Some s, st) \<Rightarrow> do {
               (imports, st) \<leftarrow> parse_config os (s @ [NUL]) st;
               parse_files os (imports @ rest) st
             }))"

definition init_parse_config_file :: "os \<Rightarrow> string \<Rightarrow> init_state \<Rightarrow> (int \<times> init_state) exec" where
  "init_parse_config_file os fn st =
     (case read_file os fn st of
        (None, st) \<Rightarrow> Ret (-1, st)
      | (Some s, st) \<Rightarrow> do {
          (imports, st) \<leftarrow> parse_config os (s @ [NUL]) st;
          st \<leftarrow> parse_files os imports st;
          Ret (0, st)
        })"

section \<open>The parser on the tokens of the language\<close>

text \<open>The same loop over a list of tokens, with the strings themselves in the argument array.\<close>

fun parse_tokens :: "os \<Rightarrow> word_token list \<Rightarrow> string ptr list \<Rightarrow> nat \<Rightarrow> parse_context \<Rightarrow> string list \<Rightarrow> init_state \<Rightarrow>
    (string list \<times> init_state) exec" where
  "parse_tokens os [] args nargs ctx imports st = Ret (imports, st)"
| "parse_tokens os (Newline # ts) args nargs ctx imports st =
     (if nargs = 0 then parse_tokens os ts args 0 ctx imports st
      else do {
        (ctx, imports, st) \<leftarrow> config_line os nargs args ctx imports st;
        parse_tokens os ts args 0 ctx imports st
      })"
| "parse_tokens os (Word w # ts) args nargs ctx imports st =
     (if nargs < INIT_PARSER_MAXARGS then parse_tokens os ts (args[nargs := Some w]) (nargs + 1) ctx imports st
      else parse_tokens os ts args nargs ctx imports st)"

text \<open>The pointers lie before the unread text, so that reading on does not change their strings.\<close>

definition args_behind :: "parse_state \<Rightarrow> nat ptr list \<Rightarrow> bool" where
  "args_behind state args \<longleftrightarrow> (\<forall>p. Some p \<in> set args \<longrightarrow> p + length (cstr (data state) p) \<le> ptr state)"

lemma cstr_kept:
  assumes "tok_wf st" "p + length (cstr (data st) p) \<le> ptr st" "take (ptr st) (data st') = take (ptr st) (data st)"
    and "cstr (data st) (ptr st) = [] \<longrightarrow> data st' = data st"
  shows "cstr (data st') p = cstr (data st) p"
proof (cases "p + length (cstr (data st) p) < ptr st")
  case True
  have "ptr st \<le> length (data st)" using assms(1) by (auto simp: tok_wf_def) (metis drop_all empty_iff empty_set nat_le_linear)
  with True assms(3) show ?thesis by (intro cstr_take_cong [of "ptr st"]) auto
next
  case False
  with assms(2) have e: "p + length (cstr (data st) p) = ptr st" by simp
  have n: "NUL \<in> set (drop (ptr st) (data st))" using assms(1) by (simp add: tok_wf_def)
  have "set (drop (ptr st) (data st)) \<subseteq> set (drop p (data st))" using e by (intro set_drop_subset_set_drop) simp
  with n obtain r where "drop p (data st) = cstr (data st) p @ NUL # r" using cstr_split [of p "data st"] by blast
  then have "drop (ptr st) (data st) = NUL # r" using e by (metis add.commute append_eq_conv_conj drop_drop)
  then have "cstr (data st) (ptr st) = []" by (simp add: cstr_def)
  with assms(4) show ?thesis by simp
qed

lemma parse_line_0 [simp]: "parse_line ctx 0 args st = Ret st"
  by (cases ctx) (simp_all add: parse_line_service_def parse_line_action_def)

lemma parse_loop_tokens:
  assumes "tok_wf state" "args_behind state args" "pending state = ts"
  shows "parse_loop os state args nargs ctx imports st =
    parse_tokens os ts (arg_strings (data state) args) nargs ctx imports st"
  using assms
proof (induction "length ts" arbitrary: state args nargs ctx "imports" st ts rule: less_induct)
  case less
  obtain t st' where n: "next_token state = Ret (t, st')" "tok_wf st'" "ptr state \<le> ptr st'"
      "take (ptr state) (data st') = take (ptr state) (data state)" "cstr (data state) (ptr state) = [] \<longrightarrow> data st' = data state"
    and c: "case ts of [] \<Rightarrow> t = T_EOF | Newline # ts \<Rightarrow> t = T_NEWLINE \<and> pending st' = ts
      | Word w # ts \<Rightarrow> t = T_TEXT \<and> pending st' = ts \<and> cstr (data st') (tok_text st') = w \<and> tok_text st' + length w \<le> ptr st'"
    using next_token_lex [OF less.prems(1)] less.prems(3) by blast
  have k: "cstr (data st') p = cstr (data state) p" if "Some p \<in> set args" for p
    using that less.prems(2) by (intro cstr_kept [OF less.prems(1) _ n(4,5)]) (simp add: args_behind_def)
  have b: "args_behind st' args" using less.prems(2) n(3) by (auto simp: args_behind_def k)
  have s: "arg_strings (data st') args = arg_strings (data state) args"
    by (auto simp: arg_strings_def k map_option_case split: option.splits)
  show ?case
  proof (cases ts)
    case Nil
    with c n(1) show ?thesis by (subst parse_loop.simps) simp
  next
    case (Cons tk ts')
    show ?thesis
    proof (cases tk)
      case Newline
      let ?st = "st'\<lparr>line := line st' + 1\<rparr>"
      have "tok_wf ?st" "args_behind ?st args" "pending ?st = ts'" "data ?st = data st'"
        using c Cons Newline n(2) b by (simp_all add: tok_wf_def args_behind_def pending_def)
      with less.hyps [of ts' ?st args 0] have ih: "parse_loop os ?st args 0 ctx im st =
          parse_tokens os ts' (arg_strings (data state) args) 0 ctx im st" for ctx im st
        using Cons s by simp
      show ?thesis using c Cons Newline n(1)
        by (subst parse_loop.simps) (auto simp: ih [simplified] s intro!: Option.bind_cong)
    next
      case (Word w)
      from c Cons Word have t: "t = T_TEXT" "pending st' = ts'" "cstr (data st') (tok_text st') = w" "tok_text st' + length w \<le> ptr st'"
        by simp_all
      have "args_behind st' (args[nargs := Some (tok_text st')])"
        using b t(3,4) set_update_subset_insert [of args nargs "Some (tok_text st')"] by (auto simp: args_behind_def)
      moreover have "arg_strings (data st') (args[nargs := Some (tok_text st')]) = (arg_strings (data state) args)[nargs := Some w]"
        unfolding s [symmetric] using t(3) by (simp add: arg_strings_def map_update)
      ultimately show ?thesis
        using less.hyps [of ts' st' "args[nargs := Some (tok_text st')]"] less.hyps [of ts' st' args] n(1,2) b s t Cons Word
        by (subst parse_loop.simps) simp
    qed
  qed
qed

lemma parse_config_tokens:
  assumes "NUL \<notin> set cs"
  shows "parse_config os (cs @ [NUL]) st =
    parse_tokens os (lex_tokens cs) (replicate INIT_PARSER_MAXARGS NULL) 0 No_op [] st"
proof -
  let ?st = "\<lparr>data = cs @ [NUL], ptr = 0, tok_text = 0, line = 0, nexttoken = T_EOF\<rparr>"
  have "cstr (cs @ [NUL]) 0 = cs" by (rule cstr_eqI [of _ _ _ "[]"]) (use assms in simp_all)
  then have "pending ?st = lex_tokens cs" by (simp add: pending_def)
  from parse_loop_tokens [OF _ _ this, of "replicate INIT_PARSER_MAXARGS NULL" os 0 No_op "[]" st] show ?thesis
    by (simp add: parse_config_def tok_wf_def args_behind_def arg_strings_def)
qed

section \<open>Printing a configuration\<close>

text \<open>Words are printed in quotes, one section or command per line.\<close>

definition render_word :: "string \<Rightarrow> string" where
  "render_word w = DQUOTE # w @ [DQUOTE, CHR '' '']"

definition render_line :: "string list \<Rightarrow> string" where
  "render_line ws = concat (map render_word ws) @ [LF]"

definition plain :: "string \<Rightarrow> bool" where
  "plain w \<longleftrightarrow> NUL \<notin> set w \<and> DQUOTE \<notin> set w"

lemma lexes_quoted: "DQUOTE \<notin> set w \<Longrightarrow> lexes True (w @ DQUOTE # CHR '' '' # r) (w, Text_done, 0, r)"
proof (induction w)
  case Nil
  show ?case by (simp add: lexes.close_quote lexes.text_blank)
next
  case (Cons c w)
  then have "lexes True (c # w @ DQUOTE # CHR '' '' # r) (emit c (w, Text_done, 0, r))" by (intro lexes.quoted) auto
  then show ?case by simp
qed

lemma lex_word: "DQUOTE \<notin> set w \<Longrightarrow> lex_tokens (render_word w @ r) = Word w # lex_tokens r"
proof -
  assume "DQUOTE \<notin> set w"
  then have "lexes False (DQUOTE # w @ DQUOTE # CHR '' '' # r) (w, Text_done, 0, r)"
    by (intro lexes.open_quote lexes_quoted)
  from lexes_lex_text [OF this] show ?thesis
    by (subst lex_tokens.simps) (simp add: render_word_def)
qed

lemma lex_line: "\<forall>w \<in> set ws. DQUOTE \<notin> set w \<Longrightarrow> lex_tokens (render_line ws @ r) = map Word ws @ Newline # lex_tokens r"
proof (induction ws)
  case Nil
  show ?case by (subst lex_tokens.simps) (simp add: render_line_def)
qed (simp add: render_line_def lex_word)

lemma lex_lines:
  "\<forall>ws \<in> set lines. \<forall>w \<in> set ws. DQUOTE \<notin> set w \<Longrightarrow>
     lex_tokens (concat (map render_line lines)) = concat (map (\<lambda>ws. map Word ws @ [Newline]) lines)"
proof (induction lines)
  case Nil
  show ?case by (subst lex_tokens.simps) simp
qed (simp add: lex_line)

lemma render_no_NUL: "\<forall>w \<in> set ws. NUL \<notin> set w \<Longrightarrow> NUL \<notin> set (render_line ws)"
  by (auto simp: render_line_def render_word_def)

text \<open>What one line leaves in the argument array.\<close>

definition put_args :: "string list \<Rightarrow> string ptr list \<Rightarrow> string ptr list" where
  "put_args ws args = map Some ws @ drop (length ws) args"

lemma parse_tokens_words:
  "k + length ws \<le> length args \<Longrightarrow> length args = INIT_PARSER_MAXARGS \<Longrightarrow>
     parse_tokens os (map Word ws @ ts) args k ctx im st =
     parse_tokens os ts (take k args @ map Some ws @ drop (k + length ws) args) (k + length ws) ctx im st"
proof (induction ws arbitrary: k args)
  case (Cons w ws)
  then have "parse_tokens os (map Word (w # ws) @ ts) args k ctx im st =
      parse_tokens os (map Word ws @ ts) (args[k := Some w]) (Suc k) ctx im st" by simp
  also have "\<dots> = parse_tokens os ts (take (Suc k) (args[k := Some w]) @ map Some ws @ drop (Suc k + length ws) (args[k := Some w]))
      (Suc k + length ws) ctx im st" using Cons.prems by (intro Cons.IH) auto
  also have "take (Suc k) (args[k := Some w]) = take k args @ [Some w]"
    using Cons.prems by (simp add: take_Suc_conv_app_nth)
  finally show ?case by simp
qed simp

lemma parse_tokens_line:
  assumes "ws \<noteq> []" "length ws \<le> INIT_PARSER_MAXARGS" "length args = INIT_PARSER_MAXARGS"
  shows "parse_tokens os (map Word ws @ Newline # ts) args 0 ctx im st = do {
    (ctx, im, st) \<leftarrow> config_line os (length ws) (put_args ws args) ctx im st;
    parse_tokens os ts (put_args ws args) 0 ctx im st
  }"
  using parse_tokens_words [of 0 ws args os "Newline # ts" ctx im st] assms by (simp add: put_args_def)

lemma length_put_args: "length ws \<le> length args \<Longrightarrow> length (put_args ws args) = length args"
  by (simp add: put_args_def)

lemma arg_put_args: "i < length ws \<Longrightarrow> arg (put_args ws args) i = Ret (ws ! i)"
  by (simp add: arg_def put_args_def load_def nth_append)

lemma get_put_args: "\<forall>i \<in> set is. i < length ws \<Longrightarrow> get_args (put_args ws args) is = Ret (map ((!) ws) is)"
  by (induction "is") (simp_all add: arg_put_args)

section \<open>Sections of actions\<close>

text \<open>A line that the parser accepts as a command, and the command it makes of it.\<close>

definition command_line :: "string list \<Rightarrow> bool" where
  "command_line ws \<longleftrightarrow> ws \<noteq> [] \<and> length ws \<le> INIT_PARSER_MAXARGS \<and> kw_is (lookup_keyword (hd ws)) COMMAND \<and>
     kw_nargs (lookup_keyword (hd ws)) \<le> length ws \<and> (\<forall>w \<in> set ws. plain w)"

definition to_command :: "string list \<Rightarrow> command" where
  "to_command ws = \<lparr>cmd_func = the (kw_func (lookup_keyword (hd ws))), cmd_nargs = length ws, cmd_args = ws\<rparr>"

lemma command_not_section: "kw_is kw COMMAND \<Longrightarrow> \<not> kw_is kw SECTION"
  by (cases kw) (simp_all add: kw_is_def)

lemma config_line_command:
  assumes "command_line ws"
  shows "config_line os (length ws) (put_args ws args) (In_action a) im st = Ret (In_action a, im, add_command a (to_command ws) st)"
proof -
  have ws: "ws \<noteq> []" "kw_is (lookup_keyword (hd ws)) COMMAND" "kw_nargs (lookup_keyword (hd ws)) \<le> length ws"
    using assms by (auto simp: command_line_def)
  have a: "arg (put_args ws args) 0 = Ret (hd ws)" using ws(1) arg_put_args [of 0 ws args] by (cases ws) auto
  obtain f where f: "kw_func (lookup_keyword (hd ws)) = Some f" using ws(2) kw_func_command by auto
  have g: "get_args (put_args ws args) [0..<length ws] = Ret ws" using get_put_args [of "[0..<length ws]" ws args] by (simp add: map_nth)
  show ?thesis
    using ws command_not_section [OF ws(2)]
    by (simp add: config_line_def a parse_line_action_def make_command_def f g to_command_def Let_def not_less)
qed

lemma lookup_on: "lookup_keyword ''on'' = K_on"
  using lookup_kw_name [of K_on] by (simp add: kw_name_def)

lemma config_line_on:
  "config_line os 2 (put_args [''on'', trig] args) ctx im st =
     Ret (In_action (length (action_list st)), im, st\<lparr>action_list := action_list st @ [\<lparr>act_name = trig, act_commands = []\<rparr>]\<rparr>)"
proof -
  have a: "arg (put_args [''on'', trig] args) 0 = Ret ''on''" "arg (put_args [''on'', trig] args) (Suc 0) = Ret trig"
    by (simp_all add: arg_put_args)
  have k: "kw_is K_on SECTION" by (simp add: kw_is_def)
  show ?thesis by (simp add: config_line_def a lookup_on k parse_new_section_def parse_action_def)
qed

definition line_tokens :: "string list \<Rightarrow> word_token list" where
  "line_tokens ws = map Word ws @ [Newline]"

lemma parse_commands:
  assumes "\<forall>ws \<in> set cmds. command_line ws" "length args = INIT_PARSER_MAXARGS" "action_list st = al @ [act]"
  shows "\<exists>args'. length args' = INIT_PARSER_MAXARGS \<and>
    parse_tokens os (concat (map line_tokens cmds) @ ts) args 0 (In_action (length al)) im st =
    parse_tokens os ts args' 0 (In_action (length al)) im
      (st\<lparr>action_list := al @ [act\<lparr>act_commands := act_commands act @ map to_command cmds\<rparr>]\<rparr>)"
  using assms
proof (induction cmds arbitrary: args st act)
  case Nil
  then have e: "st\<lparr>action_list := al @ [act\<lparr>act_commands := act_commands act @ map to_command []\<rparr>]\<rparr> = st" by simp
  show ?case unfolding e using Nil(2) by (intro exI [of _ args]) simp
next
  case (Cons ws cmds)
  have c: "command_line ws" using Cons.prems(1) by simp
  then have w: "ws \<noteq> []" "length ws \<le> INIT_PARSER_MAXARGS" by (auto simp: command_line_def)
  let ?st = "st\<lparr>action_list := al @ [act\<lparr>act_commands := act_commands act @ [to_command ws]\<rparr>]\<rparr>"
  have a: "add_command (length al) (to_command ws) st = ?st" using Cons.prems(3) by (simp add: add_command_def)
  have l: "length (put_args ws args) = INIT_PARSER_MAXARGS" using length_put_args [of ws args] w(2) Cons.prems(2) by simp
  have "parse_tokens os (concat (map line_tokens (ws # cmds)) @ ts) args 0 (In_action (length al)) im st =
      parse_tokens os (concat (map line_tokens cmds) @ ts) (put_args ws args) 0 (In_action (length al)) im ?st"
    using parse_tokens_line [OF w Cons.prems(2)] config_line_command [OF c] by (simp add: line_tokens_def a)
  with Cons.IH [of "put_args ws args" ?st "act\<lparr>act_commands := act_commands act @ [to_command ws]\<rparr>"] l Cons.prems(1)
  show ?case by simp
qed

text \<open>A configuration of actions: the trigger and the commands of each.\<close>

definition render_actions :: "(string \<times> string list list) list \<Rightarrow> string" where
  "render_actions secs = concat (map (\<lambda>(trig, cmds). concat (map render_line ([''on'', trig] # cmds))) secs)"

definition to_action :: "string \<times> string list list \<Rightarrow> action" where
  "to_action = (\<lambda>(trig, cmds). \<lparr>act_name = trig, act_commands = map to_command cmds\<rparr>)"

lemma parse_sections:
  assumes "\<forall>(trig, cmds) \<in> set secs. \<forall>ws \<in> set cmds. command_line ws" "length args = INIT_PARSER_MAXARGS"
  shows "parse_tokens os (concat (map (\<lambda>(trig, cmds). concat (map line_tokens ([''on'', trig] # cmds))) secs)) args 0 ctx im st =
    Ret (im, st\<lparr>action_list := action_list st @ map to_action secs\<rparr>)"
  using assms
proof (induction secs arbitrary: args ctx st)
  case (Cons s secs)
  obtain trig cmds where s: "s = (trig, cmds)" by fastforce
  let ?ts = "concat (map (\<lambda>(trig, cmds). concat (map line_tokens ([''on'', trig] # cmds))) secs)"
  let ?al = "action_list st" and ?act = "\<lparr>act_name = trig, act_commands = []\<rparr>"
  let ?st = "st\<lparr>action_list := ?al @ [?act]\<rparr>"
  have "parse_tokens os (concat (map (\<lambda>(trig, cmds). concat (map line_tokens ([''on'', trig] # cmds))) (s # secs))) args 0 ctx im st =
      parse_tokens os (map Word [''on'', trig] @ Newline # concat (map line_tokens cmds) @ ?ts) args 0 ctx im st"
    by (simp add: s line_tokens_def)
  also have "\<dots> = parse_tokens os (concat (map line_tokens cmds) @ ?ts) (put_args [''on'', trig] args) 0 (In_action (length ?al)) im ?st"
    using parse_tokens_line [of "[''on'', trig]" args] Cons.prems(2) config_line_on [of os trig args ctx im st]
    by (simp add: INIT_PARSER_MAXARGS_def numeral_2_eq_2)
  also obtain args' where "length args' = INIT_PARSER_MAXARGS" "\<dots> = parse_tokens os ?ts args' 0 (In_action (length ?al)) im
      (?st\<lparr>action_list := ?al @ [?act\<lparr>act_commands := act_commands ?act @ map to_command cmds\<rparr>]\<rparr>)"
    using parse_commands [of cmds "put_args [''on'', trig] args" ?st ?al ?act os ?ts im] Cons.prems s
      length_put_args [of "[''on'', trig]" args] by (auto simp: INIT_PARSER_MAXARGS_def)
  note this(2)
  also have "parse_tokens os ?ts args' 0 (In_action (length ?al)) im
      (?st\<lparr>action_list := ?al @ [?act\<lparr>act_commands := act_commands ?act @ map to_command cmds\<rparr>]\<rparr>) =
      Ret (im, st\<lparr>action_list := ?al @ map to_action (s # secs)\<rparr>)"
    using Cons.IH [of args'] Cons.prems(1) \<open>length args' = _\<close> by (simp add: s to_action_def)
  finally show ?case .
qed simp

text \<open>
  C14. A configuration that is printed is read back as it was: for any actions whose commands the
  parser accepts, with arguments of any characters but NUL and quotes, the parser, with the
  tokenizer rewriting its buffer in place, returns without a fault, has no file to import, adds exactly these actions with
  exactly these commands in this order behind the existing ones, and changes nothing else.
\<close>

theorem config_round_trip:
  assumes "\<forall>(trig, cmds) \<in> set secs. plain trig \<and> (\<forall>ws \<in> set cmds. command_line ws)"
  shows "parse_config os (render_actions secs @ [NUL]) st =
    Ret ([], st\<lparr>action_list := action_list st @ map to_action secs\<rparr>)"
proof -
  define lines where "lines = concat (map (\<lambda>(trig, cmds). [''on'', trig] # cmds) secs)"
  have r: "render_actions secs = concat (map render_line lines)"
    unfolding render_actions_def lines_def by (induction secs) auto
  have p: "plain w" if "ws \<in> set lines" "w \<in> set ws" for ws w
    using that assms by (auto simp: lines_def command_line_def plain_def)
  then have "NUL \<notin> set (render_actions secs)" unfolding r using render_no_NUL by (fastforce simp: plain_def)
  moreover have "lex_tokens (render_actions secs) = concat (map line_tokens lines)"
    unfolding r line_tokens_def [abs_def] by (rule lex_lines) (use p in \<open>auto simp: plain_def\<close>)
  moreover have "concat (map line_tokens lines) = concat (map (\<lambda>(trig, cmds). concat (map line_tokens ([''on'', trig] # cmds))) secs)"
    unfolding lines_def by (induction secs) auto
  moreover have "\<forall>(trig, cmds) \<in> set secs. \<forall>ws \<in> set cmds. command_line ws" using assms by auto
  ultimately show ?thesis
    using parse_sections [of secs "replicate INIT_PARSER_MAXARGS NULL" os No_op "[]" st] by (simp add: parse_config_tokens)
qed

theorem config_round_trip_witness:
  "parse_config demo_os (render_actions [(''boot'', [[''start'', ''adbd''], [''setprop'', ''a.b'', ''1 2'']])] @ [NUL]) init_start =
     Ret ([], init_start\<lparr>action_list := action_list init_start @ map to_action [(''boot'', [[''start'', ''adbd''], [''setprop'', ''a.b'', ''1 2'']])]\<rparr>)"
  by (rule config_round_trip)
    (simp add: plain_def command_line_def INIT_PARSER_MAXARGS_def lookup_keyword_def kw_is_def kw_nargs_def)

section \<open>The invariant after parsing\<close>

text \<open>A service that was only configured.\<close>

definition fresh :: "service \<Rightarrow> bool" where
  "fresh svc \<longleftrightarrow> svc_ok svc \<and> \<not> flagged svc (SVC_RUNNING OR SVC_RESTARTING)"

definition parse_inv :: "parse_context \<Rightarrow> init_state \<Rightarrow> bool" where
  "parse_inv ctx st \<longleftrightarrow> init_inv st \<and>
     (\<forall>i. ctx = In_service i \<longrightarrow> i < length (service_list st) \<and> fresh (service_list st ! i))"

lemma fresh_upd [simp]:
  "fresh (svc\<lparr>svc_classname := c\<rparr>) = fresh svc" "fresh (svc\<lparr>svc_keycodes := k\<rparr>) = fresh svc" "fresh (svc\<lparr>svc_nkeycodes := n\<rparr>) = fresh svc"
  "fresh (svc\<lparr>svc_onrestart := cmds\<rparr>) = fresh svc" "fresh (svc\<lparr>svc_envvars := e\<rparr>) = fresh svc" "fresh (svc\<lparr>svc_sockets := so\<rparr>) = fresh svc"
  "fresh (svc\<lparr>svc_uid := u\<rparr>) = fresh svc" "fresh (svc\<lparr>svc_gid := u\<rparr>) = fresh svc" "fresh (svc\<lparr>svc_supp_gids := us\<rparr>) = fresh svc"
  "fresh (svc\<lparr>svc_nr_supp_gids := n\<rparr>) = fresh svc" "fresh (svc\<lparr>svc_ioprio_class := ic\<rparr>) = fresh svc" "fresh (svc\<lparr>svc_ioprio_pri := p\<rparr>) = fresh svc"
  by (simp_all add: fresh_def svc_ok_def flagged_def)

lemma fresh_flags:
  "fresh svc \<Longrightarrow> fresh (set_flags SVC_CONSOLE svc)" "fresh svc \<Longrightarrow> fresh (set_flags SVC_DISABLED svc)"
  "fresh svc \<Longrightarrow> fresh (set_flags SVC_RC_DISABLED svc)" "fresh svc \<Longrightarrow> fresh (set_flags SVC_ONESHOT svc)"
  "fresh svc \<Longrightarrow> fresh (set_flags SVC_CRITICAL svc)"
  by (auto simp: fresh_def svc_ok_def flag_simps)

lemma fresh_helpers [simp]:
  "fresh (set_ioprio pri c svc) = fresh svc" "fresh (set_groups groups svc) = fresh svc" "fresh (add_socket as svc) = fresh svc"
  by (simp_all add: set_ioprio_def set_groups_def add_socket_def Let_def)

lemma service_option_fresh:
  assumes "service_option kw nargs args svc = Ret svc'" "fresh svc"
  shows "fresh svc'"
  using assms(1) unfolding service_option_def Let_def split_conv
  by (elim if_RetE; (simp only: bind_eq_Some_conv option.inject)?;
    use assms(2) in \<open>auto simp: fresh_flags bind_eq_Some_conv elim!: if_RetE\<close>)

lemma fresh_new_service: "fresh (new_service name as)"
  by (simp add: fresh_def svc_ok_def new_service_def flag_simps)

lemma parse_line_inv:
  assumes "parse_line ctx nargs args st = Ret st'" "parse_inv ctx st"
  shows "parse_inv ctx st'"
proof (cases ctx)
  case (In_service i)
  with assms(2) have i: "i < length (service_list st)" "fresh (service_list st ! i)" "init_inv st" by (auto simp: parse_inv_def)
  have "st' = st \<or> (\<exists>svc. fresh svc \<and> st' = upd_svc i (\<lambda>_. svc) st)"
    using assms(1) In_service i(2)
    by (auto simp: parse_line_service_def bind_eq_Some_conv split: if_splits dest!: service_option_fresh)
  then show ?thesis
  proof
    assume "\<exists>svc. fresh svc \<and> st' = upd_svc i (\<lambda>_. svc) st"
    then obtain svc where svc: "fresh svc" "st' = upd_svc i (\<lambda>_. svc) st" by blast
    have "set (service_list st') \<subseteq> insert svc (set (service_list st))"
      unfolding svc(2) upd_svc_def by (simp add: set_update_subset_insert)
    with svc i In_service show ?thesis by (auto simp: parse_inv_def init_inv_def fresh_def)
  qed (use assms(2) in simp)
next
  case (In_action a)
  with assms show ?thesis
    by (auto simp: parse_line_action_def bind_eq_Some_conv add_command_def parse_inv_def init_inv_def Let_def split: if_splits)
qed (use assms in auto)

lemma parse_new_section_inv:
  assumes "parse_new_section os kw nargs args im st = Ret (ctx, im', st')" "init_inv st"
  shows "parse_inv ctx st'"
proof -
  have s: "parse_inv (case svc of Some i \<Rightarrow> In_service i | None \<Rightarrow> No_op) st'" if "parse_service nargs args st = Ret (svc, st')" for svc
    using that assms(2) fresh_new_service
    by (auto simp: parse_service_def bind_eq_Some_conv parse_inv_def init_inv_def nth_append fresh_def split: if_splits)
  have a: "parse_inv (case act of Some a \<Rightarrow> In_action a | None \<Rightarrow> No_op) st'" if "parse_action nargs args st = Ret (act, st')" for act
    using that assms(2) by (auto simp: parse_action_def bind_eq_Some_conv parse_inv_def init_inv_def split: if_splits)
  show ?thesis
    using assms(1) unfolding parse_new_section_def
    by (elim if_RetE) (use s a assms(2) in \<open>auto simp: bind_eq_Some_conv, auto simp: parse_inv_def\<close>)
qed

lemma config_line_inv:
  assumes "config_line os nargs args ctx im st = Ret (ctx', im', st')" "parse_inv ctx st"
  shows "parse_inv ctx' st'"
proof -
  have "init_inv st" using assms(2) by (simp add: parse_inv_def)
  with assms show ?thesis
    by (auto simp: config_line_def Let_def bind_eq_Some_conv split: if_splits dest: parse_new_section_inv parse_line_inv)
qed

lemma parse_tokens_inv:
  "parse_tokens os ts args nargs ctx im st = Ret (im', st') \<Longrightarrow> parse_inv ctx st \<Longrightarrow> init_inv st'"
proof (induction os ts args nargs ctx im st rule: parse_tokens.induct)
  case 1
  then show ?case by (simp add: parse_inv_def)
next
  case (2 os ts args nargs ctx im st)
  show ?case
  proof (cases "nargs = 0")
    case False
    with 2(3) obtain c i s where c: "config_line os nargs args ctx im st = Ret (c, i, s)" "parse_tokens os ts args 0 c i s = Ret (im', st')"
      by (auto simp: bind_eq_Some_conv)
    show ?thesis by (rule 2(2) [OF False _ refl refl c(2) config_line_inv [OF c(1) 2(4)]])  (use c(1) in simp)
  qed (use 2 in simp)
qed (auto split: if_splits)

lemma parse_config_inv:
  assumes "parse_config os (cs @ [NUL]) st = Ret (im, st')" "init_inv st"
  shows "init_inv st'"
proof -
  let ?st = "\<lparr>data = cs @ [NUL], ptr = 0, tok_text = 0, line = 0, nexttoken = T_EOF\<rparr>"
  from parse_loop_tokens [OF _ _ refl, of ?st "replicate INIT_PARSER_MAXARGS NULL" os 0 No_op "[]" st] assms(1)
  have "parse_tokens os (pending ?st) (arg_strings (data ?st) (replicate INIT_PARSER_MAXARGS NULL)) 0 No_op [] st = Ret (im, st')"
    by (simp add: parse_config_def tok_wf_def args_behind_def)
  then show ?thesis by (rule parse_tokens_inv) (use assms(2) in \<open>simp add: parse_inv_def\<close>)
qed

lemma read_file_inv: "read_file os fn st = (r, st') \<Longrightarrow> init_inv st' = init_inv st"
  by (auto simp: read_file_def ask_def init_inv_def split: option.splits prod.splits if_splits)

lemma parse_files_inv:
  assumes "parse_files os files st = Ret st'" "init_inv st"
  shows "init_inv st'"
proof -
  have "init_inv st \<longrightarrow> init_inv st'"
  proof (rule parse_files.raw_induct [OF _ assms(1), where P = "\<lambda>_ _ st st'. init_inv st \<longrightarrow> init_inv st'"])
    fix pf os files st st'
    assume ih: "\<And>os files st st'. pf os files st = Ret st' \<Longrightarrow> init_inv st \<longrightarrow> init_inv st'"
      and e: "(case files of [] \<Rightarrow> Ret st
        | fn # rest \<Rightarrow> case read_file os fn st of (None, st) \<Rightarrow> pf os rest st
          | (Some s, st) \<Rightarrow> parse_config os (s @ [NUL]) st \<bind> (\<lambda>(im, st). pf os (im @ rest) st)) = Ret st'"
    show "init_inv st \<longrightarrow> init_inv st'"
    proof (cases files)
      case (Cons fn rest)
      obtain r st1 where r: "read_file os fn st = (r, st1)" by fastforce
      show ?thesis
        using e Cons r ih read_file_inv [OF r] by (auto simp: bind_eq_Some_conv split: option.splits dest: parse_config_inv)
    qed (use e in simp)
  qed
  with assms(2) show ?thesis by simp
qed

lemma init_parse_config_file_inv:
  "init_parse_config_file os fn st = Ret (r, st') \<Longrightarrow> init_inv st \<Longrightarrow> init_inv st'"
  by (auto simp: init_parse_config_file_def bind_eq_Some_conv read_file_inv split: prod.splits option.splits
      dest!: parse_config_inv parse_files_inv)

end
