(* ===== verification/Spec2Isabelle.thy ===== *)
theory Spec2Isabelle
  imports Str_Parms Camera_Metadata Sparse_Roundtrip Rsa_Verify Init_Parser
begin

text \<open>
  Verification of parts of the Vixen system repository: the C libraries and the init process of an
  Android system. Six groups of theories model six parts of it.

  \<^bold>\<open>Conventions.\<close> The code is modelled for a 32-bit machine: \<open>u8\<close>, \<open>u16\<close>, \<open>u32\<close>, \<open>u64\<close> are words that wrap around as
  in C (\<open>C_Prelude\<close>, \<open>C_Memory\<close>). A pointer that may be NULL is an option; a function that can access memory
  outside an object returns \<open>exec\<close>, where \<open>Fault\<close> stands for undefined behaviour, so that \<open>f x = Ret y\<close> says that the
  code returns and stays inside its objects. \<open>C_Memory\<close> holds checked loads, stores and copies, \<open>C_Prelude\<close> the string and
  number functions of the C library that the sources use. System calls, allocators, \<open>qsort\<close>, \<open>bsearch\<close>, zlib and
  other code outside the repository are arguments, with their documented behaviour as named contracts.

  \<^bold>\<open>Hash tables and parameter strings.\<close> \<open>Hashmap\<close> models \<open>core/libcutils/hashmap.c\<close> (creation, put, get, remove,
  memoize, iteration, growth), \<open>Str_Parms\<close> its client \<open>core/libcutils/str_parms.c\<close>. The contract between them is the locale
  \<open>map_provider\<close> of \<open>Map_Interface\<close>, provided by \<open>eq_key_ops\<close> and interpreted for the key functions of both files. The lemmas
  show that the table implements a map on every branch, that growing loses nothing, that printing and parsing
  parameters are inverse, and the effect of a stale error number.

  \<^bold>\<open>Camera metadata.\<close> \<open>Camera_Tags\<close> holds the tag tables of \<open>media/camera/src/camera_metadata.c\<close> and their look-ups,
  \<open>Camera_Metadata\<close> the packets: allocation, copy, append, add, sort, find, delete and update of entries, each shown
  to keep the packet well formed and to implement the operation on a list of entries.

  \<^bold>\<open>Sparse images.\<close> \<open>Sparse_Crc\<close>, \<open>Backed_Block\<close>, \<open>Output_File\<close>, \<open>Sparse_File\<close> and \<open>Sparse_Read\<close> model the files of
  \<open>core/libsparse\<close> of these names: the checksum, the linked list of blocks over an explicit heap, the writer over three media
  (locale \<open>write_sink\<close>, interpreted for a buffer, a disk file and a counter), the files and the reader.
  \<open>Sparse_Roundtrip\<close> shows that reading a written image gives the image back, and that the reader faults on images with
  a checksum. The loops of the reader are partial functions; the theorems say that they return.

  \<^bold>\<open>Signatures.\<close> \<open>Sha1\<close> models both versions of \<open>core/libmincrypt/sha.c\<close> and the standard, with the locales \<open>compression\<close>
  and \<open>streaming\<close> interpreted for both; \<open>Rsa\<close> and \<open>Rsa_Verify\<close> model \<open>rsa.c\<close>, \<open>rsa_e_3.c\<close> and \<open>rsa_e_f4.c\<close>: Montgomery
  multiplication within its bounds, the powers modulo the key, and which signatures are accepted.

  \<^bold>\<open>Lists.\<close> \<open>Linked_List\<close> models \<open>core/libcutils/list.c\<close> over a store of nodes, against the list of its items, and what happens
  when an item is added twice.

  \<^bold>\<open>Init.\<close> The process of \<open>core/init\<close>. Its state is the record \<open>init_state\<close> of \<open>Init_State\<close>: services and actions are
  named by their position, the queue of actions is the ring of nodes of the source. The system is the record \<open>os\<close>: every answer may
  depend on the number of questions asked before (\<open>ask\<close>), and effects are logged (\<open>tell\<close>). The theories follow the files.
  \<^item> \<open>Init_Tokens\<close> (\<open>parser.c\<close>): the tokenizer that unescapes words in place, shown equal to a lexer of the unread text.
  \<^item> \<open>Init_Keywords\<close> (\<open>keywords.h\<close>): the table of keywords, and that look-up and names are inverse.
  \<^item> \<open>Init_Queue\<close> (\<open>init_parser.c\<close>): the queue of actions; the locale \<open>fifo\<close> states its order; an action queued twice
    repeats for ever.
  \<^item> \<open>Init_Property\<close> (\<open>property_service.c\<close>): the property area, permissions and property files; the area is a map
    that keeps read-only entries.
  \<^item> \<open>Init_Expand\<close> (\<open>expand_props\<close>): the text produced and the bounds of the buffer.
  \<^item> \<open>Init_Service\<close> (\<open>init.c\<close>): environment, start, stop, restart, control messages and requests at the
    property socket, and what applications may do there.
  \<^item> \<open>Init_Main\<close> (\<open>builtins.c\<close>, \<open>signal_handler.c\<close>, \<open>keychords.c\<close>, \<open>init.c\<close>): commands, exits of processes, key chords, the start of the
    property service and one turn of the main loop with what \<open>poll\<close> reports as an argument.
  \<^item> \<open>Init_Steps\<close>: every operation is a sequence of a few kinds of steps, so one invariant of the steps holds in every
    state the loop reaches; and restarts happen, over infinite runs of the loop and an unbounded clock.
  \<^item> \<open>Init_Parser\<close> (\<open>init_parser.c\<close>, \<open>util.c\<close>): sections, options and imports over the tokenizer, with the stale entries of the argument
    array; printed configurations are read back, and parsing keeps the invariant.
  This theory joins the parser and the main loop.

  \<^bold>\<open>Bounds.\<close> No fuel is used: recursion is structural, has a measure, or is a partial function whose results are shown
  to exist (\<open>parse_loop\<close> returns what the recursive \<open>parse_tokens\<close> returns). \<open>parse_files\<close> has no such theorem, since a file that imports itself
  is read for ever; what is shown of it holds whenever it returns. Limits such as \<open>PROP_NAME_MAX\<close> (32), \<open>PROP_VALUE_MAX\<close> (92), \<open>PATH_MAX\<close>
  (4096) and 64 arguments are those of the code and of its C library.

  \<^bold>\<open>Not modelled.\<close> Of init: SELinux, bootcharting, the logo, the kernel command line and the order of the first triggers in \<open>main\<close>, the device
  manager, ueventd and watchdogd. Commands that only call the kernel are effects with an answer, and so is what a child does after
  \<open>fork\<close> but for its arguments, environment, user and groups. Allocations of init are granted, and \<open>do_optbcp\<close> does not rewrite its
  argument although \<open>strtok\<close> does. Of libsparse and the camera library: the functions that only print. The other programs and
  libraries of the repository (adb, fastboot, toolbox, liblog, logcat, netd, vold, security, bluetooth, extras and the like) are
  drivers of system calls, user interfaces or code over libraries outside the repository.
\<close>

section \<open>Init from its configuration files to its main loop\<close>

text \<open>
  C1. Whatever the configuration files are, and whatever the commands in them, the requests at the property
  socket, the exits of processes and the key chords, after the files were parsed and any number of turns of the
  main loop: a service that is marked running has a process and is neither disabled nor waiting; a service that waits
  for its restart has no process, was not stopped and is not one-shot; the configuration of every service (its
  arguments, user, groups, class) is what the parser stored; the property area is well formed; and every
  read-only property still has its value, but for the two exceptions of the code.
\<close>

theorem init_invariant:
  assumes "os_ok os" "init_inv st" "init_parse_config_file os file st = Ret (r, st1)" "main_loop os turns st1 = Ret st2"
  shows "init_inv st2 \<and> map svc_config (service_list st2) = map svc_config (service_list st1) \<and>
    (\<forall>name v. ro_locked name \<and> property_get os name st1 = Some v \<longrightarrow> property_get os name st2 = Some v)"
  using main_loop_keeps [OF assms(1) init_parse_config_file_inv [OF assms(3,2)] assms(4)] .

text \<open>A system whose one configuration file defines one service, and a request that starts it.\<close>

definition rc_words :: "string list" where
  "rc_words = [''service'', ''adbd'', ''/sbin/adbd'']"

definition rc_os :: os where
  "rc_os = clock_os\<lparr>os_file := \<lambda>_ _. Some (0, concat (map render_word rc_words))\<rparr>"

definition rc_state :: init_state where
  "rc_state = init_start\<lparr>service_list := [new_service ''adbd'' [''/sbin/adbd'']], os_calls := 1\<rparr>"

definition start_request :: poll_event where
  "start_request = Property_request (Some (0, 0)) (Some \<lparr>msg_cmd = PROP_MSG_SETPROP, msg_name = ''ctl.start'', msg_value = ''adbd''\<rparr>)"

lemma rc_os_ok: "os_ok rc_os"
  using clock_os_ok by (simp add: rc_os_def os_ok_def)

lemma rc_parsed: "init_parse_config_file rc_os ''/init.rc'' init_start = Ret (0, rc_state)"
proof -
  let ?st = "init_start\<lparr>os_calls := 1\<rparr>"
  have r: "read_file rc_os ''/init.rc'' init_start = (Some (render_line rc_words), ?st)"
    by (simp add: read_file_def ask_def rc_os_def render_line_def init_start_def)
  have q: "\<forall>w \<in> set rc_words. DQUOTE \<notin> set w" "\<forall>w \<in> set rc_words. NUL \<notin> set w" by (simp_all add: rc_words_def)
  have l: "lex_tokens (render_line rc_words) = map Word rc_words @ Newline # []"
    using lex_line [OF q(1), of "[]"] by (simp add: lex_tokens.simps [of "[]"])
  let ?args = "put_args rc_words (replicate INIT_PARSER_MAXARGS NULL)"
  have a: "arg ?args 0 = Ret ''service''" "arg ?args (Suc 0) = Ret ''adbd''" "arg ?args 2 = Ret ''/sbin/adbd''"
    by (simp_all add: arg_put_args rc_words_def)
  have k: "lookup_keyword ''service'' = K_service" "kw_is K_service SECTION"
    using lookup_kw_name [of K_service] by (simp_all add: kw_name_def kw_is_def)
  have v: "valid_name ''adbd''" by (simp add: valid_name_def isalnum_def isalpha_def char_code_def)
  have n: "rc_words \<noteq> []" "length rc_words \<le> INIT_PARSER_MAXARGS" "length rc_words = 3"
    by (simp_all add: rc_words_def INIT_PARSER_MAXARGS_def)
  have "config_line rc_os 3 ?args No_op [] ?st = Ret (In_service 0, [], rc_state)"
    by (simp add: config_line_def a k parse_new_section_def parse_service_def v service_find_by_name_def)
      (simp add: rc_state_def init_start_def)
  with parse_tokens_line [OF n(1,2) length_replicate]
  have "parse_tokens rc_os (lex_tokens (render_line rc_words)) (replicate INIT_PARSER_MAXARGS NULL) 0 No_op [] ?st = Ret ([], rc_state)"
    unfolding l by (simp only: n(3) Option.bind_lunit split_conv parse_tokens.simps)
  then have "parse_config rc_os (render_line rc_words @ [NUL]) ?st = Ret ([], rc_state)"
    by (simp only: parse_config_tokens [OF render_no_NUL [OF q(2)]])
  then show ?thesis by (simp add: init_parse_config_file_def r parse_files.simps [of _ "[]"])
qed

lemma rc_turn:
  "\<exists>st. main_loop rc_os [[start_request]] rc_state = Ret st \<and> flagged (service_list st ! 0) SVC_RUNNING"
proof -
  have e: "execute_one_command rc_os rc_state = Ret rc_state"
    by (rule demo_execute) (simp_all add: rc_state_def init_start_def list_empty_def)
  have r: "restart_processes rc_os rc_state = Ret rc_state"
    by (simp add: restart_processes_def service_for_each_flags_def rc_state_def init_start_def new_service_def flag_simps)
  have p: "poll_timeout rc_os rc_state = (-1, rc_state)"
    by (simp add: poll_timeout_def action_queue_empty_def list_empty_def rc_state_def init_start_def)
  have "handle_event rc_os start_request rc_state = service_start rc_os 0 NULL rc_state"
    by (simp add: start_request_def handle_property_set_fd_def c_text_def PROP_NAME_MAX_def PROP_VALUE_MAX_def
        check_control_perms_def check_control_mac_perms_def handle_control_message_def msg_start_def is_led_def
        service_find_by_name_def rc_state_def new_service_def Let_def)
  moreover have "\<exists>st. service_start rc_os 0 NULL rc_state = Ret st \<and> flagged (service_list st ! 0) SVC_RUNNING"
    by (simp add: service_start_def Let_def ask_def gettime_def rc_state_def rc_os_def clock_os_def demo_os_def init_start_def
        new_service_def upd_svc_def tell_def flag_simps)
  ultimately show ?thesis by (auto simp: main_iteration_def e r p)
qed

theorem init_invariant_witness:
  "\<exists>st. main_loop rc_os [[start_request]] rc_state = Ret st \<and> flagged (service_list st ! 0) SVC_RUNNING \<and> init_inv st \<and>
     map svc_config (service_list st) = map svc_config (service_list rc_state)"
proof -
  have i: "init_inv init_start" by (simp add: init_inv_def) (simp add: init_start_def)
  obtain st where "main_loop rc_os [[start_request]] rc_state = Ret st" "flagged (service_list st ! 0) SVC_RUNNING"
    using rc_turn by blast
  with init_invariant [OF rc_os_ok i rc_parsed] show ?thesis by blast
qed

end
